(* ===== verification/Prelude.thy ===== *)
theory Prelude
  imports Main "HOL-Library.Word"
begin

text \<open>
  Shared vocabulary of the LeoNet development: the machine types of the Win32 build
  (\<open>char\<close> is 8 bits, \<open>short\<close> 16, \<open>int\<close> and \<open>unsigned long\<close> 32, little-endian),
  the faults a C memory access can raise, byte-level reads and writes of an object, the
  chaining of computations that may fault, and the bit and list lemmas the components use.
\<close>

unbundle bit_operations_syntax

section \<open>Machine types\<close>

type_synonym byte = "8 word"
type_synonym u16 = "16 word"
type_synonym u32 = "32 word"

named_theorems mem_simps \<open>evaluation of reads, writes and copies that stay in bounds\<close>
named_theorems bits_simps \<open>bits of the words a component builds\<close>

section \<open>Faults and computations that may fault\<close>

text \<open>
  What C leaves undefined, or what stops the program, is a value: an access outside an
  object, the use of an indeterminate value, a null or freed pointer, a failed
  \<open>assert\<close> of the debug build, a failed allocation. The last value is not C's: a loop
  with a bounded number of turns that reaches the bound has it.
\<close>

datatype fault =
    Out_Of_Bounds
  | Uninitialised
  | Null_Pointer
  | Use_After_Free
  | Assert_Failed
  | Bad_Alloc
  | No_Return

type_synonym 'a result = "fault + 'a"

definition chain :: "'a result \<Rightarrow> ('a \<Rightarrow> 'b result) \<Rightarrow> 'b result" where
  "chain m k = (case m of Inl e \<Rightarrow> Inl e | Inr x \<Rightarrow> k x)"

lemma chain_simps [simp]:
  "chain (Inl e) k = Inl e"
  "chain (Inr x) k = k x"
  by (simp_all add: chain_def)

lemma chain_eq_Inr: "chain m k = Inr y \<longleftrightarrow> (\<exists>x. m = Inr x \<and> k x = Inr y)"
  by (cases m) auto

lemma chain_eq_Inl: "chain m k = Inl e \<longleftrightarrow> m = Inl e \<or> (\<exists>x. m = Inr x \<and> k x = Inl e)"
  by (cases m) auto

lemma chain_cong [fundef_cong]:
  "m = m' \<Longrightarrow> (\<And>x. m' = Inr x \<Longrightarrow> k x = k' x) \<Longrightarrow> chain m k = chain m' k'"
  by (cases m') auto

section \<open>Objects as byte lists\<close>

text \<open>
  An object in memory is the list of its bytes; a pointer into it is an offset. A read or
  a write that leaves the object is \<^const>\<open>Out_Of_Bounds\<close>.
\<close>

definition mem_read :: "byte list \<Rightarrow> nat \<Rightarrow> nat \<Rightarrow> byte list result" where
  "mem_read obj off n =
     (if off + n \<le> length obj then Inr (take n (drop off obj)) else Inl Out_Of_Bounds)"

definition overwrite :: "'a list \<Rightarrow> nat \<Rightarrow> 'a list \<Rightarrow> 'a list" where
  "overwrite obj off bs = take off obj @ bs @ drop (off + length bs) obj"

definition mem_write :: "byte list \<Rightarrow> nat \<Rightarrow> byte list \<Rightarrow> byte list result" where
  "mem_write obj off bs =
     (if off + length bs \<le> length obj then Inr (overwrite obj off bs) else Inl Out_Of_Bounds)"

definition memcpy :: "byte list \<Rightarrow> nat \<Rightarrow> byte list \<Rightarrow> nat \<Rightarrow> nat \<Rightarrow> byte list result" where
  "memcpy dst doff src soff n = chain (mem_read src soff n) (mem_write dst doff)"

lemma mem_read_ok [mem_simps]: "off + n \<le> length obj \<Longrightarrow> mem_read obj off n = Inr (take n (drop off obj))"
  by (simp add: mem_read_def)

lemma mem_write_ok [mem_simps]: "off + length bs \<le> length obj \<Longrightarrow> mem_write obj off bs = Inr (overwrite obj off bs)"
  by (simp add: mem_write_def)

lemma memcpy_ok [mem_simps]:
  "soff + n \<le> length src \<Longrightarrow> doff + n \<le> length dst \<Longrightarrow>
   memcpy dst doff src soff n = Inr (overwrite dst doff (take n (drop soff src)))"
  by (simp add: memcpy_def mem_simps)

lemma memcpy_fault:
  "length src < soff + n \<or> length dst < doff + n \<Longrightarrow> memcpy dst doff src soff n = Inl Out_Of_Bounds"
  by (auto simp: memcpy_def mem_read_def mem_write_def)

lemma length_overwrite [simp]: "off + length bs \<le> length obj \<Longrightarrow> length (overwrite obj off bs) = length obj"
  by (simp add: overwrite_def)

lemma overwrite_Nil [simp]: "overwrite obj off [] = obj"
  by (simp add: overwrite_def)

lemma overwrite_0: "overwrite obj 0 bs = bs @ drop (length bs) obj"
  by (simp add: overwrite_def)

lemma nth_overwrite:
  assumes "off + length bs \<le> length obj" and "j < length obj"
  shows "overwrite obj off bs ! j = (if off \<le> j \<and> j < off + length bs then bs ! (j - off) else obj ! j)"
  using assms by (auto simp: overwrite_def nth_append)

lemma overwrite_append:
  assumes "length bs + length cs \<le> length obj - off" and "off \<le> length obj"
  shows "overwrite (overwrite obj off bs) (off + length bs) cs = overwrite obj off (bs @ cs)"
  using assms by (simp add: overwrite_def ac_simps)

lemma overwrite_next:
  "off' = off + length bs \<Longrightarrow> off' + length cs \<le> length obj \<Longrightarrow>
   overwrite (overwrite obj off bs) off' cs = overwrite obj off (bs @ cs)"
  by (simp add: overwrite_append)

lemma overwrite_self: "overwrite obj off (take n (drop off obj)) = obj"
proof (cases "off + n \<le> length obj")
  case True
  have "take off obj @ take n (drop off obj) @ drop n (drop off obj) = obj"
    by (simp only: append_take_drop_id)
  with True show ?thesis by (simp add: overwrite_def add.commute)
next
  case False
  then have "take n (drop off obj) = drop off obj" by simp
  then show ?thesis by (simp add: overwrite_def)
qed

lemma overwrite_overwrite_same:
  "length bs = length cs \<Longrightarrow> off + length bs \<le> length obj \<Longrightarrow>
   overwrite (overwrite obj off bs) off cs = overwrite obj off cs"
  by (simp add: overwrite_def)

lemma take_drop_overwrite:
  "off + length bs \<le> length obj \<Longrightarrow> take (length bs) (drop off (overwrite obj off bs)) = bs"
  by (simp add: overwrite_def)

section \<open>Byte masks\<close>

lemma and_0xFF: "x AND 0xFF = take_bit 8 x" for x :: "'a::len word"
proof -
  have "(0xFF :: 'a word) = mask 8" by (simp add: mask_eq_exp_minus_1)
  then show ?thesis by (simp only: take_bit_eq_mask)
qed

lemma ucast_byte_and_0xFF [simp]: "(ucast (b :: byte) :: 'a::len word) AND 0xFF = ucast b"
  by (rule bit_word_eqI) (auto simp: and_0xFF bit_simps dest: bit_imp_le_length)

lemma ucast_and_0xFF [simp]: "(ucast (x AND 0xFF :: 'a::len word) :: byte) = ucast x"
  by (rule bit_word_eqI) (auto simp: and_0xFF bit_simps)

lemma xor_eq_0_iff: "a XOR b = 0 \<longleftrightarrow> a = b" for a b :: "'a::len word"
proof
  assume "a XOR b = 0"
  then have "(a XOR b) XOR b = b" by simp
  then show "a = b" by (simp add: xor.assoc)
qed simp

section \<open>Powers of two and index masks\<close>

lemma nat_and_pred_eq_0: "0 < n \<Longrightarrow> n AND (n - 1) = 0 \<Longrightarrow> \<exists>k. n = 2 ^ k" for n :: nat
proof (induction n rule: less_induct)
  case (less n)
  show ?case
  proof (cases "even n")
    case True
    then obtain m where m: "n = 2 * m" by auto
    with less.prems have "0 < m" and "n - 1 = 2 * (m - 1) + 1" by auto
    with less.prems m have "m AND (m - 1) = 0"
      by (simp add: and_nat_rec [of "2 * m"])
    with less.IH [of m] m \<open>0 < m\<close> obtain k where "m = 2 ^ k" by auto
    with m have "n = 2 ^ Suc k" by simp
    then show ?thesis ..
  next
    case False
    then obtain m where m: "n = 2 * m + 1" by (auto elim: oddE)
    have "bit (2 * m) j \<Longrightarrow> bit (2 * m + 1) j" for j
      by (cases j) (auto simp: bit_0 bit_Suc)
    then have "n AND (n - 1) = n - 1"
      by (auto intro!: bit_eqI simp: bit_and_iff m)
    with less.prems have "n = 2 ^ 0" by simp
    then show ?thesis ..
  qed
qed

definition is_power_of_2 :: "u32 \<Rightarrow> bool" where
  "is_power_of_2 x \<longleftrightarrow> x \<noteq> 0 \<and> x AND (x - 1) = 0"

lemma is_power_of_2D:
  assumes "is_power_of_2 x"
  obtains k where "k < 32" and "unat x = 2 ^ k"
proof -
  from assms have x: "x \<noteq> 0" "x AND (x - 1) = 0" by (simp_all add: is_power_of_2_def)
  have "unat x AND (unat x - 1) = unat (x AND (x - 1))"
    by (simp only: unsigned_and_eq unat_minus_one [OF x(1)])
  then have "unat x AND (unat x - 1) = 0" by (simp add: x(2))
  with x obtain k where k: "unat x = 2 ^ k"
    using nat_and_pred_eq_0 [of "unat x"] by (auto simp: unat_gt_0)
  moreover have "k < 32"
  proof -
    have "(2::nat) ^ k < 2 ^ 32" using unsigned_less [of x, where ?'a = nat] by (simp add: k)
    then show ?thesis by (rule power_less_imp_less_exp [rotated]) simp
  qed
  ultimately show ?thesis using that by blast
qed

lemma unat_and_mask_mod:
  assumes "is_power_of_2 n"
  shows "unat (x AND (n - 1)) = unat x mod unat n"
proof -
  from assms obtain k where k: "k < 32" "unat n = 2 ^ k" by (rule is_power_of_2D)
  from assms have "n \<noteq> 0" by (simp add: is_power_of_2_def)
  then have "unat (n - 1) = 2 ^ k - 1" by (simp add: unat_minus_one k)
  then have "unat (x AND (n - 1)) = take_bit k (unat x)"
    by (simp add: unsigned_and_eq take_bit_eq_mask mask_eq_exp_minus_1)
  then show ?thesis by (simp add: k take_bit_eq_mod)
qed

lemma power_of_2_dvd: "is_power_of_2 n \<Longrightarrow> unat n dvd 2 ^ 32"
  using le_imp_power_dvd [of _ 32 "2::nat"] by (elim is_power_of_2D) (metis less_imp_le)

lemma power_of_2_pos: "is_power_of_2 n \<Longrightarrow> 0 < unat n"
  by (elim is_power_of_2D) simp

lemma unat_add_mod_power_of_2:
  "is_power_of_2 n \<Longrightarrow> unat (x + y) mod unat n = (unat x + unat y) mod unat n" for x y :: u32
  using power_of_2_dvd [of n] by (simp add: unat_word_ariths mod_mod_cancel)

section \<open>Circular regions of a list\<close>

text \<open>
  A region of a circular array starts at an offset and wraps at the end: what is read
  from it (\<open>ring_slice\<close>), and what the array is after a list has been written over it
  in two pieces (\<open>ring_store\<close>).
\<close>

definition ring_slice :: "'a list \<Rightarrow> nat \<Rightarrow> nat \<Rightarrow> 'a list" where
  "ring_slice xs off n = map (\<lambda>i. xs ! ((off + i) mod length xs)) [0..<n]"

definition ring_store :: "'a list \<Rightarrow> nat \<Rightarrow> 'a list \<Rightarrow> 'a list" where
  "ring_store xs off bs =
     (let k = min (length bs) (length xs - off)
      in overwrite (overwrite xs off (take k bs)) 0 (drop k bs))"

lemma length_ring_slice [simp]: "length (ring_slice xs off n) = n"
  by (simp add: ring_slice_def)

lemma nth_ring_slice [simp]: "i < n \<Longrightarrow> ring_slice xs off n ! i = xs ! ((off + i) mod length xs)"
  by (simp add: ring_slice_def)

lemma ring_slice_0 [simp]: "ring_slice xs off 0 = []"
  by (simp add: ring_slice_def)

lemma ring_slice_mod: "ring_slice xs (off mod length xs) n = ring_slice xs off n"
  by (simp add: ring_slice_def mod_add_left_eq)

lemma ring_slice_append:
  "ring_slice xs off (m + n) = ring_slice xs off m @ ring_slice xs (off + m) n"
  by (rule nth_equalityI) (auto simp: nth_append ac_simps)

lemma take_ring_slice: "take m (ring_slice xs off n) = ring_slice xs off (min m n)"
  by (rule nth_equalityI) auto

lemma drop_ring_slice: "drop m (ring_slice xs off n) = ring_slice xs (off + m) (n - m)"
  by (rule nth_equalityI) (auto simp: ac_simps)

lemma wrap_mod: "off < N \<Longrightarrow> i < N \<Longrightarrow> (off + i) mod N = (if off + i < N then off + i else off + i - N)"
  for N :: nat
  by (simp add: mod_if)

lemma ring_slice_two_pieces:
  assumes "off < length xs" and "n \<le> length xs"
  shows "take (min n (length xs - off)) (drop off xs) @ take (n - min n (length xs - off)) xs
         = ring_slice xs off n"
proof (cases "n \<le> length xs - off")
  case True
  then show ?thesis using assms by (intro nth_equalityI) auto
next
  case False
  have "(take (length xs - off) (drop off xs) @ take (n - (length xs - off)) xs) ! i = ring_slice xs off n ! i"
    if i: "i < n" for i
  proof (cases "i < length xs - off")
    case True
    then show ?thesis using assms i by (simp add: nth_append)
  next
    case F: False
    then have "(off + i) mod length xs = i - (length xs - off)"
      using assms i by (subst wrap_mod) auto
    then show ?thesis using assms i F False by (simp add: nth_append)
  qed
  then show ?thesis using assms False by (intro nth_equalityI) auto
qed

lemma length_ring_store [simp]:
  "off < length xs \<Longrightarrow> length bs \<le> length xs \<Longrightarrow> length (ring_store xs off bs) = length xs"
  by (simp add: ring_store_def Let_def min_def)

lemma nth_ring_store:
  assumes "off < length xs" and "length bs \<le> length xs" and "i < length xs"
  shows "ring_store xs off bs ! ((off + i) mod length xs) =
         (if i < length bs then bs ! i else xs ! ((off + i) mod length xs))"
proof (cases "length bs \<le> length xs - off")
  case True
  then have st: "ring_store xs off bs = overwrite xs off bs" by (simp add: ring_store_def)
  show ?thesis
  proof (cases "off + i < length xs")
    case True
    then show ?thesis using assms \<open>length bs \<le> length xs - off\<close> by (simp add: st nth_overwrite)
  next
    case False
    then have "(off + i) mod length xs = off + i - length xs" using assms by (subst wrap_mod) auto
    moreover have "off + i - length xs < off" and "\<not> i < length bs"
      using assms False \<open>length bs \<le> length xs - off\<close> by simp_all
    ultimately show ?thesis using assms \<open>length bs \<le> length xs - off\<close> by (simp add: st nth_overwrite)
  qed
next
  case False
  then have st: "ring_store xs off bs =
      overwrite (overwrite xs off (take (length xs - off) bs)) 0 (drop (length xs - off) bs)"
    by (simp add: ring_store_def Let_def)
  show ?thesis
  proof (cases "off + i < length xs")
    case True
    moreover have "\<not> off + i < length bs - (length xs - off)" and "i < length bs"
      using assms False True by simp_all
    ultimately show ?thesis using assms False by (simp add: st nth_overwrite)
  next
    case F: False
    then have m: "(off + i) mod length xs = off + i - length xs" using assms by (subst wrap_mod) auto
    have "length xs - off + (off + i - length xs) = i" and "off + i - length xs < off"
      and "off + i - length xs < length bs - (length xs - off) \<longleftrightarrow> i < length bs"
      using F False assms by auto
    then show ?thesis using assms F False by (simp add: st nth_overwrite m)
  qed
qed

lemma ring_store_Nil [simp]: "ring_store xs off [] = xs"
  by (simp add: ring_store_def Let_def overwrite_def)

lemma ring_slice_store_same:
  "off < length xs \<Longrightarrow> length bs \<le> length xs \<Longrightarrow> ring_slice (ring_store xs off bs) off (length bs) = bs"
  by (rule nth_equalityI) (auto simp: nth_ring_store)

lemma ring_slice_store_other:
  assumes "m + length bs \<le> length xs" and "0 < length xs"
  shows "ring_slice (ring_store xs ((p + m) mod length xs) bs) p m = ring_slice xs p m"
proof (rule nth_equalityI)
  let ?N = "length xs" and ?off = "(p + m) mod length xs"
  have off: "?off < ?N" and bs: "length bs \<le> ?N" using assms by auto
  fix i assume "i < length (ring_slice (ring_store xs ?off bs) p m)"
  then have i: "i < m" by simp
  define j where "j = ?N - m + i"
  have j: "j < ?N" "\<not> j < length bs" using i assms by (auto simp: j_def)
  have "(?off + j) mod ?N = (p + m + j) mod ?N" by (simp add: mod_add_left_eq)
  also have "p + m + j = p + i + ?N" using assms i by (simp add: j_def)
  finally have "(?off + j) mod ?N = (p + i) mod ?N" by simp
  with nth_ring_store [OF off bs j(1)] j(2) i off bs
  show "ring_slice (ring_store xs ?off bs) p m ! i = ring_slice xs p m ! i" by simp
qed simp

section \<open>Little-endian words in memory\<close>

fun le_bytes :: "nat \<Rightarrow> 'a::len word \<Rightarrow> byte list" where
  "le_bytes 0 w = []"
| "le_bytes (Suc n) w = ucast w # le_bytes n (drop_bit 8 w)"

fun le_word :: "byte list \<Rightarrow> 'a::len word" where
  "le_word [] = 0"
| "le_word (b # bs) = ucast b OR push_bit 8 (le_word bs)"

lemma length_le_bytes [simp]: "length (le_bytes n w) = n"
  by (induction n arbitrary: w) auto

lemma bit_le_word: "bit (le_word bs :: 'a::len word) k \<longleftrightarrow>
    k < LENGTH('a) \<and> k div 8 < length bs \<and> bit (bs ! (k div 8)) (k mod 8)"
proof (induction bs arbitrary: k)
  case Nil
  then show ?case by simp
next
  case (Cons b bs)
  show ?case
  proof (cases "k < 8")
    case True
    then show ?thesis by (simp add: bit_simps)
  next
    case False
    then have "k div 8 = Suc ((k - 8) div 8)" and "k mod 8 = (k - 8) mod 8"
      by (simp_all add: le_div_geq le_mod_geq)
    then show ?thesis using False Cons.IH [of "k - 8"] by (auto simp: bit_simps dest: bit_imp_le_length)
  qed
qed

lemma nth_le_bytes: "i < n \<Longrightarrow> le_bytes n w ! i = ucast (drop_bit (8 * i) w)"
proof (induction n arbitrary: i w)
  case (Suc n)
  then show ?case by (cases i) (simp_all add: add.commute)
qed simp

lemma le_bytes_le_word:
  "8 * length bs \<le> LENGTH('a) \<Longrightarrow> le_bytes (length bs) (le_word bs :: 'a::len word) = bs"
proof (rule nth_equalityI)
  fix i assume l: "8 * length bs \<le> LENGTH('a)" and "i < length (le_bytes (length bs) (le_word bs :: 'a word))"
  then have i: "i < length bs" by simp
  show "le_bytes (length bs) (le_word bs :: 'a word) ! i = bs ! i"
  proof (rule bit_word_eqI)
    fix k assume "k < LENGTH(8)"
    moreover from this i l have "8 * i + k < LENGTH('a)" by simp
    ultimately show "bit (le_bytes (length bs) (le_word bs :: 'a word) ! i) k = bit (bs ! i) k"
      using i by (simp add: nth_le_bytes bit_simps bit_le_word)
  qed
qed simp

lemma le_word_le_bytes:
  "LENGTH('a) = 8 * n \<Longrightarrow> le_word (le_bytes n w) = (w :: 'a::len word)"
proof (rule bit_word_eqI)
  fix k assume n: "LENGTH('a) = 8 * n" and k: "k < LENGTH('a)"
  then have "k div 8 < n" by (simp add: less_mult_imp_div_less mult.commute)
  moreover have "8 * (k div 8) + k mod 8 = k" by simp
  ultimately show "bit (le_word (le_bytes n w) :: 'a word) k = bit w k"
    using k by (simp add: bit_le_word nth_le_bytes bit_simps)
qed

lemma le_word_xor:
  "length as = length bs \<Longrightarrow>
   (le_word as XOR le_word bs :: 'a::len word) = le_word (map2 (XOR) as bs)"
  by (rule bit_word_eqI) (auto simp: bit_le_word bit_xor_iff)

text \<open>Loads and stores of machine words at an offset of an object.\<close>

definition load_u16 :: "byte list \<Rightarrow> nat \<Rightarrow> u16 result" where
  "load_u16 obj off = chain (mem_read obj off 2) (\<lambda>bs. Inr (le_word bs))"

definition store_u16 :: "byte list \<Rightarrow> nat \<Rightarrow> u16 \<Rightarrow> byte list result" where
  "store_u16 obj off w = mem_write obj off (le_bytes 2 w)"

definition load_u32 :: "byte list \<Rightarrow> nat \<Rightarrow> u32 result" where
  "load_u32 obj off = chain (mem_read obj off 4) (\<lambda>bs. Inr (le_word bs))"

definition store_u32 :: "byte list \<Rightarrow> nat \<Rightarrow> u32 \<Rightarrow> byte list result" where
  "store_u32 obj off w = mem_write obj off (le_bytes 4 w)"

definition load_u8 :: "byte list \<Rightarrow> nat \<Rightarrow> byte result" where
  "load_u8 obj off = (if off < length obj then Inr (obj ! off) else Inl Out_Of_Bounds)"

definition store_u8 :: "byte list \<Rightarrow> nat \<Rightarrow> byte \<Rightarrow> byte list result" where
  "store_u8 obj off b = (if off < length obj then Inr (obj[off := b]) else Inl Out_Of_Bounds)"

lemma load_ok [mem_simps]:
  "off + 2 \<le> length obj \<Longrightarrow> load_u16 obj off = Inr (le_word (take 2 (drop off obj)))"
  "off + 4 \<le> length obj \<Longrightarrow> load_u32 obj off = Inr (le_word (take 4 (drop off obj)))"
  "off < length obj \<Longrightarrow> load_u8 obj off = Inr (obj ! off)"
  by (simp_all add: load_u16_def load_u32_def load_u8_def mem_simps)

lemma store_ok [mem_simps]:
  "off + 2 \<le> length obj \<Longrightarrow> store_u16 obj off w = Inr (overwrite obj off (le_bytes 2 w))"
  "off + 4 \<le> length obj \<Longrightarrow> store_u32 obj off v = Inr (overwrite obj off (le_bytes 4 v))"
  "off < length obj \<Longrightarrow> store_u8 obj off b = Inr (obj[off := b])"
  by (simp_all add: store_u16_def store_u32_def store_u8_def mem_simps)

lemma load_Inl:
  "load_u8 obj off = Inl e \<Longrightarrow> e = Out_Of_Bounds"
  "load_u16 obj off = Inl e \<Longrightarrow> e = Out_Of_Bounds"
  "load_u32 obj off = Inl e \<Longrightarrow> e = Out_Of_Bounds"
  by (auto simp: load_u8_def load_u16_def load_u32_def mem_read_def chain_def split: if_splits)

lemma store_Inl:
  "store_u8 obj off b = Inl e \<Longrightarrow> e = Out_Of_Bounds"
  "store_u16 obj off h = Inl e \<Longrightarrow> e = Out_Of_Bounds"
  "store_u32 obj off w = Inl e \<Longrightarrow> e = Out_Of_Bounds"
  by (auto simp: store_u8_def store_u16_def store_u32_def mem_write_def split: if_splits)

lemma store_Inr:
  "store_u8 obj off b = Inr obj' \<Longrightarrow> length obj' = length obj \<and> off + 1 \<le> length obj"
  "store_u16 obj off h = Inr obj' \<Longrightarrow> length obj' = length obj \<and> off + 2 \<le> length obj"
  "store_u32 obj off w = Inr obj' \<Longrightarrow> length obj' = length obj \<and> off + 4 \<le> length obj"
  by (auto simp: store_u8_def store_u16_def store_u32_def mem_write_def split: if_splits)

lemma load_fault:
  "length obj < off + 2 \<Longrightarrow> load_u16 obj off = Inl Out_Of_Bounds"
  "length obj < off + 4 \<Longrightarrow> load_u32 obj off = Inl Out_Of_Bounds"
  "length obj \<le> off \<Longrightarrow> load_u8 obj off = Inl Out_Of_Bounds"
  by (simp_all add: load_u16_def load_u32_def load_u8_def mem_read_def)

section \<open>Linear tables\<close>

text \<open>
  A table indexed by a word whose entry is the union of one constant per set bit of the index,
  the constant of the highest bit first.
\<close>

fun lin_table :: "'a::len word list \<Rightarrow> 'a word list" where
  "lin_table [] = [0]"
| "lin_table (b # bs) = (let t = lin_table bs in t @ map (\<lambda>x. b OR x) t)"

lemma length_lin_table [simp]: "length (lin_table bs) = 2 ^ length bs"
  by (induction bs) (simp_all add: Let_def)

lemma bit_lin_table:
  "i < 2 ^ length bs \<Longrightarrow>
   bit (lin_table bs ! i) n \<longleftrightarrow> (\<exists>k < length bs. bit i k \<and> bit (rev bs ! k) n)"
proof (induction bs arbitrary: i)
  case Nil
  then show ?case by simp
next
  case (Cons b bs)
  let ?m = "length bs"
  have ext: "(\<exists>k < Suc ?m. bit i k \<and> bit (rev (b # bs) ! k) n) \<longleftrightarrow>
      (bit i ?m \<and> bit b n) \<or> (\<exists>k < ?m. bit i k \<and> bit (rev bs ! k) n)"
  proof -
    have A: "rev (b # bs) ! ?m = b" and B: "\<And>k. k < ?m \<Longrightarrow> rev (b # bs) ! k = rev bs ! k"
      by (simp_all add: nth_append)
    show ?thesis unfolding less_Suc_eq using A B by metis
  qed
  show ?case
  proof (cases "i < 2 ^ ?m")
    case True
    then have "\<not> bit i ?m" by (simp add: bit_nat_def)
    then show ?thesis using True Cons.IH [OF True] ext by (simp add: Let_def nth_append)
  next
    case False
    define j where "j = i - 2 ^ ?m"
    have i: "i = 2 ^ ?m + j" and j: "j < 2 ^ ?m" using False Cons.prems by (simp_all add: j_def)
    have "i div 2 ^ ?m = 1" using j unfolding i by (subst div_add_self1) simp_all
    then have m: "bit i ?m" by (simp add: bit_nat_def)
    have k: "bit i k \<longleftrightarrow> bit j k" if "k < ?m" for k
    proof -
      have "i = 2 ^ k * 2 ^ (?m - k) + j" using that by (simp add: i flip: power_add)
      then have "i div 2 ^ k = 2 ^ (?m - k) + j div 2 ^ k" by simp
      then show ?thesis using that by (simp add: bit_nat_def)
    qed
    have "bit (lin_table (b # bs) ! i) n \<longleftrightarrow> bit b n \<or> bit (lin_table bs ! j) n"
      using False j by (simp add: Let_def nth_append bit_or_iff flip: j_def)
    also have "\<dots> \<longleftrightarrow> bit b n \<or> (\<exists>k < ?m. bit i k \<and> bit (rev bs ! k) n)"
      using Cons.IH [OF j] k by auto
    finally show ?thesis using m ext by simp
  qed
qed

end
