(* ===== verification/Fifo.thy ===== *)
theory Fifo
  imports Prelude
begin

text \<open>
  The contract the bounded FIFOs of LeoNet share, and what follows from it for any
  sequence of calls. A session holds two rings of bytes and two queues of message pointers;
  all four are used through one of the two interfaces here: \<open>fifo\<close> moves one element at
  a time, \<open>pipe\<close> a block of elements.
\<close>

section \<open>Runs of calls\<close>

datatype 'a fifo_call = Enq 'a | Deq

text \<open>A run returns the elements the calls accepted, those they delivered, and the last state.\<close>

fun fifo_run ::
  "('q \<Rightarrow> 'a \<Rightarrow> bool \<times> 'q) \<Rightarrow> ('q \<Rightarrow> 'a option \<times> 'q) \<Rightarrow> 'q \<Rightarrow> 'a fifo_call list \<Rightarrow> 'a list \<times> 'a list \<times> 'q"
where
  "fifo_run enq deq q [] = ([], [], q)"
| "fifo_run enq deq q (Enq x # cs) =
     (let (ok, q1) = enq q x; (ins, outs, q2) = fifo_run enq deq q1 cs
      in (if ok then x # ins else ins, outs, q2))"
| "fifo_run enq deq q (Deq # cs) =
     (let (r, q1) = deq q; (ins, outs, q2) = fifo_run enq deq q1 cs
      in (ins, case r of None \<Rightarrow> outs | Some x \<Rightarrow> x # outs, q2))"

datatype 'a pipe_call = Put "'a list" | Get nat

fun pipe_run ::
  "('q \<Rightarrow> 'a list \<Rightarrow> nat \<times> 'q) \<Rightarrow> ('q \<Rightarrow> nat \<Rightarrow> 'a list \<times> 'q) \<Rightarrow> 'q \<Rightarrow> 'a pipe_call list \<Rightarrow> 'a list \<times> 'a list \<times> 'q"
where
  "pipe_run put get q [] = ([], [], q)"
| "pipe_run put get q (Put bs # cs) =
     (let (n, q1) = put q bs; (ins, outs, q2) = pipe_run put get q1 cs
      in (take n bs @ ins, outs, q2))"
| "pipe_run put get q (Get n # cs) =
     (let (bs, q1) = get q n; (ins, outs, q2) = pipe_run put get q1 cs
      in (ins, bs @ outs, q2))"

fun call_size :: "'a pipe_call \<Rightarrow> nat" where
  "call_size (Put bs) = length bs"
| "call_size (Get n) = n"

section \<open>One element at a time\<close>

locale fifo =
  fixes wf :: "'q \<Rightarrow> bool"
    and contents :: "'q \<Rightarrow> 'a list"
    and capacity :: "'q \<Rightarrow> nat"
    and enq :: "'q \<Rightarrow> 'a \<Rightarrow> bool \<times> 'q"
    and deq :: "'q \<Rightarrow> 'a option \<times> 'q"
  assumes bounded: "wf q \<Longrightarrow> length (contents q) \<le> capacity q"
    and enq_full: "wf q \<Longrightarrow> length (contents q) = capacity q \<Longrightarrow> enq q x = (False, q)"
    and enq_room: "wf q \<Longrightarrow> length (contents q) < capacity q \<Longrightarrow>
      fst (enq q x) \<and> contents (snd (enq q x)) = contents q @ [x]"
    and enq_wf: "wf q \<Longrightarrow> wf (snd (enq q x))"
    and enq_capacity: "wf q \<Longrightarrow> capacity (snd (enq q x)) = capacity q"
    and deq_empty: "wf q \<Longrightarrow> contents q = [] \<Longrightarrow> deq q = (None, q)"
    and deq_first: "wf q \<Longrightarrow> contents q = x # xs \<Longrightarrow>
      fst (deq q) = Some x \<and> contents (snd (deq q)) = xs"
    and deq_wf: "wf q \<Longrightarrow> wf (snd (deq q))"
    and deq_capacity: "wf q \<Longrightarrow> capacity (snd (deq q)) = capacity q"
begin

lemma enq_cases:
  assumes "wf q"
  obtains (full) "length (contents q) = capacity q" "enq q x = (False, q)"
  | (room) q' where "length (contents q) < capacity q" "enq q x = (True, q')"
      "contents q' = contents q @ [x]" "wf q'" "capacity q' = capacity q"
proof (cases "length (contents q) = capacity q")
  case True
  with assms that(1) show ?thesis by (simp add: enq_full)
next
  case False
  with assms bounded [of q] have lt: "length (contents q) < capacity q" by simp
  obtain ok q' where e: "enq q x = (ok, q')" by (cases "enq q x")
  with assms lt enq_room [of q x] enq_wf [of q x] enq_capacity [of q x] that(2) show ?thesis by auto
qed

lemma deq_cases:
  assumes "wf q"
  obtains (empty) "contents q = []" "deq q = (None, q)"
  | (first) x q' where "contents q = x # contents q'" "deq q = (Some x, q')" "wf q'"
      "capacity q' = capacity q"
proof (cases "contents q")
  case Nil
  with assms that(1) show ?thesis by (simp add: deq_empty)
next
  case (Cons x xs)
  obtain r q' where e: "deq q = (r, q')" by (cases "deq q")
  with assms Cons deq_first [of q x xs] deq_wf [of q] deq_capacity [of q] that(2) show ?thesis by auto
qed

lemma run_conserves:
  assumes "wf q" and "fifo_run enq deq q cs = (ins, outs, q')"
  shows "wf q'" and "capacity q' = capacity q" and "contents q @ ins = outs @ contents q'"
proof -
  have "wf q' \<and> capacity q' = capacity q \<and> contents q @ ins = outs @ contents q'"
    using assms
  proof (induction cs arbitrary: q ins outs q')
    case Nil
    then show ?case by simp
  next
    case (Cons c cs)
    show ?case
    proof (cases c)
      case (Enq x)
      from Cons.prems(1) show ?thesis
      proof (cases rule: enq_cases [where x = x])
        case full
        with Cons Enq show ?thesis by (auto split: prod.splits)
      next
        case (room q1)
        obtain ins1 outs1 q2 where r: "fifo_run enq deq q1 cs = (ins1, outs1, q2)"
          by (cases "fifo_run enq deq q1 cs")
        from Cons.IH [OF room(4) r] room r Cons.prems Enq show ?thesis by simp
      qed
    next
      case Deq
      from Cons.prems(1) show ?thesis
      proof (cases rule: deq_cases)
        case empty
        obtain ins1 outs1 q2 where r: "fifo_run enq deq q cs = (ins1, outs1, q2)"
          by (cases "fifo_run enq deq q cs")
        from Cons.IH [OF Cons.prems(1) r] empty r Cons.prems Deq show ?thesis by auto
      next
        case (first x q1)
        obtain ins1 outs1 q2 where r: "fifo_run enq deq q1 cs = (ins1, outs1, q2)"
          by (cases "fifo_run enq deq q1 cs")
        from Cons.IH [OF first(3) r] first r Cons.prems Deq show ?thesis by auto
      qed
    qed
  qed
  then show "wf q'" and "capacity q' = capacity q" and "contents q @ ins = outs @ contents q'"
    by simp_all
qed

lemma run_from_empty:
  assumes "wf q" and "contents q = []" and "fifo_run enq deq q cs = (ins, outs, q')"
  shows "ins = outs @ contents q'" and "length ins \<le> length outs + capacity q"
  using run_conserves [OF assms(1,3)] assms(2) bounded [of q'] by auto

end

section \<open>A block at a time\<close>

text \<open>A transfer count is a machine integer, so the laws are about blocks shorter than \<open>limit\<close>.\<close>

locale pipe =
  fixes wf :: "'q \<Rightarrow> bool"
    and contents :: "'q \<Rightarrow> 'a list"
    and capacity :: "'q \<Rightarrow> nat"
    and limit :: nat
    and put :: "'q \<Rightarrow> 'a list \<Rightarrow> nat \<times> 'q"
    and get :: "'q \<Rightarrow> nat \<Rightarrow> 'a list \<times> 'q"
  assumes limit: "1 < limit"
    and pipe_bounded: "wf q \<Longrightarrow> length (contents q) \<le> capacity q"
    and put_law: "wf q \<Longrightarrow> length bs < limit \<Longrightarrow>
      fst (put q bs) = min (length bs) (capacity q - length (contents q)) \<and>
      contents (snd (put q bs)) = contents q @ take (fst (put q bs)) bs \<and>
      wf (snd (put q bs)) \<and> capacity (snd (put q bs)) = capacity q"
    and put_nothing: "wf q \<Longrightarrow> length bs < limit \<Longrightarrow> fst (put q bs) = 0 \<Longrightarrow> snd (put q bs) = q"
    and get_law: "wf q \<Longrightarrow> n < limit \<Longrightarrow>
      fst (get q n) = take n (contents q) \<and> contents (snd (get q n)) = drop n (contents q) \<and>
      wf (snd (get q n)) \<and> capacity (snd (get q n)) = capacity q"
    and get_nothing: "wf q \<Longrightarrow> n < limit \<Longrightarrow> fst (get q n) = [] \<Longrightarrow> snd (get q n) = q"
begin

lemma pipe_run_conserves:
  assumes "wf q" and "\<forall>c \<in> set cs. call_size c < limit" and "pipe_run put get q cs = (ins, outs, q')"
  shows "wf q' \<and> capacity q' = capacity q \<and> contents q @ ins = outs @ contents q'"
  using assms
proof (induction cs arbitrary: q ins outs q')
  case Nil
  then show ?case by simp
next
  case (Cons c cs)
  then have small: "\<forall>c \<in> set cs. call_size c < limit" by simp
  show ?case
  proof (cases c)
    case (Put bs)
    obtain n q1 where p: "put q bs = (n, q1)" by (cases "put q bs")
    obtain ins1 outs1 q2 where r: "pipe_run put get q1 cs = (ins1, outs1, q2)"
      by (cases "pipe_run put get q1 cs")
    from Cons.prems Put have "length bs < limit" by simp
    with put_law [OF Cons.prems(1) this] p
    have q1: "wf q1" "capacity q1 = capacity q" "contents q1 = contents q @ take n bs" by auto
    from Cons.IH [OF q1(1) small r] Cons.prems q1 Put p r show ?thesis by auto
  next
    case (Get n)
    obtain bs q1 where g: "get q n = (bs, q1)" by (cases "get q n")
    obtain ins1 outs1 q2 where r: "pipe_run put get q1 cs = (ins1, outs1, q2)"
      by (cases "pipe_run put get q1 cs")
    from Cons.prems Get have "n < limit" by simp
    with get_law [OF Cons.prems(1) this] g
    have q1: "wf q1" "capacity q1 = capacity q" "bs = take n (contents q)" "contents q1 = drop n (contents q)"
      by auto
    have "contents q = bs @ contents q1" by (simp add: q1)
    with Cons.IH [OF q1(1) small r] Cons.prems q1(1,2) Get g r show ?thesis by auto
  qed
qed

end

text \<open>Blocks of one element make a pipe a FIFO.\<close>

sublocale pipe \<subseteq> one: fifo wf contents capacity
    "\<lambda>q x. (let (n, q') = put q [x] in (n = 1, q'))"
    "\<lambda>q. (let (bs, q') = get q 1 in (case bs of [] \<Rightarrow> None | x # _ \<Rightarrow> Some x, q'))"
proof (unfold_locales, goal_cases)
  case (1 q) then show ?case by (rule pipe_bounded)
next
  case (2 q x)
  then show ?case using put_law [of q "[x]"] put_nothing [of q "[x]"] limit by (auto split: prod.splits)
next
  case (3 q x)
  then show ?case using put_law [of q "[x]"] limit by (auto split: prod.splits)
next
  case (4 q x)
  then show ?case using put_law [of q "[x]"] limit by (auto split: prod.splits)
next
  case (5 q x)
  then show ?case using put_law [of q "[x]"] limit by (auto split: prod.splits)
next
  case (6 q)
  then show ?case using get_law [of q 1] get_nothing [of q 1] limit by (auto split: prod.splits)
next
  case (7 q x xs)
  then show ?case using get_law [of q 1] limit by (auto split: prod.splits)
next
  case (8 q)
  then show ?case using get_law [of q 1] limit by (auto split: prod.splits)
next
  case (9 q)
  then show ?case using get_law [of q 1] limit by (auto split: prod.splits)
qed

end
