(* ===== verification/Registry.thy ===== *)
theory Registry
  imports Main
begin

text \<open>
  The contract of a table of owners: a key is looked up, inserted when it is absent and removed
  when it is present. The session manager meets it with its map from sockets to sessions.
\<close>

datatype ('k, 'v) reg_call = Insert 'k 'v | Remove 'k

fun reg_key :: "('k, 'v) reg_call \<Rightarrow> 'k" where
  "reg_key (Insert k v) = k"
| "reg_key (Remove k) = k"

text \<open>A run returns the results of the calls and the last state.\<close>

fun reg_run :: "('s \<Rightarrow> 'k \<Rightarrow> 'v \<Rightarrow> bool \<times> 's) \<Rightarrow> ('s \<Rightarrow> 'k \<Rightarrow> bool \<times> 's) \<Rightarrow> 's \<Rightarrow> ('k, 'v) reg_call list \<Rightarrow> bool list \<times> 's" where
  "reg_run ins rem s [] = ([], s)"
| "reg_run ins rem s (Insert k v # cs) =
     (let (ok, s1) = ins s k v; (oks, s2) = reg_run ins rem s1 cs in (ok # oks, s2))"
| "reg_run ins rem s (Remove k # cs) =
     (let (ok, s1) = rem s k; (oks, s2) = reg_run ins rem s1 cs in (ok # oks, s2))"

text \<open>The reference: what a run does to a map.\<close>

fun map_run :: "('k \<rightharpoonup> 'v) \<Rightarrow> ('k, 'v) reg_call list \<Rightarrow> bool list \<times> ('k \<rightharpoonup> 'v)" where
  "map_run m [] = ([], m)"
| "map_run m (Insert k v # cs) =
     (let (oks, m') = map_run (if m k = None then m(k \<mapsto> v) else m) cs in ((m k = None) # oks, m'))"
| "map_run m (Remove k # cs) =
     (let (oks, m') = map_run (m(k := None)) cs in ((m k \<noteq> None) # oks, m'))"

locale registry =
  fixes valid :: "'k \<Rightarrow> bool"
    and lookup :: "'s \<Rightarrow> 'k \<Rightarrow> 'v option"
    and insert_key :: "'s \<Rightarrow> 'k \<Rightarrow> 'v \<Rightarrow> bool \<times> 's"
    and remove_key :: "'s \<Rightarrow> 'k \<Rightarrow> bool \<times> 's"
  assumes insert_result: "valid k \<Longrightarrow> fst (insert_key s k v) = (lookup s k = None)"
    and insert_lookup: "valid k \<Longrightarrow> lookup (snd (insert_key s k v)) =
      (if lookup s k = None then (lookup s)(k \<mapsto> v) else lookup s)"
    and remove_result: "valid k \<Longrightarrow> fst (remove_key s k) = (lookup s k \<noteq> None)"
    and remove_lookup: "valid k \<Longrightarrow> lookup (snd (remove_key s k)) = (lookup s)(k := None)"
begin

lemma run_refines_map:
  "\<forall>c \<in> set cs. valid (reg_key c) \<Longrightarrow> reg_run insert_key remove_key s cs = (oks, s') \<Longrightarrow>
   map_run (lookup s) cs = (oks, lookup s')"
proof (induction cs arbitrary: s oks s')
  case Nil
  then show ?case by simp
next
  case (Cons c cs)
  then have rest: "\<forall>c \<in> set cs. valid (reg_key c)" by simp
  show ?case
  proof (cases c)
    case (Insert k v)
    obtain ok s1 where i: "insert_key s k v = (ok, s1)" by (cases "insert_key s k v")
    obtain oks1 s2 where r: "reg_run insert_key remove_key s1 cs = (oks1, s2)"
      by (cases "reg_run insert_key remove_key s1 cs")
    have "valid k" using Cons.prems Insert by simp
    from insert_result [OF this, of s v] insert_lookup [OF this, of s v] Cons.IH [OF rest r] Cons.prems(2)
    show ?thesis by (auto simp: Insert i r)
  next
    case (Remove k)
    obtain ok s1 where i: "remove_key s k = (ok, s1)" by (cases "remove_key s k")
    obtain oks1 s2 where r: "reg_run insert_key remove_key s1 cs = (oks1, s2)"
      by (cases "reg_run insert_key remove_key s1 cs")
    have "valid k" using Cons.prems Remove by simp
    then have ok: "ok = (lookup s k \<noteq> None)" and l: "lookup s1 = (lookup s)(k := None)"
      using remove_result [of k s] remove_lookup [of k s] i by simp_all
    have "map_run ((lookup s)(k := None)) cs = (oks1, lookup s2)"
      using Cons.IH [OF rest r] by (simp only: l)
    moreover have "oks = ok # oks1" "s' = s2" using Cons.prems(2) by (simp_all add: Remove i r)
    ultimately show ?thesis by (simp only: Remove map_run.simps Let_def prod.case ok)
  qed
qed

lemma first_insert_wins:
  assumes "valid k" and "lookup s k = None"
  shows "lookup (snd (insert_key (snd (insert_key s k v)) k v')) k = Some v"
  using assms by (simp add: insert_lookup)

end

end
