(* ===== verification/Ring_Buffer.thy ===== *)
theory Ring_Buffer
  imports Fifo
begin

text \<open>
  The byte FIFO of \<open>src/ring_buffer.h\<close> and \<open>src/ring_buffer.cpp\<close>: a power-of-two
  array with two free-running 32-bit indices that are masked only when the array is
  touched. The theory holds the class and all its operations, the invariant, the list of
  bytes a buffer holds and what each operation does to that list. The memory barriers of
  the code have no effect in a sequential run and have no counterpart here.
\<close>

section \<open>The class and its operations\<close>

record ring_buffer =
  rb_size :: u32          \<comment> \<open>\<open>__buffer_size\<close>, an \<open>int\<close> the code converts to \<open>unsigned\<close>\<close>
  rb_bytes :: "byte list" \<comment> \<open>the array \<open>__ring_buffer\<close> points to\<close>
  rb_write :: u32         \<comment> \<open>\<open>__write_p\<close>\<close>
  rb_read :: u32          \<comment> \<open>\<open>__read_p\<close>\<close>

text \<open>
  The constructor allocates before it asserts. The bytes of \<open>new char[n]\<close> are
  indeterminate: the argument \<open>fresh\<close> gives them. A negative size makes \<open>new\<close> throw.
\<close>

definition ring_buffer_new :: "(nat \<Rightarrow> byte) \<Rightarrow> u32 \<Rightarrow> ring_buffer result" where
  "ring_buffer_new fresh buf_size =
     (if sint buf_size < 0 then Inl Bad_Alloc
      else if \<not> is_power_of_2 buf_size then Inl Assert_Failed
      else Inr \<lparr>rb_size = buf_size, rb_bytes = map fresh [0..<unat buf_size],
                rb_write = 0, rb_read = 0\<rparr>)"

text \<open>The destructor frees the bytes: the array the ring is left with has none.\<close>

definition ring_buffer_delete :: "ring_buffer \<Rightarrow> ring_buffer" where
  "ring_buffer_delete rb = rb\<lparr>rb_bytes := []\<rparr>"

definition clear :: "ring_buffer \<Rightarrow> ring_buffer" where
  "clear rb = rb\<lparr>rb_write := 0, rb_read := 0\<rparr>"

definition available :: "ring_buffer \<Rightarrow> u32" where
  "available rb = rb_size rb - (rb_write rb - rb_read rb)"

definition used :: "ring_buffer \<Rightarrow> u32" where
  "used rb = rb_write rb - rb_read rb"

definition rb_empty :: "ring_buffer \<Rightarrow> bool" where
  "rb_empty rb \<longleftrightarrow> used rb = 0"

definition rb_full :: "ring_buffer \<Rightarrow> bool" where
  "rb_full rb \<longleftrightarrow> rb_size rb = used rb"

text \<open>The pointers \<open>write_p()\<close> and \<open>read_p()\<close>, as offsets into the array.\<close>

definition write_p :: "ring_buffer \<Rightarrow> nat" where
  "write_p rb = unat (rb_write rb AND (rb_size rb - 1))"

definition read_p :: "ring_buffer \<Rightarrow> nat" where
  "read_p rb = unat (rb_read rb AND (rb_size rb - 1))"

definition u_max :: "u32 \<Rightarrow> u32 \<Rightarrow> u32" where
  "u_max a b = (if b < a then a else b)"

definition u_min :: "u32 \<Rightarrow> u32 \<Rightarrow> u32" where
  "u_min a b = (if a < b then a else b)"

text \<open>
  The two copies every transfer makes: from the array (\<open>copy_out\<close>) and into it
  (\<open>copy_in\<close>), first up to the end of the array, then from its beginning. The caller's
  buffer is a byte list, so a transfer that overruns it is a fault.
\<close>

definition copy_out :: "ring_buffer \<Rightarrow> byte list \<Rightarrow> u32 \<Rightarrow> byte list result" where
  "copy_out rb buffer len =
     (let iLen = u_min len (rb_size rb - (rb_read rb AND (rb_size rb - 1))) in
      chain (memcpy buffer 0 (rb_bytes rb) (unat (rb_read rb AND (rb_size rb - 1))) (unat iLen))
        (\<lambda>buffer'. memcpy buffer' (unat iLen) (rb_bytes rb) 0 (unat (len - iLen))))"

definition copy_in :: "ring_buffer \<Rightarrow> byte list \<Rightarrow> u32 \<Rightarrow> byte list result" where
  "copy_in rb buffer len =
     (let iLen = u_min len (rb_size rb - (rb_write rb AND (rb_size rb - 1))) in
      chain (memcpy (rb_bytes rb) (unat (rb_write rb AND (rb_size rb - 1))) buffer 0 (unat iLen))
        (\<lambda>ring'. memcpy ring' 0 buffer (unat iLen) (unat (len - iLen))))"

text \<open>Each operation returns the code's result, the caller's buffer where the code fills it, and the object.\<close>

definition peek_read :: "ring_buffer \<Rightarrow> byte list \<Rightarrow> u32 \<Rightarrow> (u32 \<times> byte list) result" where
  "peek_read rb buffer len =
     (if rb_empty rb \<or> used rb < len then Inr (0, buffer)
      else let len' = u_min len (rb_write rb - rb_read rb) in
        chain (copy_out rb buffer len') (\<lambda>buffer'. Inr (len', buffer')))"

definition seek_read :: "ring_buffer \<Rightarrow> u32 \<Rightarrow> bool \<times> ring_buffer" where
  "seek_read rb len =
     (if used rb < len then (False, rb) else (True, rb\<lparr>rb_read := rb_read rb + len\<rparr>))"

definition peek_write :: "ring_buffer \<Rightarrow> byte list \<Rightarrow> u32 \<Rightarrow> (u32 \<times> ring_buffer) result" where
  "peek_write rb buffer len =
     (if len = 0 \<or> available rb < len then Inr (0, rb)
      else let len' = u_min len (rb_size rb - rb_write rb + rb_read rb) in
        chain (copy_in rb buffer len') (\<lambda>ring'. Inr (len', rb\<lparr>rb_bytes := ring'\<rparr>)))"

definition seek_write :: "ring_buffer \<Rightarrow> u32 \<Rightarrow> bool \<times> ring_buffer" where
  "seek_write rb len =
     (if available rb < len then (False, rb) else (True, rb\<lparr>rb_write := rb_write rb + len\<rparr>))"

definition kfifo_get :: "ring_buffer \<Rightarrow> byte list \<Rightarrow> u32 \<Rightarrow> (u32 \<times> byte list \<times> ring_buffer) result" where
  "kfifo_get rb buffer len =
     (if rb_empty rb then Inr (0, buffer, rb)
      else let len' = u_min len (rb_write rb - rb_read rb) in
        chain (copy_out rb buffer len')
          (\<lambda>buffer'. Inr (len', buffer', rb\<lparr>rb_read := rb_read rb + len'\<rparr>)))"

definition kfifo_put :: "ring_buffer \<Rightarrow> byte list \<Rightarrow> u32 \<Rightarrow> (u32 \<times> ring_buffer) result" where
  "kfifo_put rb buffer len =
     (if len = 0 then Inr (0, rb)
      else let len' = u_min len (rb_size rb - rb_write rb + rb_read rb) in
        chain (copy_in rb buffer len')
          (\<lambda>ring'. Inr (len', rb\<lparr>rb_bytes := ring', rb_write := rb_write rb + len'\<rparr>)))"

section \<open>Invariant and contents\<close>

definition rb_wf :: "ring_buffer \<Rightarrow> bool" where
  "rb_wf rb \<longleftrightarrow> is_power_of_2 (rb_size rb) \<and> length (rb_bytes rb) = unat (rb_size rb) \<and>
     used rb \<le> rb_size rb"

definition rb_contents :: "ring_buffer \<Rightarrow> byte list" where
  "rb_contents rb = ring_slice (rb_bytes rb) (unat (rb_read rb)) (unat (used rb))"

definition rb_capacity :: "ring_buffer \<Rightarrow> nat" where
  "rb_capacity rb = unat (rb_size rb)"

lemma length_rb_contents [simp]: "length (rb_contents rb) = unat (used rb)"
  by (simp add: rb_contents_def)

lemma rb_wf_pos: "rb_wf rb \<Longrightarrow> 0 < unat (rb_size rb)"
  by (simp add: rb_wf_def power_of_2_pos)

lemma rb_wf_used_le: "rb_wf rb \<Longrightarrow> unat (used rb) \<le> unat (rb_size rb)"
  by (simp add: rb_wf_def word_le_nat_alt)

lemma rb_wf_length: "rb_wf rb \<Longrightarrow> length (rb_bytes rb) = unat (rb_size rb)"
  by (simp add: rb_wf_def)

lemma unat_available: "rb_wf rb \<Longrightarrow> unat (available rb) = unat (rb_size rb) - unat (used rb)"
  by (simp add: rb_wf_def available_def used_def unat_sub)

lemma free_space_eq: "rb_size rb - rb_write rb + rb_read rb = available rb"
  by (simp add: available_def)

lemma write_p_eq: "rb_wf rb \<Longrightarrow> write_p rb = unat (rb_write rb) mod unat (rb_size rb)"
  by (simp add: write_p_def rb_wf_def unat_and_mask_mod)

lemma read_p_eq: "rb_wf rb \<Longrightarrow> read_p rb = unat (rb_read rb) mod unat (rb_size rb)"
  by (simp add: read_p_def rb_wf_def unat_and_mask_mod)

lemma write_p_less: "rb_wf rb \<Longrightarrow> write_p rb < unat (rb_size rb)"
  using rb_wf_pos [of rb] by (simp add: write_p_eq)

lemma read_p_less: "rb_wf rb \<Longrightarrow> read_p rb < unat (rb_size rb)"
  using rb_wf_pos [of rb] by (simp add: read_p_eq)

lemma unat_u_min: "unat (u_min a b) = min (unat a) (unat b)"
  by (auto simp: u_min_def word_less_nat_alt)

text \<open>The distance to the end of the array, where every transfer is cut in two.\<close>

lemma unat_to_end:
  assumes "is_power_of_2 n"
  shows "unat (n - (x AND (n - 1))) = unat n - unat (x AND (n - 1))"
proof -
  have "unat (x AND (n - 1)) < unat n"
    using assms by (simp add: unat_and_mask_mod power_of_2_pos)
  then have "x AND (n - 1) \<le> n" by (simp add: word_le_nat_alt)
  then show ?thesis by (simp add: unat_sub)
qed

text \<open>The write index, seen from the read index, is where the next byte of the contents goes.\<close>

lemma write_p_from_read:
  "rb_wf rb \<Longrightarrow> write_p rb = (unat (rb_read rb) + unat (used rb)) mod unat (rb_size rb)"
proof -
  assume wf: "rb_wf rb"
  then have p: "is_power_of_2 (rb_size rb)" by (simp add: rb_wf_def)
  have "rb_write rb = rb_read rb + used rb" by (simp add: used_def)
  then show ?thesis
    using wf unat_add_mod_power_of_2 [OF p, of "rb_read rb" "used rb"] by (simp add: write_p_eq)
qed

section \<open>The copies\<close>

lemma copy_out_ok:
  assumes wf: "rb_wf rb" and len: "unat len \<le> unat (used rb)" "unat len \<le> length buffer"
  shows "copy_out rb buffer len = Inr (overwrite buffer 0 (take (unat len) (rb_contents rb)))"
proof -
  let ?xs = "rb_bytes rb" and ?r = "read_p rb" and ?n = "unat len"
  let ?k = "min ?n (length ?xs - ?r)"
  have p: "is_power_of_2 (rb_size rb)" and N: "length ?xs = unat (rb_size rb)"
    using wf by (auto simp: rb_wf_def)
  have r: "?r < length ?xs" and n: "?n \<le> length ?xs"
    using wf len rb_wf_used_le [OF wf] by (auto simp: N read_p_less)
  have r_def: "unat (rb_read rb AND (rb_size rb - 1)) = ?r" by (simp add: read_p_def)
  define i where "i = u_min len (rb_size rb - (rb_read rb AND (rb_size rb - 1)))"
  have ik: "unat i = ?k" by (simp add: i_def unat_u_min unat_to_end [OF p] r_def N)
  have "i \<le> len" by (simp add: word_le_nat_alt ik)
  then have li: "unat (len - i) = ?n - ?k" by (simp add: unat_sub ik)
  let ?a = "take ?k (drop ?r ?xs)" and ?b = "take (?n - ?k) ?xs"
  have la: "length ?a = ?k" and lb: "length ?b = ?n - ?k" using r n by auto
  have "copy_out rb buffer len = Inr (overwrite (overwrite buffer 0 ?a) ?k ?b)"
    using r n len unfolding copy_out_def i_def [symmetric] Let_def r_def ik li
    by (simp add: mem_simps)
  also have "overwrite (overwrite buffer 0 ?a) ?k ?b = overwrite buffer 0 (?a @ ?b)"
    using overwrite_append [of ?a ?b buffer 0] la lb len by simp
  also have "?a @ ?b = ring_slice ?xs ?r ?n" by (rule ring_slice_two_pieces [OF r n])
  also have "\<dots> = take ?n (rb_contents rb)"
    using len wf ring_slice_mod [of ?xs "unat (rb_read rb)" ?n]
    by (simp add: rb_contents_def take_ring_slice read_p_eq N min_absorb1)
  finally show ?thesis .
qed

lemma copy_in_ok:
  assumes wf: "rb_wf rb" and len: "unat len \<le> unat (rb_size rb)" "unat len \<le> length buffer"
  shows "copy_in rb buffer len = Inr (ring_store (rb_bytes rb) (write_p rb) (take (unat len) buffer))"
proof -
  let ?xs = "rb_bytes rb" and ?w = "write_p rb" and ?n = "unat len"
  let ?k = "min ?n (length ?xs - ?w)"
  have p: "is_power_of_2 (rb_size rb)" and N: "length ?xs = unat (rb_size rb)"
    using wf by (auto simp: rb_wf_def)
  have w: "?w < length ?xs" and n: "?n \<le> length ?xs"
    using wf len by (auto simp: N write_p_less)
  have w_def: "unat (rb_write rb AND (rb_size rb - 1)) = ?w" by (simp add: write_p_def)
  define i where "i = u_min len (rb_size rb - (rb_write rb AND (rb_size rb - 1)))"
  have ik: "unat i = ?k" by (simp add: i_def unat_u_min unat_to_end [OF p] w_def N)
  have "i \<le> len" by (simp add: word_le_nat_alt ik)
  then have li: "unat (len - i) = ?n - ?k" by (simp add: unat_sub ik)
  have tk: "take ?k (take ?n buffer) = take ?k buffer" by (simp add: min_def)
  have "copy_in rb buffer len =
      Inr (overwrite (overwrite ?xs ?w (take ?k buffer)) 0 (take (?n - ?k) (drop ?k buffer)))"
    using w n len unfolding copy_in_def i_def [symmetric] Let_def w_def ik li
    by (simp add: mem_simps)
  also have "take (?n - ?k) (drop ?k buffer) = drop ?k (take ?n buffer)" by (simp add: drop_take)
  finally show ?thesis using len(2) by (simp add: ring_store_def Let_def tk min_absorb2)
qed

section \<open>What a transfer does to the contents\<close>

lemma used_after_write:
  assumes wf: "rb_wf rb" and n: "n \<le> unat (available rb)"
  shows "unat (rb_write rb + of_nat n - rb_read rb) = unat (used rb) + n"
proof -
  have b: "unat (used rb) + n \<le> unat (rb_size rb)"
    using n rb_wf_used_le [OF wf] by (simp add: unat_available [OF wf])
  also have "\<dots> < 2 ^ 32" using unsigned_less [of "rb_size rb", where ?'a = nat] by simp
  finally have lt: "unat (used rb) + n < 2 ^ 32" .
  have eq: "rb_write rb + of_nat n - rb_read rb = of_nat (unat (used rb) + n)"
    by (simp add: used_def)
  show ?thesis unfolding eq unat_of_nat using lt by simp
qed

lemma rb_append_bytes:
  assumes wf: "rb_wf rb" and n: "length bs \<le> unat (available rb)"
    and rb': "rb' = rb\<lparr>rb_bytes := ring_store (rb_bytes rb) (write_p rb) bs,
                       rb_write := rb_write rb + of_nat (length bs)\<rparr>"
  shows "rb_wf rb'" and "rb_contents rb' = rb_contents rb @ bs"
proof -
  let ?N = "unat (rb_size rb)"
  have N: "length (rb_bytes rb) = ?N" "0 < ?N" by (simp_all add: wf rb_wf_length rb_wf_pos)
  have u: "unat (used rb') = unat (used rb) + length bs"
    using used_after_write [OF wf n] by (simp add: rb' used_def)
  have le: "unat (used rb) + length bs \<le> ?N"
    using n rb_wf_used_le [OF wf] by (simp add: unat_available [OF wf])
  have w: "write_p rb < length (rb_bytes rb)" using write_p_less [OF wf] N by simp
  have l': "length (rb_bytes rb') = ?N" using w le N by (simp add: rb')
  show "rb_wf rb'"
    using wf l' u le by (simp add: rb_wf_def word_le_nat_alt) (simp add: rb')
  have "rb_contents rb' = ring_slice (rb_bytes rb') (unat (rb_read rb)) (unat (used rb)) @
      ring_slice (rb_bytes rb') (unat (rb_read rb) + unat (used rb)) (length bs)"
    by (simp add: rb_contents_def u flip: ring_slice_append) (simp add: rb')
  also have "ring_slice (rb_bytes rb') (unat (rb_read rb)) (unat (used rb)) = rb_contents rb"
    using ring_slice_store_other [of "unat (used rb)" bs "rb_bytes rb" "unat (rb_read rb)"] le N
    by (simp add: rb' write_p_from_read [OF wf] rb_contents_def)
  also have "ring_slice (rb_bytes rb') (unat (rb_read rb) + unat (used rb)) (length bs) =
      ring_slice (rb_bytes rb') (write_p rb) (length bs)"
    using ring_slice_mod [of "rb_bytes rb'"] l' by (simp add: write_p_from_read [OF wf])
  also have "\<dots> = bs"
    using ring_slice_store_same [OF w, of bs] le N by (simp add: rb')
  finally show "rb_contents rb' = rb_contents rb @ bs" .
qed

lemma rb_drop_bytes:
  assumes wf: "rb_wf rb" and n: "n \<le> unat (used rb)"
    and rb': "rb' = rb\<lparr>rb_read := rb_read rb + of_nat n\<rparr>"
  shows "rb_wf rb'" and "rb_contents rb' = drop n (rb_contents rb)"
proof -
  let ?N = "unat (rb_size rb)"
  have p: "is_power_of_2 (rb_size rb)" and l: "length (rb_bytes rb) = ?N"
    using wf by (auto simp: rb_wf_def)
  have "n < 2 ^ 32" using n unsigned_less [of "used rb", where ?'a = nat] by simp
  then have un: "unat (of_nat n :: u32) = n" by (simp add: unat_of_nat)
  then have "of_nat n \<le> used rb" using n by (simp add: word_le_nat_alt)
  then have "unat (used rb - of_nat n) = unat (used rb) - n" by (simp add: unat_sub un)
  then have u: "unat (used rb') = unat (used rb) - n"
    by (simp add: rb' used_def algebra_simps)
  show "rb_wf rb'"
    using wf u rb_wf_used_le [OF wf] by (simp add: rb_wf_def word_le_nat_alt) (simp add: rb')
  have "unat (rb_read rb') mod ?N = (unat (rb_read rb) + n) mod ?N"
    using unat_add_mod_power_of_2 [OF p, of "rb_read rb" "of_nat n"] un by (simp add: rb')
  then have "ring_slice (rb_bytes rb) (unat (rb_read rb')) (unat (used rb) - n) =
      ring_slice (rb_bytes rb) (unat (rb_read rb) + n) (unat (used rb) - n)"
    using ring_slice_mod [of "rb_bytes rb"] l by metis
  then show "rb_contents rb' = drop n (rb_contents rb)"
    by (simp add: rb_contents_def drop_ring_slice u) (simp add: rb')
qed

section \<open>The operations\<close>

lemma min_available:
  assumes "rb_wf rb"
  defines "n len \<equiv> u_min len (rb_size rb - rb_write rb + rb_read rb)"
  shows "unat (n len) = min (unat len) (unat (rb_size rb) - length (rb_contents rb))"
  using assms by (simp add: free_space_eq unat_u_min unat_available)

lemma kfifo_put_spec:
  assumes wf: "rb_wf rb" and len: "unat len \<le> length buffer"
  obtains rb' where
    "kfifo_put rb buffer len =
       Inr (of_nat (min (unat len) (unat (rb_size rb) - length (rb_contents rb))), rb')"
    and "rb_wf rb'" and "rb_size rb' = rb_size rb"
    and "rb_contents rb' =
       rb_contents rb @ take (min (unat len) (unat (rb_size rb) - length (rb_contents rb))) buffer"
    and "min (unat len) (unat (rb_size rb) - length (rb_contents rb)) = 0 \<Longrightarrow> rb' = rb"
proof (cases "len = 0")
  case True
  then show ?thesis using wf that by (simp add: kfifo_put_def)
next
  case False
  let ?n = "min (unat len) (unat (rb_size rb) - length (rb_contents rb))"
  define len' where "len' = u_min len (rb_size rb - rb_write rb + rb_read rb)"
  have n: "unat len' = ?n" unfolding len'_def by (rule min_available [OF wf])
  have of: "len' = of_nat ?n" using arg_cong [OF n, of "of_nat :: nat \<Rightarrow> u32"] by simp
  have bs: "length (take ?n buffer) = ?n" using len by simp
  let ?rb = "rb\<lparr>rb_bytes := ring_store (rb_bytes rb) (write_p rb) (take ?n buffer),
                rb_write := rb_write rb + of_nat (length (take ?n buffer))\<rparr>"
  have put: "kfifo_put rb buffer len = Inr (of_nat ?n, ?rb)"
  proof -
    have "unat len' \<le> unat (rb_size rb)" and "unat len' \<le> length buffer" using len n by simp_all
    from copy_in_ok [OF wf this]
    have "copy_in rb buffer len' = Inr (ring_store (rb_bytes rb) (write_p rb) (take ?n buffer))"
      by (simp only: n)
    then show ?thesis
      using False unfolding kfifo_put_def len'_def [symmetric] Let_def bs by (simp flip: of length_rb_contents)
  qed
  have room: "length (take ?n buffer) \<le> unat (available rb)"
    using wf by (simp add: unat_available)
  show ?thesis
    by (rule that [OF put])
      (use rb_append_bytes [OF wf room refl] in \<open>simp_all\<close>)
qed

lemma kfifo_get_spec:
  assumes wf: "rb_wf rb" and len: "unat len \<le> length buffer"
  defines "n \<equiv> min (unat len) (length (rb_contents rb))"
  obtains rb' where
    "kfifo_get rb buffer len = Inr (of_nat n, overwrite buffer 0 (take n (rb_contents rb)), rb')"
    and "rb_wf rb'" and "rb_size rb' = rb_size rb" and "rb_contents rb' = drop n (rb_contents rb)"
    and "n = 0 \<Longrightarrow> rb' = rb"
proof (cases "rb_empty rb")
  case True
  then have "n = 0" by (simp add: n_def rb_empty_def)
  with True show ?thesis using wf that by (simp add: kfifo_get_def)
next
  case False
  define len' where "len' = u_min len (rb_write rb - rb_read rb)"
  have n: "unat len' = n" by (simp add: len'_def unat_u_min n_def used_def)
  have of: "len' = of_nat n" using arg_cong [OF n, of "of_nat :: nat \<Rightarrow> u32"] by simp
  let ?rb = "rb\<lparr>rb_read := rb_read rb + of_nat n\<rparr>"
  have "copy_out rb buffer len' = Inr (overwrite buffer 0 (take n (rb_contents rb)))"
    using copy_out_ok [OF wf, of len' buffer] len by (simp add: n) (simp add: n_def)
  then have get: "kfifo_get rb buffer len = Inr (of_nat n, overwrite buffer 0 (take n (rb_contents rb)), ?rb)"
    using False unfolding kfifo_get_def len'_def [symmetric] Let_def by (simp add: of)
  have "n \<le> unat (used rb)" by (simp add: n_def)
  from rb_drop_bytes [OF wf this refl] show ?thesis
    by (intro that [OF get]) simp_all
qed

lemma peek_read_spec:
  assumes wf: "rb_wf rb" and len: "unat len \<le> length buffer"
  shows "peek_read rb buffer len =
    Inr (if length (rb_contents rb) < unat len then (0, buffer)
         else (len, overwrite buffer 0 (take (unat len) (rb_contents rb))))"
proof (cases "rb_empty rb \<or> used rb < len")
  case True
  then show ?thesis
    by (auto simp: peek_read_def rb_empty_def word_less_nat_alt unat_eq_zero)
next
  case False
  then have le: "unat len \<le> unat (used rb)" by (simp add: word_less_nat_alt)
  then have "u_min len (rb_write rb - rb_read rb) = len"
    by (auto simp: u_min_def used_def word_less_nat_alt intro!: unsigned_word_eqI [where ?'a = nat])
  with False le show ?thesis using copy_out_ok [OF wf le len] by (simp add: peek_read_def)
qed

lemma seek_read_spec:
  assumes wf: "rb_wf rb"
  shows "seek_read rb len =
    (if length (rb_contents rb) < unat len then (False, rb)
     else (True, rb\<lparr>rb_read := rb_read rb + len\<rparr>))"
    and "unat len \<le> length (rb_contents rb) \<Longrightarrow> rb_wf (rb\<lparr>rb_read := rb_read rb + len\<rparr>)"
    and "unat len \<le> length (rb_contents rb) \<Longrightarrow>
      rb_contents (rb\<lparr>rb_read := rb_read rb + len\<rparr>) = drop (unat len) (rb_contents rb)"
  using rb_drop_bytes [OF wf, of "unat len"] by (simp_all add: seek_read_def word_less_nat_alt)

lemma peek_write_spec:
  assumes wf: "rb_wf rb" and len: "unat len \<le> length buffer"
  shows "peek_write rb buffer len =
    Inr (if len = 0 \<or> unat (rb_size rb) - length (rb_contents rb) < unat len then (0, rb)
         else (len, rb\<lparr>rb_bytes := ring_store (rb_bytes rb) (write_p rb) (take (unat len) buffer)\<rparr>))"
proof (cases "len = 0 \<or> available rb < len")
  case True
  then show ?thesis using wf by (auto simp: peek_write_def word_less_nat_alt unat_available)
next
  case False
  then have le: "unat len \<le> unat (available rb)" by (simp add: word_less_nat_alt)
  then have m: "u_min len (rb_size rb - rb_write rb + rb_read rb) = len"
    by (auto simp: u_min_def free_space_eq word_less_nat_alt intro!: unsigned_word_eqI [where ?'a = nat])
  have "unat len \<le> unat (rb_size rb)" using le wf by (simp add: unat_available)
  from copy_in_ok [OF wf this len] False le m show ?thesis
    using wf by (simp add: peek_write_def unat_available word_less_nat_alt)
qed

lemma seek_write_spec:
  assumes "rb_wf rb"
  shows "seek_write rb len =
    (if unat (rb_size rb) - length (rb_contents rb) < unat len then (False, rb)
     else (True, rb\<lparr>rb_write := rb_write rb + len\<rparr>))"
  using assms by (simp add: seek_write_def word_less_nat_alt unat_available)

lemma ring_buffer_new_Inr:
  "ring_buffer_new fresh n = Inr rb \<longleftrightarrow> 0 \<le> sint n \<and> is_power_of_2 n \<and>
     rb = \<lparr>rb_size = n, rb_bytes = map fresh [0..<unat n], rb_write = 0, rb_read = 0\<rparr>"
  by (auto simp: ring_buffer_new_def)

lemma ring_buffer_new_empty:
  "ring_buffer_new fresh n = Inr rb \<Longrightarrow> rb_wf rb \<and> rb_contents rb = [] \<and> rb_capacity rb = unat n"
  by (auto simp: ring_buffer_new_Inr rb_wf_def rb_contents_def rb_capacity_def used_def)

lemma clear_empty: "rb_wf rb \<Longrightarrow> rb_wf (clear rb) \<and> rb_contents (clear rb) = []"
  by (simp add: clear_def rb_wf_def rb_contents_def used_def)

section \<open>The two bulk transfers are a pipe\<close>

text \<open>A caller that puts the whole of \<open>bs\<close>, and one that gets up to \<open>n\<close> bytes into a buffer of its own.\<close>

definition rb_put :: "ring_buffer \<Rightarrow> byte list \<Rightarrow> nat \<times> ring_buffer" where
  "rb_put rb bs =
     (case kfifo_put rb bs (of_nat (length bs)) of Inl _ \<Rightarrow> (0, rb) | Inr (n, rb') \<Rightarrow> (unat n, rb'))"

definition rb_get :: "ring_buffer \<Rightarrow> nat \<Rightarrow> byte list \<times> ring_buffer" where
  "rb_get rb n =
     (case kfifo_get rb (replicate n 0) (of_nat n) of
        Inl _ \<Rightarrow> ([], rb) | Inr (m, buffer, rb') \<Rightarrow> (take (unat m) buffer, rb'))"

lemma unat_of_nat_u32: "n < 2 ^ 32 \<Longrightarrow> unat (of_nat n :: u32) = n"
  by (simp add: unat_of_nat)

lemma rb_put_law:
  assumes wf: "rb_wf rb" and bs: "length bs < 2 ^ 32"
  defines "n \<equiv> min (length bs) (rb_capacity rb - length (rb_contents rb))"
  obtains rb' where "rb_put rb bs = (n, rb')" "rb_contents rb' = rb_contents rb @ take n bs" "rb_wf rb'"
    "rb_capacity rb' = rb_capacity rb" "n = 0 \<Longrightarrow> rb' = rb"
proof -
  have len: "unat (of_nat (length bs) :: u32) = length bs" using bs by (rule unat_of_nat_u32)
  have n: "unat (of_nat n :: u32) = n" using bs by (intro unat_of_nat_u32) (simp add: n_def)
  have le: "unat (of_nat (length bs) :: u32) \<le> length bs" by (simp add: len)
  obtain rb' where put: "kfifo_put rb bs (of_nat (length bs)) = Inr (of_nat n, rb')"
    and rb': "rb_wf rb'" "rb_size rb' = rb_size rb" "rb_contents rb' = rb_contents rb @ take n bs"
    and same: "n = 0 \<Longrightarrow> rb' = rb"
    by (rule kfifo_put_spec [OF wf le]) (simp only: len n_def rb_capacity_def)
  show ?thesis
    by (rule that [of rb']) (simp_all add: rb_put_def put n rb' rb_capacity_def same)
qed

lemma rb_get_law:
  assumes wf: "rb_wf rb" and k: "k < 2 ^ 32"
  obtains rb' where "rb_get rb k = (take k (rb_contents rb), rb')"
    "rb_contents rb' = drop k (rb_contents rb)" "rb_wf rb'" "rb_capacity rb' = rb_capacity rb"
    "take k (rb_contents rb) = [] \<Longrightarrow> rb' = rb"
proof -
  let ?n = "min k (length (rb_contents rb))" and ?buf = "replicate k 0 :: byte list"
  have len: "unat (of_nat k :: u32) = k" using k by (rule unat_of_nat_u32)
  have n: "unat (of_nat ?n :: u32) = ?n" using k by (intro unat_of_nat_u32) simp
  have le: "unat (of_nat k :: u32) \<le> length ?buf" by (simp add: len)
  obtain rb' where get: "kfifo_get rb ?buf (of_nat k) =
      Inr (of_nat ?n, overwrite ?buf 0 (take ?n (rb_contents rb)), rb')"
    and rb': "rb_wf rb'" "rb_size rb' = rb_size rb" "rb_contents rb' = drop ?n (rb_contents rb)"
    and same: "?n = 0 \<Longrightarrow> rb' = rb"
    by (rule kfifo_get_spec [OF wf le]) (simp only: len)
  have "take ?n (overwrite ?buf 0 (take ?n (rb_contents rb))) = take k (rb_contents rb)"
    by (simp add: overwrite_def min_def)
  moreover have "drop ?n (rb_contents rb) = drop k (rb_contents rb)" by (simp add: min_def)
  moreover have "take k (rb_contents rb) = [] \<Longrightarrow> rb' = rb"
    using same by (auto dest!: arg_cong [of _ _ length])
  ultimately show ?thesis
    by (intro that [of rb']) (simp_all only: rb_get_def get n rb' rb_capacity_def sum.case prod.case)
qed

interpretation rb: pipe rb_wf rb_contents rb_capacity "2 ^ 32" rb_put rb_get
proof (unfold_locales, goal_cases)
  case (2 q)
  then show ?case using rb_wf_used_le by (simp add: rb_capacity_def)
next
  case (3 q bs)
  then show ?case by (auto elim: rb_put_law)
next
  case (4 q bs)
  from 4(1,2) show ?case by (rule rb_put_law) (use 4(3) in auto)
next
  case (5 q n)
  from 5 show ?case by (rule rb_get_law) simp
next
  case (6 q n)
  from 6(1,2) show ?case by (rule rb_get_law) (use 6(3) in auto)
qed simp

section \<open>What the class promises\<close>

text \<open>A buffer of eight bytes whose write index has just wrapped past the largest \<open>unsigned\<close>.\<close>

definition example_ring :: ring_buffer where
  "example_ring = \<lparr>rb_size = 8, rb_bytes = [12, 0, 0, 0, 0, 0, 10, 11], rb_write = 1, rb_read = 0xFFFFFFFE\<rparr>"

lemma example_ring [simp]:
  "rb_wf example_ring" "rb_contents example_ring = [10, 11, 12]"
  "rb_size example_ring = 8" "rb_capacity example_ring = 8"
  by (simp_all add: example_ring_def rb_wf_def is_power_of_2_def used_def rb_contents_def ring_slice_def
      rb_capacity_def upt_rec)

lemma unat_power_u32: "k < 32 \<Longrightarrow> unat (2 ^ k :: u32) = 2 ^ k"
proof -
  assume "k < 32"
  then have "(2::nat) ^ k < 2 ^ 32" by (rule power_strict_increasing) simp
  then show ?thesis using unat_of_nat_u32 [of "2 ^ k"] by simp
qed

lemma power_of_2_positive_int:
  "0 \<le> sint n \<and> is_power_of_2 n \<longleftrightarrow> (\<exists>k<31. n = 2 ^ k)" for n :: u32
proof
  assume n: "0 \<le> sint n \<and> is_power_of_2 n"
  then obtain k where k: "k < 32" "unat n = 2 ^ k" by (auto elim: is_power_of_2D)
  then have eq: "n = 2 ^ k" by (auto intro!: unsigned_word_eqI [where ?'a = nat] simp: unat_power_u32)
  have "k \<noteq> 31"
  proof
    assume "k = 31"
    with eq have "sint n < 0" by simp
    with n show False by simp
  qed
  with k eq show "\<exists>k<31. n = 2 ^ k" by (intro exI [of _ k]) simp
next
  assume "\<exists>k<31. n = 2 ^ k"
  then have "n \<in> (\<lambda>k. 2 ^ k) ` {..<31}" by auto
  then show "0 \<le> sint n \<and> is_power_of_2 n"
    by (simp add: is_power_of_2_def lessThan_nat_numeral lessThan_Suc) (elim disjE; simp)
qed

text \<open>The constructor succeeds exactly for the powers of two that are positive as an
  \<open>int\<close>; the new buffer is well formed, empty and has the capacity asked for.\<close>

theorem ring_buffer_new_correct:
  "(\<exists>rb. ring_buffer_new fresh n = Inr rb) = (\<exists>k<31. n = 2 ^ k) \<and>
   (case ring_buffer_new fresh n of
      Inl e \<Rightarrow> e = (if sint n < 0 then Bad_Alloc else Assert_Failed)
    | Inr rb \<Rightarrow> rb_wf rb \<and> rb_contents rb = [] \<and> rb_capacity rb = unat n)"
  using ring_buffer_new_empty [of fresh n]
  unfolding power_of_2_positive_int [symmetric]
  by (cases "ring_buffer_new fresh n") (auto simp: ring_buffer_new_Inr ring_buffer_new_def split: if_splits)

text \<open>C14. \<open>kfifo_put\<close> never leaves the array or the caller's buffer: it appends as many of the
  first \<open>len\<close> bytes as there is room for, returns their number and keeps the invariant,
  wherever the two free-running indices stand.\<close>

theorem kfifo_put_correct:
  assumes "rb_wf rb" and "unat len \<le> length buffer"
  shows "\<exists>n rb'. kfifo_put rb buffer len = Inr (n, rb') \<and>
    unat n = min (unat len) (rb_capacity rb - length (rb_contents rb)) \<and>
    rb_contents rb' = rb_contents rb @ take (unat n) buffer \<and>
    rb_wf rb' \<and> rb_capacity rb' = rb_capacity rb"
proof -
  let ?n = "min (unat len) (unat (rb_size rb) - length (rb_contents rb))"
  have "?n < 2 ^ 32" using unsigned_less [of len, where ?'a = nat] by simp
  then have "unat (of_nat ?n :: u32) = ?n" by (rule unat_of_nat_u32)
  moreover obtain rb' where "kfifo_put rb buffer len = Inr (of_nat ?n, rb')" "rb_wf rb'"
      "rb_size rb' = rb_size rb" "rb_contents rb' = rb_contents rb @ take ?n buffer"
    by (rule kfifo_put_spec [OF assms])
  ultimately show ?thesis unfolding rb_capacity_def by (metis (no_types))
qed

theorem kfifo_put_correct_witness:
  "\<exists>n rb'. kfifo_put example_ring [1, 2, 3, 4, 5, 6] 6 = Inr (n, rb') \<and> unat n = 5 \<and>
     rb_contents rb' = [10, 11, 12, 1, 2, 3, 4, 5]"
  using kfifo_put_correct [of example_ring 6 "[1, 2, 3, 4, 5, 6]"] by (auto simp: min_def)

text \<open>\<open>kfifo_get\<close> delivers the oldest bytes, at most \<open>len\<close> and at most what is stored, at the
  start of the caller's buffer, leaves the rest of that buffer as it was and removes exactly the
  bytes delivered.\<close>

theorem kfifo_get_correct:
  assumes "rb_wf rb" and "unat len \<le> length buffer"
  shows "\<exists>n rb'. kfifo_get rb buffer len =
      Inr (n, take (unat n) (rb_contents rb) @ drop (unat n) buffer, rb') \<and>
    unat n = min (unat len) (length (rb_contents rb)) \<and>
    rb_contents rb' = drop (unat n) (rb_contents rb) \<and> rb_wf rb' \<and> rb_capacity rb' = rb_capacity rb"
proof -
  let ?n = "min (unat len) (length (rb_contents rb))"
  have "?n < 2 ^ 32" using unsigned_less [of len, where ?'a = nat] by simp
  then have n: "unat (of_nat ?n :: u32) = ?n" by (rule unat_of_nat_u32)
  have "overwrite buffer 0 (take ?n (rb_contents rb)) = take ?n (rb_contents rb) @ drop ?n buffer"
    by (simp add: overwrite_0)
  moreover obtain rb' where "kfifo_get rb buffer len =
        Inr (of_nat ?n, overwrite buffer 0 (take ?n (rb_contents rb)), rb')" "rb_wf rb'"
      "rb_size rb' = rb_size rb" "rb_contents rb' = drop ?n (rb_contents rb)"
    by (rule kfifo_get_spec [OF assms])
  ultimately show ?thesis using n unfolding rb_capacity_def by (metis (no_types))
qed

theorem kfifo_get_correct_witness:
  "\<exists>n rb'. kfifo_get example_ring [7, 7, 7, 7] 2 = Inr (n, [10, 11, 7, 7], rb') \<and> unat n = 2 \<and>
     rb_contents rb' = [12]"
  using kfifo_get_correct [of example_ring 2 "[7, 7, 7, 7]"] by (auto simp: min_def)

text \<open>C15. Over any sequence of \<open>kfifo_put\<close> and \<open>kfifo_get\<close> calls on a new buffer, the bytes accepted
  are the bytes delivered followed by the bytes still stored: none is lost, duplicated or reordered,
  and never more than the capacity is stored.\<close>

theorem ring_buffer_stream:
  assumes "ring_buffer_new fresh n = Inr rb" and "\<forall>c \<in> set cs. call_size c < 2 ^ 32"
    and "pipe_run rb_put rb_get rb cs = (accepted, delivered, rb')"
  shows "accepted = delivered @ rb_contents rb' \<and> length (rb_contents rb') \<le> unat n \<and> rb_wf rb'"
  using ring_buffer_new_empty [OF assms(1)] rb.pipe_run_conserves [OF _ assms(2,3)] rb.pipe_bounded [of rb']
  by auto

theorem ring_buffer_stream_witness:
  "let rb = \<lparr>rb_size = 4, rb_bytes = [9, 9, 9, 9], rb_write = 0, rb_read = 0\<rparr>;
       (accepted, delivered, rb') = pipe_run rb_put rb_get rb [Put [1, 2, 3], Get 2, Put [4, 5, 6, 7], Get 3]
   in accepted = delivered @ rb_contents rb' \<and> delivered = [1, 2, 3, 4, 5]"
proof -
  let ?rb = "\<lparr>rb_size = 4, rb_bytes = [9, 9, 9, 9], rb_write = 0, rb_read = 0\<rparr> :: ring_buffer"
  have new: "ring_buffer_new (\<lambda>_. 9) 4 = Inr ?rb"
    by (simp add: ring_buffer_new_def is_power_of_2_def upt_rec)
  obtain a d rb' where r: "pipe_run rb_put rb_get ?rb
      [Put [1, 2, 3], Get 2, Put [4, 5, 6, 7], Get 3] = (a, d, rb')"
    by (cases "pipe_run rb_put rb_get ?rb [Put [1, 2, 3], Get 2, Put [4, 5, 6, 7], Get 3]")
  have "d = fst (snd (pipe_run rb_put rb_get ?rb [Put [1, 2, 3], Get 2, Put [4, 5, 6, 7], Get 3]))"
    by (simp only: r fst_conv snd_conv)
  also have "\<dots> = [1, 2, 3, 4, 5]" by code_simp
  finally have d: "d = [1, 2, 3, 4, 5]" .
  have "a = d @ rb_contents rb'" using ring_buffer_stream [OF new _ r] by simp
  then show ?thesis by (simp only: r Let_def prod.case d)
qed

text \<open>\<open>peek_read\<close> followed by \<open>seek_read\<close> of the same length is \<open>kfifo_get\<close> of that length when
  enough is stored; otherwise both refuse and change nothing. In particular \<open>peek_read\<close> never
  delivers a part of what was asked.\<close>

theorem peek_then_seek:
  assumes "rb_wf rb" and "unat len \<le> length buffer"
  shows "if unat len \<le> length (rb_contents rb)
    then kfifo_get rb buffer len =
      chain (peek_read rb buffer len) (\<lambda>(n, buffer'). Inr (n, buffer', snd (seek_read rb n)))
    else peek_read rb buffer len = Inr (0, buffer) \<and> seek_read rb len = (False, rb)"
proof (cases "unat len \<le> length (rb_contents rb)")
  case True
  have "u_min len (rb_write rb - rb_read rb) = len"
    using True by (auto simp: u_min_def used_def word_less_nat_alt intro!: unsigned_word_eqI [where ?'a = nat])
  then show ?thesis
    using True copy_out_ok [OF assms(1), of len buffer] assms(2)
    by (auto simp: kfifo_get_def peek_read_def seek_read_def word_less_nat_alt rb_empty_def)
next
  case False
  then show ?thesis using assms by (simp add: peek_read_spec seek_read_spec)
qed

theorem peek_then_seek_witness:
  "kfifo_get example_ring [7, 7, 7, 7] 2 =
     chain (peek_read example_ring [7, 7, 7, 7] 2) (\<lambda>(n, b). Inr (n, b, snd (seek_read example_ring n))) \<and>
   peek_read example_ring [7, 7, 7, 7] 4 = Inr (0, [7, 7, 7, 7])"
  using peek_then_seek [of example_ring 2 "[7, 7, 7, 7]"] peek_then_seek [of example_ring 4 "[7, 7, 7, 7]"]
  by simp

end
