(* ===== verification/Ring_Threads.thy ===== *)
theory Ring_Threads
  imports Ring_Buffer
begin

text \<open>
  \<open>kfifo_put\<close> and \<open>kfifo_get\<close> of \<open>src/ring_buffer.cpp\<close> in two threads: the header claims that with one
  reader and one writer no lock is needed. The steps are the accesses of a call to the shared members: its
  reads of the indices, each byte of its copies, and the store of its own index.
\<close>

section \<open>The steps\<close>

text \<open>Where byte number \<open>j\<close> of a transfer lies in the array: before its end in the first copy, at its beginning in
  the second.\<close>

definition put_slot :: "ring_buffer \<Rightarrow> u32 \<Rightarrow> nat \<Rightarrow> nat" where
  "put_slot rb len j =
     (let iLen = u_min len (rb_size rb - (rb_write rb AND (rb_size rb - 1))) in
      if j < unat iLen then unat (rb_write rb AND (rb_size rb - 1)) + j else j - unat iLen)"

definition get_slot :: "ring_buffer \<Rightarrow> u32 \<Rightarrow> nat \<Rightarrow> nat" where
  "get_slot rb len i =
     (let iLen = u_min len (rb_size rb - (rb_read rb AND (rb_size rb - 1))) in
      if i < unat iLen then unat (rb_read rb AND (rb_size rb - 1)) + i else i - unat iLen)"

text \<open>
  A call that copies has its length, its bytes and the numbers of the bytes still to copy: \<open>memcpy\<close> may take
  them in any order. The barriers of the code order the accesses of a thread as they are written, so memory is
  sequentially consistent. The ghost lists record what completed calls put and got.
\<close>

datatype put_thread = Put_Idle | Put_Copy u32 "byte list" "nat set"
datatype get_thread = Get_Idle | Get_Sample u32 "byte list" | Get_Copy u32 "byte list" "nat set"

record ring_threads =
  rt_ring :: ring_buffer
  rt_put :: put_thread
  rt_get :: get_thread
  rt_pushed :: "byte list"
  rt_popped :: "byte list"

inductive ring_step :: "ring_threads \<Rightarrow> ring_threads \<Rightarrow> bool" where
  put_sample: "rt_put s = Put_Idle \<Longrightarrow> len \<noteq> 0 \<Longrightarrow> unat len \<le> length buffer \<Longrightarrow>
    len' = u_min len (rb_size (rt_ring s) - rb_write (rt_ring s) + rb_read (rt_ring s)) \<Longrightarrow>
    ring_step s (s\<lparr>rt_put := Put_Copy len' (take (unat len') buffer) {..<unat len'}\<rparr>)"
| put_store: "rt_put s = Put_Copy len bs todo \<Longrightarrow> j \<in> todo \<Longrightarrow>
    ring_step s (s\<lparr>rt_ring := (rt_ring s)\<lparr>rb_bytes := (rb_bytes (rt_ring s))[put_slot (rt_ring s) len j := bs ! j]\<rparr>,
      rt_put := Put_Copy len bs (todo - {j})\<rparr>)"
| put_publish: "rt_put s = Put_Copy len bs {} \<Longrightarrow>
    ring_step s (s\<lparr>rt_ring := (rt_ring s)\<lparr>rb_write := rb_write (rt_ring s) + len\<rparr>,
      rt_put := Put_Idle, rt_pushed := rt_pushed s @ bs\<rparr>)"
| get_test: "rt_get s = Get_Idle \<Longrightarrow> \<not> rb_empty (rt_ring s) \<Longrightarrow> unat len \<le> length buffer \<Longrightarrow>
    ring_step s (s\<lparr>rt_get := Get_Sample len buffer\<rparr>)"
| get_sample: "rt_get s = Get_Sample len buffer \<Longrightarrow>
    len' = u_min len (rb_write (rt_ring s) - rb_read (rt_ring s)) \<Longrightarrow>
    ring_step s (s\<lparr>rt_get := Get_Copy len' (take (unat len') buffer) {..<unat len'}\<rparr>)"
| get_load: "rt_get s = Get_Copy len got todo \<Longrightarrow> i \<in> todo \<Longrightarrow>
    ring_step s (s\<lparr>rt_get := Get_Copy len (got[i := rb_bytes (rt_ring s) ! get_slot (rt_ring s) len i]) (todo - {i})\<rparr>)"
| get_advance: "rt_get s = Get_Copy len got {} \<Longrightarrow>
    ring_step s (s\<lparr>rt_ring := (rt_ring s)\<lparr>rb_read := rb_read (rt_ring s) + len\<rparr>,
      rt_get := Get_Idle, rt_popped := rt_popped s @ got\<rparr>)"

definition threads_start :: "ring_buffer \<Rightarrow> ring_threads" where
  "threads_start rb = \<lparr>rt_ring = rb, rt_put = Put_Idle, rt_get = Get_Idle, rt_pushed = [], rt_popped = []\<rparr>"

section \<open>Slots\<close>

lemma cut_slot:
  assumes p: "is_power_of_2 n" and j: "j < unat len" "unat len \<le> unat n"
  shows "(let iLen = u_min len (n - (x AND (n - 1))) in
    if j < unat iLen then unat (x AND (n - 1)) + j else j - unat iLen) = (unat x + j) mod unat n"
proof -
  let ?N = "unat n" and ?w = "unat (x AND (n - 1))"
  have w: "?w = unat x mod ?N" "?w < ?N" using p by (simp_all add: unat_and_mask_mod power_of_2_pos)
  have i: "unat (u_min len (n - (x AND (n - 1)))) = min (unat len) (?N - ?w)"
    by (simp add: unat_u_min unat_to_end [OF p])
  have "(unat x + j) mod ?N = (?w + j) mod ?N" by (simp add: w(1) mod_add_left_eq)
  also have "\<dots> = (if j < ?N - ?w then ?w + j else j - (?N - ?w))"
    using w(2) j by (auto simp: mod_if [of "?w + j"] le_mod_geq)
  finally show ?thesis using j by (auto simp: Let_def i)
qed

lemma slots_eq:
  assumes "rb_wf rb" and "j < unat len" and "unat len \<le> unat (rb_size rb)"
  shows "put_slot rb len j = (unat (rb_write rb) + j) mod unat (rb_size rb)"
    and "get_slot rb len j = (unat (rb_read rb) + j) mod unat (rb_size rb)"
  using assms cut_slot [of "rb_size rb" j len] by (simp_all add: put_slot_def get_slot_def rb_wf_def)

lemma write_slot: "rb_wf rb \<Longrightarrow> (unat (rb_write rb) + j) mod unat (rb_size rb) = (unat (rb_read rb) + (unat (used rb) + j)) mod unat (rb_size rb)"
proof -
  assume wf: "rb_wf rb"
  let ?N = "unat (rb_size rb)"
  have "unat (rb_write rb) mod ?N = (unat (rb_read rb) + unat (used rb)) mod ?N"
    by (rule trans [OF write_p_eq [OF wf, symmetric] write_p_from_read [OF wf]])
  then have "(unat (rb_write rb) + j) mod ?N = (unat (rb_read rb) + unat (used rb) + j) mod ?N" by (rule mod_add_cong) simp
  then show ?thesis by (simp only: add.assoc)
qed

lemma mod_apart: "(a :: nat) < b \<Longrightarrow> b < a + n \<Longrightarrow> a mod n \<noteq> b mod n"
  using mod_eq_dvd_iff_nat [of a b n] by (auto dest: dvd_imp_le)

text \<open>The slots of bytes that are in use and of free bytes are different ones.\<close>

lemma free_slot:
  assumes "rb_wf rb" and "i < unat (used rb)" and "j < unat (available rb)"
  shows "(unat (rb_read rb) + i) mod unat (rb_size rb) \<noteq> (unat (rb_write rb) + j) mod unat (rb_size rb)"
  unfolding write_slot [OF assms(1)]
  by (rule mod_apart) (use assms rb_wf_used_le [OF assms(1)] in \<open>auto simp: unat_available\<close>)

section \<open>The invariant\<close>

definition slot_at :: "ring_buffer \<Rightarrow> nat \<Rightarrow> byte" where
  "slot_at rb p = rb_bytes rb ! (p mod unat (rb_size rb))"

fun put_inv :: "ring_buffer \<Rightarrow> put_thread \<Rightarrow> bool" where
  "put_inv rb Put_Idle \<longleftrightarrow> True"
| "put_inv rb (Put_Copy len bs todo) \<longleftrightarrow> unat len = length bs \<and> length bs \<le> unat (available rb) \<and> todo \<subseteq> {..<length bs} \<and>
     (\<forall>j<length bs. j \<notin> todo \<longrightarrow> slot_at rb (unat (rb_write rb) + j) = bs ! j)"

fun get_inv :: "ring_buffer \<Rightarrow> get_thread \<Rightarrow> bool" where
  "get_inv rb Get_Idle \<longleftrightarrow> True"
| "get_inv rb (Get_Sample len buffer) \<longleftrightarrow> unat len \<le> length buffer"
| "get_inv rb (Get_Copy len got todo) \<longleftrightarrow> unat len = length got \<and> length got \<le> length (rb_contents rb) \<and> todo \<subseteq> {..<length got} \<and>
     (\<forall>i<length got. i \<notin> todo \<longrightarrow> got ! i = rb_contents rb ! i)"

definition threads_inv :: "ring_threads \<Rightarrow> bool" where
  "threads_inv s \<longleftrightarrow> rb_wf (rt_ring s) \<and> put_inv (rt_ring s) (rt_put s) \<and> get_inv (rt_ring s) (rt_get s) \<and>
     rt_pushed s = rt_popped s @ rb_contents (rt_ring s)"

lemma nth_rb_contents_slot: "rb_wf rb \<Longrightarrow> i < unat (used rb) \<Longrightarrow> rb_contents rb ! i = slot_at rb (unat (rb_read rb) + i)"
  by (simp add: rb_contents_def slot_at_def rb_wf_length)

text \<open>A store into a free slot leaves the contents alone.\<close>

lemma store_free:
  assumes wf: "rb_wf rb" and j: "j < unat (available rb)"
    and rb': "rb' = rb\<lparr>rb_bytes := (rb_bytes rb)[(unat (rb_write rb) + j) mod unat (rb_size rb) := x]\<rparr>"
  shows "rb_wf rb'" and "rb_contents rb' = rb_contents rb" and "available rb' = available rb"
    and "slot_at rb' (unat (rb_write rb) + j) = x"
    and "\<And>j'. j' < unat (available rb) \<Longrightarrow> j' \<noteq> j \<Longrightarrow> slot_at rb' (unat (rb_write rb) + j') = slot_at rb (unat (rb_write rb) + j')"
proof -
  let ?N = "unat (rb_size rb)"
  have N: "length (rb_bytes rb) = ?N" "0 < ?N" by (simp_all add: wf rb_wf_length rb_wf_pos)
  show wf': "rb_wf rb'" using wf by (simp add: rb' rb_wf_def used_def)
  have u: "used rb' = used rb" by (simp add: rb' used_def)
  show "available rb' = available rb" by (simp add: rb' available_def)
  show "rb_contents rb' = rb_contents rb"
  proof (rule nth_equalityI)
    fix i assume "i < length (rb_contents rb')"
    then have i: "i < unat (used rb)" by (simp add: u)
    then show "rb_contents rb' ! i = rb_contents rb ! i"
      using free_slot [OF wf i j] N nth_rb_contents_slot [OF wf i] nth_rb_contents_slot [OF wf', of i]
      by (simp add: rb' u slot_at_def used_def)
  qed (simp add: u)
  show "slot_at rb' (unat (rb_write rb) + j) = x" using N by (simp add: rb' slot_at_def)
  fix j' assume j': "j' < unat (available rb)" "j' \<noteq> j"
  have "unat (available rb) \<le> ?N" by (simp add: unat_available [OF wf])
  then have "(unat (rb_write rb) + j) mod ?N \<noteq> (unat (rb_write rb) + j') mod ?N"
    using mod_apart [of "unat (rb_write rb) + j" "unat (rb_write rb) + j'" ?N]
      mod_apart [of "unat (rb_write rb) + j'" "unat (rb_write rb) + j" ?N] j j' by (cases "j < j'") auto
  then show "slot_at rb' (unat (rb_write rb) + j') = slot_at rb (unat (rb_write rb) + j')" by (simp add: rb' slot_at_def)
qed

text \<open>Once all bytes of a call are in their slots, the new write index appends them.\<close>

lemma publish_bytes:
  assumes wf: "rb_wf rb" and n: "length bs \<le> unat (available rb)"
    and bs: "\<forall>j<length bs. slot_at rb (unat (rb_write rb) + j) = bs ! j"
    and rb': "rb' = rb\<lparr>rb_write := rb_write rb + of_nat (length bs)\<rparr>"
  shows "rb_wf rb'" and "rb_contents rb' = rb_contents rb @ bs"
proof -
  have u: "unat (used rb') = unat (used rb) + length bs"
    using used_after_write [OF wf n] by (simp add: rb' used_def)
  have le: "unat (used rb) + length bs \<le> unat (rb_size rb)"
    using n rb_wf_used_le [OF wf] by (simp add: unat_available [OF wf])
  show wf': "rb_wf rb'" using wf u le by (simp add: rb_wf_def word_le_nat_alt) (simp add: rb')
  show "rb_contents rb' = rb_contents rb @ bs"
  proof (rule nth_equalityI)
    fix i assume "i < length (rb_contents rb')"
    then have i: "i < unat (used rb) + length bs" by (simp add: u)
    have at: "rb_contents rb' ! i = slot_at rb (unat (rb_read rb) + i)"
      using nth_rb_contents_slot [OF wf', of i] i u by (simp add: rb' slot_at_def)
    show "rb_contents rb' ! i = (rb_contents rb @ bs) ! i"
    proof (cases "i < unat (used rb)")
      case True
      then show ?thesis using at nth_rb_contents_slot [OF wf True] by (simp add: nth_append)
    next
      case False
      then obtain j where j: "i = unat (used rb) + j" "j < length bs" using i by (metis add_less_cancel_left le_Suc_ex not_less)
      then have "slot_at rb (unat (rb_read rb) + i) = bs ! j"
        using bs [rule_format, OF j(2)] write_slot [OF wf, of j] by (simp add: slot_at_def)
      then show ?thesis using at j(1) by (simp add: nth_append)
    qed
  qed (simp add: u)
qed

text \<open>The store of one byte of a call.\<close>

lemma store_one:
  assumes wf: "rb_wf rb" and P: "put_inv rb (Put_Copy len bs todo)" and todo: "j \<in> todo"
  defines "rb' \<equiv> rb\<lparr>rb_bytes := (rb_bytes rb)[put_slot rb len j := bs ! j]\<rparr>"
  shows "rb_wf rb'" and "rb_contents rb' = rb_contents rb" and "put_inv rb' (Put_Copy len bs (todo - {j}))"
proof -
  have len: "unat len = length bs" "length bs \<le> unat (available rb)" and j: "j < length bs" using P todo by auto
  then have jf: "j < unat (available rb)" by simp
  have slot: "put_slot rb len j = (unat (rb_write rb) + j) mod unat (rb_size rb)"
    by (rule slots_eq(1) [OF wf]) (use len j in \<open>auto simp: unat_available [OF wf]\<close>)
  note st = store_free [OF wf jf, of rb' "bs ! j", unfolded rb'_def slot, OF refl]
  show "rb_wf rb'" and "rb_contents rb' = rb_contents rb" unfolding rb'_def slot by (fact st)+
  have "slot_at rb' (unat (rb_write rb) + j') = bs ! j'" if "j' < length bs" "j' \<notin> todo - {j}" for j'
    using that P st(4) st(5) [of j'] len todo by (cases "j' = j") (simp_all add: rb'_def slot)
  then show "put_inv rb' (Put_Copy len bs (todo - {j}))" using P st(3) todo by (auto simp: rb'_def slot)
qed

lemma u_min_sample: "rb_wf rb \<Longrightarrow> unat (u_min len (rb_size rb - rb_write rb + rb_read rb)) = min (unat len) (unat (available rb))"
  by (simp add: free_space_eq unat_u_min)

lemma get_inv_grows:
  "get_inv rb g \<Longrightarrow> rb_contents rb' = rb_contents rb @ bs \<Longrightarrow> get_inv rb' g"
  by (cases g) (auto simp: nth_append simp del: length_rb_contents)

lemma drop_contents:
  assumes wf: "rb_wf rb" and g: "get_inv rb (Get_Copy len got {})" and rb': "rb' = rb\<lparr>rb_read := rb_read rb + len\<rparr>"
  shows "rb_wf rb'" and "rb_contents rb = got @ rb_contents rb'" and "unat (available rb') = unat (available rb) + unat len"
proof -
  have n: "unat len \<le> unat (used rb)" "length got = unat len" using g by simp_all
  have r: "rb' = rb\<lparr>rb_read := rb_read rb + of_nat (unat len)\<rparr>" by (simp add: rb')
  note d = rb_drop_bytes [OF wf n(1) r]
  show "rb_wf rb'" by (rule d(1))
  have "got = take (unat len) (rb_contents rb)" using g by (intro nth_equalityI) auto
  then show c: "rb_contents rb = got @ rb_contents rb'" by (simp add: d(2))
  have "length (rb_contents rb) = length got + length (rb_contents rb')" by (subst c) simp
  then show "unat (available rb') = unat (available rb) + unat len"
    using n unat_available [OF wf] unat_available [OF d(1)] rb_wf_used_le [OF wf] by (simp add: rb')
qed

lemma threads_inv_step:
  assumes "ring_step s t" and inv: "threads_inv s"
  shows "threads_inv t"
proof -
  let ?rb = "rt_ring s"
  have wf: "rb_wf ?rb" and P: "put_inv ?rb (rt_put s)" and G: "get_inv ?rb (rt_get s)"
    and gh: "rt_pushed s = rt_popped s @ rb_contents ?rb" using inv by (simp_all add: threads_inv_def)
  from assms(1) show ?thesis
  proof (cases rule: ring_step.cases)
    case (put_sample len buffer len')
    then show ?thesis using inv u_min_sample [OF wf, of len] by (simp add: threads_inv_def)
  next
    case (put_store len bs todo j)
    have put: "put_inv ?rb (Put_Copy len bs todo)" using P put_store by simp
    note st = store_one [OF wf put put_store(3)]
    show ?thesis
      using st gh get_inv_grows [OF G, where bs = "[]"] unfolding put_store by (simp add: threads_inv_def)
  next
    case (put_publish len bs)
    then have len: "unat len = length bs" "length bs \<le> unat (available ?rb)"
      and bs: "\<forall>j<length bs. slot_at ?rb (unat (rb_write ?rb) + j) = bs ! j" using P by auto
    have of: "len = of_nat (length bs)" using arg_cong [OF len(1), of "of_nat :: nat \<Rightarrow> u32"] by simp
    note pub = publish_bytes [OF wf len(2) bs refl]
    show ?thesis using pub gh get_inv_grows [OF G] unfolding put_publish by (simp add: threads_inv_def of)
  next
    case (get_test len buffer)
    then show ?thesis using inv by (simp add: threads_inv_def)
  next
    case (get_sample len buffer len')
    then show ?thesis using inv by (auto simp: threads_inv_def unat_u_min used_def min_def)
  next
    case (get_load len got todo i)
    then have len: "unat len = length got" "length got \<le> unat (used ?rb)" and i: "i < length got" using G by auto
    have "get_slot ?rb len i = (unat (rb_read ?rb) + i) mod unat (rb_size ?rb)"
      by (rule slots_eq(2) [OF wf]) (use len i rb_wf_used_le [OF wf] in auto)
    then have "rb_bytes ?rb ! get_slot ?rb len i = rb_contents ?rb ! i"
      using nth_rb_contents_slot [OF wf, of i] len i by (simp add: slot_at_def)
    then show ?thesis using inv get_load len by (auto simp: threads_inv_def nth_list_update)
  next
    case (get_advance len got)
    have g: "get_inv ?rb (Get_Copy len got {})" using G get_advance by simp
    note d = drop_contents [OF wf g refl]
    have "put_inv (?rb\<lparr>rb_read := rb_read ?rb + len\<rparr>) (rt_put s)"
      using P d(3) by (cases "rt_put s") (auto simp: slot_at_def)
    then show ?thesis using d(1,2) gh unfolding get_advance by (simp add: threads_inv_def)
  qed
qed

lemma threads_inv_start: "rb_wf rb \<Longrightarrow> rb_contents rb = [] \<Longrightarrow> threads_inv (threads_start rb)"
  by (simp add: threads_start_def threads_inv_def)

lemma threads_inv_reach:
  "ring_step\<^sup>*\<^sup>* s0 s \<Longrightarrow> threads_inv s0 \<Longrightarrow> threads_inv s"
  by (induction rule: rtranclp_induct) (auto intro: threads_inv_step)

section \<open>A call without interruption\<close>

text \<open>If the other thread does nothing in between, the steps of a call are the call: first the copies of all bytes,
  in order of their numbers.\<close>

definition stored :: "ring_buffer \<Rightarrow> u32 \<Rightarrow> byte list \<Rightarrow> nat \<Rightarrow> ring_buffer" where
  "stored rb len bs m = rb\<lparr>rb_bytes := fold (\<lambda>j xs. xs[put_slot rb len j := bs ! j]) [0..<m] (rb_bytes rb)\<rparr>"

lemma put_slot_bytes [simp]: "put_slot (rb\<lparr>rb_bytes := xs\<rparr>) len j = put_slot rb len j"
  by (simp add: put_slot_def Let_def)

lemma stored_Suc: "stored rb len bs (Suc m) =
    (stored rb len bs m)\<lparr>rb_bytes := (rb_bytes (stored rb len bs m))[put_slot (stored rb len bs m) len m := bs ! m]\<rparr>"
  by (simp add: stored_def)

lemma store_steps:
  assumes "rt_put s = Put_Copy len bs {..<n}" and "m \<le> n"
  shows "ring_step\<^sup>*\<^sup>* s (s\<lparr>rt_ring := stored (rt_ring s) len bs m, rt_put := Put_Copy len bs {m..<n}\<rparr>)"
  using assms(2)
proof (induction m)
  case 0
  have "s\<lparr>rt_ring := stored (rt_ring s) len bs 0, rt_put := Put_Copy len bs {0..<n}\<rparr> = s"
    using assms(1) by (simp add: stored_def atLeast0LessThan)
  then show ?case by simp
next
  case (Suc m)
  let ?s = "s\<lparr>rt_ring := stored (rt_ring s) len bs m, rt_put := Put_Copy len bs {m..<n}\<rparr>"
  have "ring_step ?s (?s\<lparr>rt_ring := stored (rt_ring s) len bs (Suc m), rt_put := Put_Copy len bs ({m..<n} - {m})\<rparr>)"
    using put_store [of ?s len bs "{m..<n}" m] Suc.prems by (simp add: stored_Suc)
  moreover have "{m..<n} - {m} = {Suc m..<n}" by auto
  ultimately show ?case using Suc by (simp add: rtranclp.rtrancl_into_rtrancl)
qed

text \<open>Storing in order is what the two copies of the code do.\<close>

lemma stored_slots:
  assumes wf: "rb_wf rb" and len: "unat len = length bs" "length bs \<le> unat (available rb)" and m: "m \<le> length bs"
  shows "rb_wf (stored rb len bs m) \<and> available (stored rb len bs m) = available rb \<and>
    (\<forall>i < unat (rb_size rb). slot_at (stored rb len bs m) (unat (rb_write rb) + i) =
       (if i < m then bs ! i else slot_at rb (unat (rb_write rb) + i)))"
  using m
proof (induction m)
  case 0
  then show ?case using wf by (simp add: stored_def)
next
  case (Suc m)
  let ?rb = "stored rb len bs m" and ?N = "unat (rb_size rb)"
  have IH: "rb_wf ?rb" "available ?rb = available rb" using Suc by auto
  have same: "rb_size ?rb = rb_size rb" "rb_write ?rb = rb_write rb" by (simp_all add: stored_def)
  have m: "m < unat (available ?rb)" using Suc.prems len IH by simp
  have av: "unat (available rb) \<le> ?N" by (simp add: unat_available [OF wf])
  have slot: "put_slot ?rb len m = (unat (rb_write ?rb) + m) mod unat (rb_size ?rb)"
    by (rule slots_eq(1) [OF IH(1)]) (use Suc.prems len av same in auto)
  note st = store_free [OF IH(1) m refl, where x = "bs ! m"]
  have other: "(unat (rb_write rb) + i) mod ?N \<noteq> (unat (rb_write rb) + m) mod ?N" if "i < ?N" "i \<noteq> m" for i
    using mod_apart [of "unat (rb_write rb) + i" "unat (rb_write rb) + m" ?N]
      mod_apart [of "unat (rb_write rb) + m" "unat (rb_write rb) + i" ?N] that m IH(2) av by (cases "i < m") auto
  have "slot_at (stored rb len bs (Suc m)) (unat (rb_write rb) + i) = (if i < Suc m then bs ! i else slot_at rb (unat (rb_write rb) + i))"
    if i: "i < ?N" for i
  proof (cases "i = m")
    case True
    then show ?thesis using st(4) by (simp add: stored_Suc slot same)
  next
    case False
    then have "slot_at (stored rb len bs (Suc m)) (unat (rb_write rb) + i) = slot_at ?rb (unat (rb_write rb) + i)"
      using other [OF i False] by (simp add: stored_Suc slot slot_at_def same)
    then show ?thesis using Suc i False by auto
  qed
  then show ?case using st(1,3) IH(2) by (simp add: stored_Suc slot same)
qed

lemma stored_all:
  assumes wf: "rb_wf rb" and len: "unat len = length bs" "length bs \<le> unat (available rb)"
  shows "rb_bytes (stored rb len bs (length bs)) = ring_store (rb_bytes rb) (write_p rb) bs"
proof -
  let ?N = "unat (rb_size rb)" and ?rb = "stored rb len bs (length bs)"
  have N: "length (rb_bytes rb) = ?N" "0 < ?N" by (simp_all add: wf rb_wf_length rb_wf_pos)
  note st = stored_slots [OF wf len order_refl]
  have l: "length (rb_bytes ?rb) = ?N" using st rb_wf_length [of ?rb] by (simp add: stored_def)
  have w: "write_p rb < ?N" "length bs \<le> ?N" using write_p_less [OF wf] len by (simp_all add: unat_available [OF wf])
  show ?thesis
  proof (rule nth_equalityI)
    fix p assume "p < length (rb_bytes ?rb)"
    then have p: "p < ?N" by (simp add: l)
    define i where "i = (p + ?N - write_p rb) mod ?N"
    have i: "i < ?N" "(write_p rb + i) mod ?N = p" using p w N by (simp_all add: i_def mod_add_right_eq)
    have "(unat (rb_write rb) + i) mod ?N = p" using i(2) by (simp add: write_p_eq [OF wf] mod_add_left_eq)
    moreover have "slot_at ?rb (unat (rb_write rb) + i) = (if i < length bs then bs ! i else slot_at rb (unat (rb_write rb) + i))"
      using st i(1) by blast
    moreover have "rb_size ?rb = rb_size rb" by (simp add: stored_def)
    ultimately have "rb_bytes ?rb ! p = (if i < length bs then bs ! i else rb_bytes rb ! p)" by (simp add: slot_at_def)
    then show "rb_bytes ?rb ! p = ring_store (rb_bytes rb) (write_p rb) bs ! p"
      using nth_ring_store [of "write_p rb" "rb_bytes rb" bs i] w i N by simp
  qed (use l w N in simp)
qed

lemma put_steps:
  assumes wf: "rb_wf (rt_ring s)" and idle: "rt_put s = Put_Idle" and len: "len \<noteq> 0" "unat len \<le> length buffer"
    and put: "kfifo_put (rt_ring s) buffer len = Inr (k, rb')"
  shows "ring_step\<^sup>*\<^sup>* s (s\<lparr>rt_ring := rb', rt_pushed := rt_pushed s @ take (unat k) buffer\<rparr>)"
proof -
  let ?rb = "rt_ring s"
  define n where "n = u_min len (rb_size ?rb - rb_write ?rb + rb_read ?rb)"
  let ?bs = "take (unat n) buffer"
  have n: "unat n = min (unat len) (unat (available ?rb))" unfolding n_def by (rule u_min_sample [OF wf])
  then have bs: "length ?bs = unat n" using len(2) by simp
  have "copy_in ?rb buffer n = Inr (ring_store (rb_bytes ?rb) (write_p ?rb) ?bs)"
    by (rule copy_in_ok [OF wf]) (use n len(2) in \<open>auto simp: unat_available [OF wf]\<close>)
  then have k: "k = n" and rb': "rb' = ?rb\<lparr>rb_bytes := ring_store (rb_bytes ?rb) (write_p ?rb) ?bs, rb_write := rb_write ?rb + n\<rparr>"
    using put len(1) by (auto simp: kfifo_put_def n_def [symmetric] Let_def)
  let ?s1 = "s\<lparr>rt_put := Put_Copy n ?bs {..<unat n}\<rparr>"
  have "ring_step s ?s1" by (rule put_sample [OF idle len n_def])
  moreover have "ring_step\<^sup>*\<^sup>* ?s1 (s\<lparr>rt_ring := stored ?rb n ?bs (unat n), rt_put := Put_Copy n ?bs {}\<rparr>)"
    using store_steps [of ?s1 n ?bs "unat n" "unat n"] by simp
  moreover have "stored ?rb n ?bs (unat n) = ?rb\<lparr>rb_bytes := ring_store (rb_bytes ?rb) (write_p ?rb) ?bs\<rparr>"
    using stored_all [OF wf, of n ?bs] bs n by (simp add: stored_def)
  ultimately have "ring_step\<^sup>*\<^sup>* s (s\<lparr>rt_ring := ?rb\<lparr>rb_bytes := ring_store (rb_bytes ?rb) (write_p ?rb) ?bs\<rparr>, rt_put := Put_Copy n ?bs {}\<rparr>)"
    by (metis converse_rtranclp_into_rtranclp)
  moreover have "ring_step (s\<lparr>rt_ring := ?rb\<lparr>rb_bytes := ring_store (rb_bytes ?rb) (write_p ?rb) ?bs\<rparr>, rt_put := Put_Copy n ?bs {}\<rparr>)
      (s\<lparr>rt_ring := rb', rt_put := Put_Idle, rt_pushed := rt_pushed s @ ?bs\<rparr>)"
    using put_publish [of "s\<lparr>rt_ring := ?rb\<lparr>rb_bytes := ring_store (rb_bytes ?rb) (write_p ?rb) ?bs\<rparr>, rt_put := Put_Copy n ?bs {}\<rparr>" n ?bs]
    by (simp add: rb')
  ultimately have "ring_step\<^sup>*\<^sup>* s (s\<lparr>rt_ring := rb', rt_put := Put_Idle, rt_pushed := rt_pushed s @ ?bs\<rparr>)"
    by (rule rtranclp.rtrancl_into_rtrancl)
  moreover have "s\<lparr>rt_ring := rb', rt_put := Put_Idle, rt_pushed := rt_pushed s @ ?bs\<rparr> =
      s\<lparr>rt_ring := rb', rt_pushed := rt_pushed s @ take (unat k) buffer\<rparr>" using idle by (simp add: k)
  ultimately show ?thesis by simp
qed

lemma load_steps:
  assumes wf: "rb_wf (rt_ring s)" and g: "rt_get s = Get_Copy len got {..<n}" and n: "unat len = n" "length got = n" "n \<le> length (rb_contents (rt_ring s))"
    and m: "m \<le> n"
  shows "ring_step\<^sup>*\<^sup>* s (s\<lparr>rt_get := Get_Copy len (take m (rb_contents (rt_ring s)) @ drop m got) {m..<n}\<rparr>)"
  using m
proof (induction m)
  case 0
  have "s\<lparr>rt_get := Get_Copy len got {0..<n}\<rparr> = s" using g by (simp add: atLeast0LessThan)
  then show ?case by simp
next
  case (Suc m)
  let ?c = "rb_contents (rt_ring s)"
  let ?s = "s\<lparr>rt_get := Get_Copy len (take m ?c @ drop m got) {m..<n}\<rparr>"
  have "get_slot (rt_ring s) len m = (unat (rb_read (rt_ring s)) + m) mod unat (rb_size (rt_ring s))"
    by (rule slots_eq(2) [OF wf]) (use n Suc.prems rb_wf_used_le [OF wf] in auto)
  then have load: "rb_bytes (rt_ring s) ! get_slot (rt_ring s) len m = ?c ! m"
    using nth_rb_contents_slot [OF wf, of m] n Suc.prems by (simp add: slot_at_def)
  have "(take m ?c @ drop m got)[m := ?c ! m] = take (Suc m) ?c @ drop (Suc m) got"
    using n Suc.prems by (auto simp: list_update_append take_Suc_conv_app_nth upd_conv_take_nth_drop Cons_nth_drop_Suc [symmetric])
  moreover have "{m..<n} - {m} = {Suc m..<n}" by auto
  ultimately have "ring_step ?s (?s\<lparr>rt_get := Get_Copy len (take (Suc m) ?c @ drop (Suc m) got) {Suc m..<n}\<rparr>)"
    using get_load [of ?s len "take m ?c @ drop m got" "{m..<n}" m] Suc.prems load by simp
  then show ?case using Suc by (simp add: rtranclp.rtrancl_into_rtrancl)
qed

lemma get_steps:
  assumes wf: "rb_wf (rt_ring s)" and idle: "rt_get s = Get_Idle" and len: "unat len \<le> length buffer"
    and get: "kfifo_get (rt_ring s) buffer len = Inr (k, buffer', rb')"
  shows "ring_step\<^sup>*\<^sup>* s (s\<lparr>rt_ring := rb', rt_popped := rt_popped s @ take (unat k) buffer'\<rparr>)"
proof (cases "rb_empty (rt_ring s)")
  case True
  then have "s\<lparr>rt_ring := rb', rt_popped := rt_popped s @ take (unat k) buffer'\<rparr> = s" using get by (auto simp: kfifo_get_def)
  then show ?thesis by simp
next
  case False
  let ?rb = "rt_ring s" and ?c = "rb_contents (rt_ring s)"
  define n where "n = u_min len (rb_write ?rb - rb_read ?rb)"
  have n: "unat n = min (unat len) (length ?c)" by (simp add: n_def unat_u_min used_def)
  then have "copy_out ?rb buffer n = Inr (overwrite buffer 0 (take (unat n) ?c))"
    using copy_out_ok [OF wf, of n buffer] len by simp
  then have k: "k = n" and b': "buffer' = overwrite buffer 0 (take (unat n) ?c)" and rb': "rb' = ?rb\<lparr>rb_read := rb_read ?rb + n\<rparr>"
    using get False by (auto simp: kfifo_get_def n_def [symmetric] Let_def)
  have got: "take (unat k) buffer' = take (unat n) ?c" using n len by (simp add: k b' overwrite_def)
  let ?s1 = "s\<lparr>rt_get := Get_Sample len buffer\<rparr>" and ?s2 = "s\<lparr>rt_get := Get_Copy n (take (unat n) buffer) {..<unat n}\<rparr>"
  let ?s3 = "s\<lparr>rt_get := Get_Copy n (take (unat n) ?c) {}\<rparr>"
  have "ring_step s ?s1" by (rule get_test [OF idle False len])
  moreover have "ring_step ?s1 ?s2" using get_sample [of ?s1 len buffer n] by (simp add: n_def)
  moreover have "ring_step\<^sup>*\<^sup>* ?s2 ?s3"
    using load_steps [of ?s2 n "take (unat n) buffer" "unat n" "unat n"] wf n len by simp
  moreover have "ring_step ?s3 (s\<lparr>rt_ring := rb', rt_get := Get_Idle, rt_popped := rt_popped s @ take (unat n) ?c\<rparr>)"
    using get_advance [of ?s3 n "take (unat n) ?c"] by (simp add: rb')
  ultimately have "ring_step\<^sup>*\<^sup>* s (s\<lparr>rt_ring := rb', rt_get := Get_Idle, rt_popped := rt_popped s @ take (unat n) ?c\<rparr>)"
    by (meson converse_rtranclp_into_rtranclp rtranclp.rtrancl_into_rtrancl)
  moreover have "s\<lparr>rt_ring := rb', rt_get := Get_Idle, rt_popped := rt_popped s @ take (unat n) ?c\<rparr> =
      s\<lparr>rt_ring := rb', rt_popped := rt_popped s @ take (unat k) buffer'\<rparr>" using idle by (simp add: got)
  ultimately show ?thesis by simp
qed

section \<open>What two threads may rely on\<close>

lemma size_reach: "ring_step\<^sup>*\<^sup>* s0 s \<Longrightarrow> rb_size (rt_ring s) = rb_size (rt_ring s0)"
  by (induction rule: rtranclp_induct) (auto elim!: ring_step.cases)

lemma copies_apart:
  assumes inv: "threads_inv s" and p: "rt_put s = Put_Copy len bs todo" "j \<in> todo" and g: "rt_get s = Get_Copy len' got todo'" "i \<in> todo'"
  shows "put_slot (rt_ring s) len j \<noteq> get_slot (rt_ring s) len' i"
proof -
  let ?rb = "rt_ring s"
  have wf: "rb_wf ?rb" and P: "unat len = length bs" "length bs \<le> unat (available ?rb)" "j < length bs"
    and G: "unat len' = length got" "length got \<le> unat (used ?rb)" "i < length got"
    using inv p g by (auto simp: threads_inv_def)
  have "put_slot ?rb len j = (unat (rb_write ?rb) + j) mod unat (rb_size ?rb)"
    by (rule slots_eq(1) [OF wf]) (use P in \<open>auto simp: unat_available [OF wf]\<close>)
  moreover have "get_slot ?rb len' i = (unat (rb_read ?rb) + i) mod unat (rb_size ?rb)"
    by (rule slots_eq(2) [OF wf]) (use G rb_wf_used_le [OF wf] in auto)
  ultimately show ?thesis using free_slot [OF wf, of i j] P G by simp
qed

text \<open>C16. One thread puts and one gets, without a lock, on a new ring. However the accesses of their calls interleave
  (the reads of the indices, the single bytes of the copies in any order, the stores of the indices), the
  bytes got are the first bytes put and the ring holds exactly the others, never more than its size; and
  no byte of the array is written by one copy while the other still has to read it.\<close>

theorem ring_threads_correct:
  assumes "ring_buffer_new fresh n = Inr rb" and "ring_step\<^sup>*\<^sup>* (threads_start rb) s"
  shows "rt_pushed s = rt_popped s @ rb_contents (rt_ring s) \<and> length (rb_contents (rt_ring s)) \<le> unat n \<and>
    (\<forall>len bs todo j len' got todo' i. rt_put s = Put_Copy len bs todo \<and> j \<in> todo \<and> rt_get s = Get_Copy len' got todo' \<and> i \<in> todo' \<longrightarrow>
      put_slot (rt_ring s) len j \<noteq> get_slot (rt_ring s) len' i)"
proof -
  have rb: "rb_wf rb" "rb_contents rb = []" "rb_size rb = n" using ring_buffer_new_empty [OF assms(1)] assms(1) by (auto simp: ring_buffer_new_Inr)
  have inv: "threads_inv s" by (rule threads_inv_reach [OF assms(2) threads_inv_start [OF rb(1,2)]])
  then have "rb_wf (rt_ring s)" "rt_pushed s = rt_popped s @ rb_contents (rt_ring s)" by (simp_all add: threads_inv_def)
  moreover have "rb_size (rt_ring s) = n" using size_reach [OF assms(2)] rb(3) by (simp add: threads_start_def)
  ultimately show ?thesis using rb_wf_used_le [of "rt_ring s"] copies_apart [OF inv] by auto
qed

text \<open>A ring of two bytes, one of them put, and both threads in the middle of a copy.\<close>

definition busy_ring :: ring_buffer where
  "busy_ring = \<lparr>rb_size = 2, rb_bytes = [9, 0], rb_write = 1, rb_read = 0\<rparr>"

lemma busy_reach:
  "ring_step\<^sup>*\<^sup>* (threads_start \<lparr>rb_size = 2, rb_bytes = [0, 0], rb_write = 0, rb_read = 0\<rparr>)
    \<lparr>rt_ring = busy_ring, rt_put = Put_Copy 1 [8] {..<1}, rt_get = Get_Copy 1 [7] {..<1}, rt_pushed = [9], rt_popped = []\<rparr>"
proof -
  let ?r0 = "\<lparr>rb_size = 2, rb_bytes = [0, 0], rb_write = 0, rb_read = 0\<rparr>"
  let ?s = "\<lambda>p g. \<lparr>rt_ring = busy_ring, rt_put = p, rt_get = g, rt_pushed = [9], rt_popped = []\<rparr>"
  have wf: "rb_wf ?r0" by (simp add: rb_wf_def used_def is_power_of_2_def)
  have "kfifo_put ?r0 [9] 1 = Inr (1, busy_ring)"
    by (simp add: kfifo_put_def copy_in_def busy_ring_def u_min_def memcpy_def mem_read_def mem_write_def overwrite_def)
  then have "ring_step\<^sup>*\<^sup>* (threads_start ?r0) (?s Put_Idle Get_Idle)"
    using put_steps [of "threads_start ?r0" 1 "[9]" 1 busy_ring] wf by (simp add: threads_start_def)
  moreover have "ring_step (?s Put_Idle Get_Idle) (?s (Put_Copy 1 [8] {..<1}) Get_Idle)"
    using put_sample [of "?s Put_Idle Get_Idle" 1 "[8]" 1] by (simp add: busy_ring_def u_min_def)
  moreover have "ring_step (?s (Put_Copy 1 [8] {..<1}) Get_Idle) (?s (Put_Copy 1 [8] {..<1}) (Get_Sample 1 [7]))"
    using get_test [of "?s (Put_Copy 1 [8] {..<1}) Get_Idle" 1 "[7]"] by (simp add: busy_ring_def rb_empty_def used_def)
  moreover have "ring_step (?s (Put_Copy 1 [8] {..<1}) (Get_Sample 1 [7])) (?s (Put_Copy 1 [8] {..<1}) (Get_Copy 1 [7] {..<1}))"
    using get_sample [of "?s (Put_Copy 1 [8] {..<1}) (Get_Sample 1 [7])" 1 "[7]" 1] by (simp add: busy_ring_def u_min_def)
  ultimately show ?thesis by (meson rtranclp.rtrancl_into_rtrancl)
qed

theorem ring_threads_correct_witness:
  "[9] = [] @ rb_contents busy_ring \<and> length (rb_contents busy_ring) \<le> 2 \<and> put_slot busy_ring 1 0 \<noteq> get_slot busy_ring 1 0"
proof -
  have upt: "[0..<2] = [0, 1 :: nat]" by (simp add: upt_conv_Cons)
  have "ring_buffer_new (\<lambda>_. 0) 2 = Inr \<lparr>rb_size = 2, rb_bytes = [0, 0], rb_write = 0, rb_read = 0\<rparr>"
    by (simp add: ring_buffer_new_def is_power_of_2_def upt)
  from ring_threads_correct [OF this busy_reach] show ?thesis by auto
qed

end
