(* ===== verification/Lock_Free_Queue.thy ===== *)
theory Lock_Free_Queue
  imports Fifo
begin

text \<open>
  The single-producer, single-consumer queue of \<open>src/leo_lock_free_queue.h\<close>. The theory
  holds the class template with all its operations, its behaviour as a bounded FIFO when
  calls do not overlap, and a step relation in which one producer and one consumer
  interleave between the accesses each operation makes to the shared members.
\<close>

section \<open>The class template\<close>

text \<open>The template argument \<open>n\<close>, an \<open>int\<close> that every comparison converts to
  \<open>unsigned\<close>, is an argument of the operations.\<close>

record 'a lf_queue =
  lq_slots :: "'a list"   \<comment> \<open>\<open>__queue\<close>\<close>
  lq_push :: u32          \<comment> \<open>\<open>__push_index\<close>\<close>
  lq_pop :: u32           \<comment> \<open>\<open>__pop_index\<close>\<close>

text \<open>\<open>memset\<close> writes zero bytes over the array: \<open>zero\<close> is the element those bytes make.\<close>

definition init_queue :: "'a \<Rightarrow> 'a lf_queue \<Rightarrow> 'a lf_queue" where
  "init_queue zero q = q\<lparr>lq_push := 0, lq_pop := 0, lq_slots := map (\<lambda>_. zero) (lq_slots q)\<rparr>"

definition push_back :: "u32 \<Rightarrow> 'a lf_queue \<Rightarrow> 'a \<Rightarrow> bool \<times> 'a lf_queue" where
  "push_back n q x =
     (if lq_push q - lq_pop q < n
      then (True, q\<lparr>lq_slots := (lq_slots q)[unat (lq_push q AND (n - 1)) := x],
                    lq_push := lq_push q + 1\<rparr>)
      else (False, q))"

text \<open>\<open>pop_front\<close> assigns through its reference argument: the second component is the
  referenced variable afterwards, \<open>None\<close> where the code leaves it as it was.\<close>

definition pop_front :: "u32 \<Rightarrow> 'a lf_queue \<Rightarrow> bool \<times> 'a option \<times> 'a lf_queue" where
  "pop_front n q =
     (if lq_push q \<noteq> lq_pop q
      then (True, Some (lq_slots q ! unat (lq_pop q AND (n - 1))), q\<lparr>lq_pop := lq_pop q + 1\<rparr>)
      else (False, None, q))"

definition lq_empty :: "'a lf_queue \<Rightarrow> 'a lf_queue" where
  "lq_empty q = q\<lparr>lq_push := 0, lq_pop := 0\<rparr>"

definition is_empty :: "'a lf_queue \<Rightarrow> bool" where
  "is_empty q \<longleftrightarrow> lq_push q = lq_pop q"

definition is_full :: "u32 \<Rightarrow> 'a lf_queue \<Rightarrow> bool" where
  "is_full n q \<longleftrightarrow> n \<le> lq_push q - lq_pop q"

section \<open>Invariant and contents\<close>

definition lq_wf :: "u32 \<Rightarrow> 'a lf_queue \<Rightarrow> bool" where
  "lq_wf n q \<longleftrightarrow> is_power_of_2 n \<and> length (lq_slots q) = unat n \<and> lq_push q - lq_pop q \<le> n"

definition lq_contents :: "'a lf_queue \<Rightarrow> 'a list" where
  "lq_contents q = ring_slice (lq_slots q) (unat (lq_pop q)) (unat (lq_push q - lq_pop q))"

lemma length_lq_contents [simp]: "length (lq_contents q) = unat (lq_push q - lq_pop q)"
  by (simp add: lq_contents_def)

lemma lq_wf_le: "lq_wf n q \<Longrightarrow> unat (lq_push q - lq_pop q) \<le> unat n"
  by (simp add: lq_wf_def word_le_nat_alt)

lemma lq_contents_Nil: "lq_contents q = [] \<longleftrightarrow> lq_push q = lq_pop q"
  by (simp flip: length_0_conv add: unat_eq_zero)

lemma unat_add_1_less: "unat d < unat n \<Longrightarrow> unat (d + 1) = Suc (unat d)" for d n :: u32
proof -
  assume "unat d < unat n"
  then have "unat d + 1 < 2 ^ 32" using unsigned_less [of n, where ?'a = nat] by simp
  then show ?thesis by (simp add: unat_word_ariths)
qed

text \<open>A one-element write at the push index is a \<^const>\<open>ring_store\<close>.\<close>

lemma ring_store_1: "off < length xs \<Longrightarrow> ring_store xs off [x] = xs[off := x]"
  by (simp add: ring_store_def Let_def overwrite_def min_def upd_conv_take_nth_drop)

lemma push_store:
  assumes wf: "lq_wf n q" and room: "lq_push q - lq_pop q < n"
    and q': "q' = q\<lparr>lq_slots := (lq_slots q)[unat (lq_push q AND (n - 1)) := x], lq_push := lq_push q + 1\<rparr>"
  shows "lq_wf n q'" and "lq_contents q' = lq_contents q @ [x]"
proof -
  let ?xs = "lq_slots q" and ?d = "unat (lq_push q - lq_pop q)" and ?p = "unat (lq_pop q)"
  have p: "is_power_of_2 n" and l: "length ?xs = unat n" using wf by (auto simp: lq_wf_def)
  have d: "?d < unat n" using room by (simp add: word_less_nat_alt)
  have "lq_push q' - lq_pop q' = lq_push q - lq_pop q + 1" by (simp add: q')
  then have d': "unat (lq_push q' - lq_pop q') = Suc ?d" using unat_add_1_less [OF d] by simp
  have "lq_push q = lq_pop q + (lq_push q - lq_pop q)" by simp
  then have off: "unat (lq_push q AND (n - 1)) = (?p + ?d) mod length ?xs"
    using unat_add_mod_power_of_2 [OF p, of "lq_pop q" "lq_push q - lq_pop q"]
    by (simp add: unat_and_mask_mod [OF p] l)
  have lt: "(?p + ?d) mod length ?xs < length ?xs" using d l by simp
  have s: "lq_slots q' = ring_store ?xs ((?p + ?d) mod length ?xs) [x]"
    by (simp add: q' off ring_store_1 [OF lt])
  show "lq_wf n q'" using p l d d' lt by (simp add: lq_wf_def word_le_nat_alt s)
  have "lq_contents q' = ring_slice (lq_slots q') ?p ?d @ ring_slice (lq_slots q') (?p + ?d) 1"
    unfolding lq_contents_def d' using ring_slice_append [of "lq_slots q'" ?p ?d 1] by (simp add: q')
  also have "ring_slice (lq_slots q') ?p ?d = lq_contents q"
    using ring_slice_store_other [of ?d "[x]" ?xs ?p] d l by (simp add: s lq_contents_def)
  also have "ring_slice (lq_slots q') (?p + ?d) 1 = [x]"
    using ring_slice_store_same [OF lt, of "[x]"] ring_slice_mod [of "lq_slots q'" "?p + ?d" 1] lt d l
    by (simp add: s)
  finally show "lq_contents q' = lq_contents q @ [x]" .
qed

lemma pop_advance:
  assumes wf: "lq_wf n q" and ne: "lq_push q \<noteq> lq_pop q"
    and q': "q' = q\<lparr>lq_pop := lq_pop q + 1\<rparr>"
  shows "lq_wf n q'"
    and "lq_contents q = lq_slots q ! unat (lq_pop q AND (n - 1)) # lq_contents q'"
proof -
  let ?xs = "lq_slots q" and ?d = "unat (lq_push q - lq_pop q)" and ?p = "unat (lq_pop q)"
  have p: "is_power_of_2 n" and l: "length ?xs = unat n" using wf by (auto simp: lq_wf_def)
  have d0: "lq_push q - lq_pop q \<noteq> 0" using ne by simp
  then have "0 < ?d" by (simp add: unat_gt_0)
  have "lq_push q' - lq_pop q' = lq_push q - lq_pop q - 1" by (simp add: q')
  then have d': "unat (lq_push q' - lq_pop q') = ?d - 1" using unat_minus_one [OF d0] by simp
  show "lq_wf n q'" using wf d' by (auto simp: lq_wf_def word_le_nat_alt q')
  have "lq_contents q = ring_slice ?xs ?p 1 @ ring_slice ?xs (?p + 1) (?d - 1)"
    using ring_slice_append [of ?xs ?p 1 "?d - 1"] \<open>0 < ?d\<close> by (simp add: lq_contents_def)
  also have "ring_slice ?xs ?p 1 = [?xs ! unat (lq_pop q AND (n - 1))]"
    by (simp add: ring_slice_def unat_and_mask_mod [OF p] l)
  also have "ring_slice ?xs (?p + 1) (?d - 1) = lq_contents q'"
    using unat_add_mod_power_of_2 [OF p, of "lq_pop q" 1] ring_slice_mod [of ?xs] l
    by (metis (no_types, lifting) d' lf_queue.select_convs(1,3) lf_queue.surjective
        lf_queue.update_convs(3) lq_contents_def q' unsigned_1)
  finally show "lq_contents q = lq_slots q ! unat (lq_pop q AND (n - 1)) # lq_contents q'" by simp
qed

section \<open>The queue is a bounded FIFO\<close>

lemma push_back_spec:
  assumes "lq_wf n q"
  shows "fst (push_back n q x) \<longleftrightarrow> length (lq_contents q) < unat n"
    and "lq_wf n (snd (push_back n q x))"
    and "lq_contents (snd (push_back n q x)) =
      (if length (lq_contents q) < unat n then lq_contents q @ [x] else lq_contents q)"
    and "\<not> length (lq_contents q) < unat n \<Longrightarrow> push_back n q x = (False, q)"
  using assms push_store [OF assms _ refl, of x] by (auto simp: push_back_def word_less_nat_alt)

lemma pop_front_spec:
  assumes "lq_wf n q"
  shows "lq_contents q = [] \<Longrightarrow> pop_front n q = (False, None, q)"
    and "lq_contents q = x # xs \<Longrightarrow>
      \<exists>q'. pop_front n q = (True, Some x, q') \<and> lq_contents q' = xs \<and> lq_wf n q'"
  using assms pop_advance [OF assms _ refl]
  by (auto simp: pop_front_def lq_contents_Nil) (metis list.distinct(1) lq_contents_Nil list.inject)+

lemma pop_front_wf: "lq_wf n q \<Longrightarrow> lq_wf n (snd (snd (pop_front n q)))"
  using pop_front_spec [of n q] by (cases "lq_contents q") auto

text \<open>The reference result of \<open>pop_front\<close> seen as the element delivered.\<close>

definition lq_deq :: "u32 \<Rightarrow> 'a lf_queue \<Rightarrow> 'a option \<times> 'a lf_queue" where
  "lq_deq n q = snd (pop_front n q)"

interpretation lq: fifo "lq_wf n" lq_contents "\<lambda>_. unat n" "push_back n" "lq_deq n" for n
proof (unfold_locales, goal_cases)
  case (1 q)
  then show ?case using lq_wf_le by simp
next
  case (6 q)
  then show ?case using pop_front_spec(1) [of n q] by (simp add: lq_deq_def)
next
  case (7 q x xs)
  then show ?case using pop_front_spec(2) [of n q x xs] by (auto simp: lq_deq_def)
qed (auto simp: push_back_spec lq_deq_def pop_front_wf)

section \<open>One producer and one consumer, interleaved\<close>

text \<open>
  Between the accesses a call makes to the shared members, the other thread may run. The
  producer's program points are before its test, before its store to the slot and before its
  increment of the push index; the consumer's are before its test, before its load of the slot
  and before its increment of the pop index. Each thread's own index is written by that thread
  only, so an increment is one store. Memory is sequentially consistent here: the code has no
  barrier or atomic type that would ask for more. The ghost lists record what the completed
  calls pushed and popped.
\<close>

datatype 'a producer = P_Idle | P_Store 'a | P_Publish 'a
datatype 'a consumer = C_Idle | C_Load | C_Advance 'a

record 'a spsc =
  sp_queue :: "'a lf_queue"
  sp_producer :: "'a producer"
  sp_consumer :: "'a consumer"
  sp_pushed :: "'a list"
  sp_popped :: "'a list"

inductive spsc_step :: "u32 \<Rightarrow> 'a spsc \<Rightarrow> 'a spsc \<Rightarrow> bool" for n :: u32 where
  push_test: "sp_producer s = P_Idle \<Longrightarrow> lq_push (sp_queue s) - lq_pop (sp_queue s) < n \<Longrightarrow>
    spsc_step n s (s\<lparr>sp_producer := P_Store x\<rparr>)"
| push_refused: "sp_producer s = P_Idle \<Longrightarrow> \<not> lq_push (sp_queue s) - lq_pop (sp_queue s) < n \<Longrightarrow>
    spsc_step n s s"
| push_slot: "sp_producer s = P_Store x \<Longrightarrow>
    spsc_step n s (s\<lparr>sp_queue := (sp_queue s)\<lparr>lq_slots :=
        (lq_slots (sp_queue s))[unat (lq_push (sp_queue s) AND (n - 1)) := x]\<rparr>,
      sp_producer := P_Publish x\<rparr>)"
| push_publish: "sp_producer s = P_Publish x \<Longrightarrow>
    spsc_step n s (s\<lparr>sp_queue := (sp_queue s)\<lparr>lq_push := lq_push (sp_queue s) + 1\<rparr>,
      sp_producer := P_Idle, sp_pushed := sp_pushed s @ [x]\<rparr>)"
| pop_test: "sp_consumer s = C_Idle \<Longrightarrow> lq_push (sp_queue s) \<noteq> lq_pop (sp_queue s) \<Longrightarrow>
    spsc_step n s (s\<lparr>sp_consumer := C_Load\<rparr>)"
| pop_refused: "sp_consumer s = C_Idle \<Longrightarrow> lq_push (sp_queue s) = lq_pop (sp_queue s) \<Longrightarrow>
    spsc_step n s s"
| pop_load: "sp_consumer s = C_Load \<Longrightarrow>
    spsc_step n s (s\<lparr>sp_consumer :=
      C_Advance (lq_slots (sp_queue s) ! unat (lq_pop (sp_queue s) AND (n - 1)))\<rparr>)"
| pop_advance_index: "sp_consumer s = C_Advance x \<Longrightarrow>
    spsc_step n s (s\<lparr>sp_queue := (sp_queue s)\<lparr>lq_pop := lq_pop (sp_queue s) + 1\<rparr>,
      sp_consumer := C_Idle, sp_popped := sp_popped s @ [x]\<rparr>)"

inductive_cases spsc_stepE: "spsc_step n s t"

definition spsc_init :: "'a lf_queue \<Rightarrow> 'a spsc" where
  "spsc_init q = \<lparr>sp_queue = q, sp_producer = P_Idle, sp_consumer = C_Idle,
                  sp_pushed = [], sp_popped = []\<rparr>"

inductive spsc_reach :: "u32 \<Rightarrow> 'a spsc \<Rightarrow> 'a spsc \<Rightarrow> bool" for n :: u32 and s0 :: "'a spsc" where
  reach_start: "spsc_reach n s0 s0"
| reach_step: "spsc_reach n s0 s \<Longrightarrow> spsc_step n s t \<Longrightarrow> spsc_reach n s0 t"

text \<open>The invariant ties each program point to the contents of the queue.\<close>

fun producer_inv :: "u32 \<Rightarrow> 'a lf_queue \<Rightarrow> 'a producer \<Rightarrow> bool" where
  "producer_inv n q P_Idle = True"
| "producer_inv n q (P_Store x) = (lq_push q - lq_pop q < n)"
| "producer_inv n q (P_Publish x) =
     (lq_push q - lq_pop q < n \<and> lq_slots q ! unat (lq_push q AND (n - 1)) = x)"

fun consumer_inv :: "'a lf_queue \<Rightarrow> 'a consumer \<Rightarrow> bool" where
  "consumer_inv q C_Idle = True"
| "consumer_inv q C_Load = (lq_contents q \<noteq> [])"
| "consumer_inv q (C_Advance x) = (\<exists>xs. lq_contents q = x # xs)"

definition spsc_inv :: "u32 \<Rightarrow> 'a spsc \<Rightarrow> bool" where
  "spsc_inv n s \<longleftrightarrow> lq_wf n (sp_queue s) \<and> producer_inv n (sp_queue s) (sp_producer s) \<and>
     consumer_inv (sp_queue s) (sp_consumer s) \<and>
     sp_pushed s = sp_popped s @ lq_contents (sp_queue s)"

lemma slot_index_less: "lq_wf n q \<Longrightarrow> unat (i AND (n - 1)) < length (lq_slots q)"
  by (simp add: lq_wf_def unat_and_mask_mod power_of_2_pos)

text \<open>A store to the slot of the push index leaves the contents alone while there is room.\<close>

lemma store_keeps_contents:
  assumes wf: "lq_wf n q" and room: "lq_push q - lq_pop q < n"
    and q': "q' = q\<lparr>lq_slots := (lq_slots q)[unat (lq_push q AND (n - 1)) := x]\<rparr>"
  shows "lq_wf n q'" and "lq_contents q' = lq_contents q"
proof -
  let ?d = "unat (lq_push q - lq_pop q)"
  let ?q = "q\<lparr>lq_slots := (lq_slots q)[unat (lq_push q AND (n - 1)) := x], lq_push := lq_push q + 1\<rparr>"
  show "lq_wf n q'" using wf by (simp add: lq_wf_def q')
  have "lq_push q + 1 - lq_pop q = (lq_push q - lq_pop q) + 1" by simp
  then have d: "unat (lq_push q + 1 - lq_pop q) = Suc ?d"
    using room unat_add_1_less by (simp only: word_less_nat_alt)
  then have "lq_contents ?q = ring_slice (lq_slots q') (unat (lq_pop q)) (Suc ?d)"
    by (simp add: lq_contents_def q')
  then have "lq_contents q' = take ?d (lq_contents ?q)"
    by (simp add: lq_contents_def q' take_ring_slice)
  also have "\<dots> = lq_contents q" using push_store(2) [OF wf room refl, of x] by simp
  finally show "lq_contents q' = lq_contents q" .
qed

text \<open>Publishing the stored element appends it.\<close>

lemma publish_appends:
  assumes wf: "lq_wf n q" and room: "lq_push q - lq_pop q < n"
    and x: "lq_slots q ! unat (lq_push q AND (n - 1)) = x"
    and q': "q' = q\<lparr>lq_push := lq_push q + 1\<rparr>"
  shows "lq_wf n q'" and "lq_contents q' = lq_contents q @ [x]"
proof -
  have "q' = q\<lparr>lq_slots := (lq_slots q)[unat (lq_push q AND (n - 1)) := x], lq_push := lq_push q + 1\<rparr>"
    using x by (auto simp: q')
  from push_store [OF wf room this] show "lq_wf n q'" and "lq_contents q' = lq_contents q @ [x]" .
qed

lemma consumer_inv_mono: "consumer_inv q c \<Longrightarrow> lq_contents q' = lq_contents q @ ys \<Longrightarrow> consumer_inv q' c"
  by (cases c) auto

lemma spsc_inv_step:
  assumes "spsc_step n s t" and "spsc_inv n s"
  shows "spsc_inv n t"
  using assms(1)
proof (cases rule: spsc_step.cases)
  case (push_slot x)
  let ?q = "sp_queue s"
  let ?q' = "?q\<lparr>lq_slots := (lq_slots ?q)[unat (lq_push ?q AND (n - 1)) := x]\<rparr>"
  have wf: "lq_wf n ?q" and room: "lq_push ?q - lq_pop ?q < n"
    using assms(2) push_slot by (auto simp: spsc_inv_def)
  from store_keeps_contents [OF wf room refl, of x] slot_index_less [OF wf]
  show ?thesis using assms(2) push_slot room
    by (auto simp: spsc_inv_def intro: consumer_inv_mono [where ys = "[]"])
next
  case (push_publish x)
  let ?q = "sp_queue s"
  have "lq_wf n ?q" "lq_push ?q - lq_pop ?q < n" "lq_slots ?q ! unat (lq_push ?q AND (n - 1)) = x"
    using assms(2) push_publish by (auto simp: spsc_inv_def)
  from publish_appends [OF this refl] show ?thesis
    using assms(2) push_publish by (auto simp: spsc_inv_def intro: consumer_inv_mono)
next
  case pop_load
  let ?q = "sp_queue s"
  have wf: "lq_wf n ?q" and "lq_push ?q \<noteq> lq_pop ?q"
    using assms(2) pop_load by (auto simp: spsc_inv_def lq_contents_Nil)
  from pop_advance(2) [OF this refl] show ?thesis
    using assms(2) pop_load by (auto simp: spsc_inv_def)
next
  case (pop_advance_index x)
  let ?q = "sp_queue s"
  have wf: "lq_wf n ?q" and ne: "lq_push ?q \<noteq> lq_pop ?q"
    using assms(2) pop_advance_index lq_contents_Nil [of ?q] by (auto simp: spsc_inv_def)
  have "producer_inv n (?q\<lparr>lq_pop := lq_pop ?q + 1\<rparr>) (sp_producer s)"
  proof -
    have "lq_push ?q - (lq_pop ?q + 1) < n" if "lq_push ?q - lq_pop ?q < n"
      using that unat_minus_one [of "lq_push ?q - lq_pop ?q"] ne
      by (simp add: word_less_nat_alt diff_diff_eq)
    then show ?thesis using assms(2) by (cases "sp_producer s") (auto simp: spsc_inv_def)
  qed
  with pop_advance [OF wf ne refl] show ?thesis
    using assms(2) pop_advance_index by (auto simp: spsc_inv_def)
qed (use assms(2) in \<open>auto simp: spsc_inv_def lq_contents_Nil\<close>)

lemma spsc_inv_init: "lq_wf n q \<Longrightarrow> lq_contents q = [] \<Longrightarrow> spsc_inv n (spsc_init q)"
  by (simp add: spsc_inv_def spsc_init_def)

lemma spsc_inv_reach:
  "spsc_reach n (spsc_init q) s \<Longrightarrow> lq_wf n q \<Longrightarrow> lq_contents q = [] \<Longrightarrow> spsc_inv n s"
  by (induction rule: spsc_reach.induct) (auto intro: spsc_inv_init spsc_inv_step)

section \<open>What the queue promises\<close>

lemma init_queue_empty:
  "is_power_of_2 n \<Longrightarrow> length (lq_slots q) = unat n \<Longrightarrow>
     lq_wf n (init_queue z q) \<and> lq_contents (init_queue z q) = []"
  by (simp add: lq_wf_def init_queue_def lq_contents_def)

text \<open>C17. From \<open>init_queue\<close> on, over any sequence of \<open>push_back\<close> and \<open>pop_front\<close> calls, the elements
  accepted are the elements delivered followed by those still queued, and at most \<open>n\<close> are queued.\<close>

theorem lf_queue_stream:
  assumes "is_power_of_2 n" and "length (lq_slots q) = unat n"
    and "fifo_run (push_back n) (lq_deq n) (init_queue z q) cs = (accepted, delivered, q')"
  shows "accepted = delivered @ lq_contents q' \<and> length accepted \<le> length delivered + unat n"
  using init_queue_empty [OF assms(1,2), of z] lq.run_from_empty [OF _ _ assms(3)] by simp

theorem lf_queue_stream_witness:
  "let q = init_queue 0 \<lparr>lq_slots = [7, 7 :: nat], lq_push = 5, lq_pop = 1\<rparr>;
       (accepted, delivered, q') = fifo_run (push_back 2) (lq_deq 2) q [Enq 1, Enq 2, Enq 3, Deq, Enq 4, Deq, Deq]
   in accepted = delivered @ lq_contents q' \<and> delivered = [1, 2, 4]"
proof -
  let ?q = "\<lparr>lq_slots = [7, 7 :: nat], lq_push = 5, lq_pop = 1\<rparr>"
  let ?cs = "[Enq 1, Enq 2, Enq 3, Deq, Enq 4, Deq, Deq] :: nat fifo_call list"
  obtain a d q' where r: "fifo_run (push_back 2) (lq_deq 2) (init_queue 0 ?q) ?cs = (a, d, q')"
    by (cases "fifo_run (push_back 2) (lq_deq 2) (init_queue 0 ?q) ?cs")
  have "d = fst (snd (fifo_run (push_back 2) (lq_deq 2) (init_queue 0 ?q) ?cs))"
    by (simp only: r fst_conv snd_conv)
  also have "\<dots> = [1, 2, 4]" by code_simp
  finally have d: "d = [1, 2, 4]" .
  have "a = d @ lq_contents q'"
    using lf_queue_stream [OF _ _ r] by (simp add: is_power_of_2_def)
  then show ?thesis by (simp only: r Let_def prod.case d)
qed

text \<open>\<open>is_full\<close> and \<open>is_empty\<close> decide what the next call does: \<open>push_back\<close> is refused exactly on a full
  queue and \<open>pop_front\<close> exactly on an empty one, and a refused call changes nothing.\<close>

theorem full_and_empty_decide:
  assumes "lq_wf n q"
  shows "(is_full n q = (length (lq_contents q) = unat n)) \<and> (is_empty q = (lq_contents q = [])) \<and>
    fst (push_back n q x) = (\<not> is_full n q) \<and> fst (pop_front n q) = (\<not> is_empty q) \<and>
    (if is_full n q then snd (push_back n q x) = q else lq_contents (snd (push_back n q x)) = lq_contents q @ [x]) \<and>
    (if is_empty q then snd (pop_front n q) = (None, q)
     else fst (snd (pop_front n q)) = Some (hd (lq_contents q)) \<and>
       lq_contents (snd (snd (pop_front n q))) = tl (lq_contents q))"
proof -
  have "is_full n q = (length (lq_contents q) = unat n)"
    using lq_wf_le [OF assms] by (auto simp: is_full_def word_le_nat_alt)
  moreover have "is_empty q = (lq_contents q = [])" by (simp add: is_empty_def lq_contents_Nil)
  moreover have "fst (push_back n q x) = (\<not> is_full n q)" "is_full n q \<Longrightarrow> snd (push_back n q x) = q"
    by (auto simp: push_back_def is_full_def)
  moreover have "\<not> is_full n q \<Longrightarrow> lq_contents (snd (push_back n q x)) = lq_contents q @ [x]"
    using push_back_spec(3) [OF assms, of x] by (simp add: is_full_def word_less_nat_alt word_le_nat_alt)
  moreover have "lq_contents q \<noteq> [] \<Longrightarrow> \<exists>q'. pop_front n q = (True, Some (hd (lq_contents q)), q') \<and>
      lq_contents q' = tl (lq_contents q)"
    using pop_front_spec(2) [OF assms, of "hd (lq_contents q)" "tl (lq_contents q)"] by auto
  ultimately show ?thesis using pop_front_spec(1) [OF assms] by (cases "lq_contents q") auto
qed

theorem full_and_empty_decide_witness:
  "let q = \<lparr>lq_slots = [8, 9 :: nat], lq_push = 1, lq_pop = 0xFFFFFFFF\<rparr>
   in is_full 2 q \<and> fst (push_back 2 q 5) = False \<and> fst (pop_front 2 q)"
proof -
  let ?q = "\<lparr>lq_slots = [8, 9 :: nat], lq_push = 1, lq_pop = 0xFFFFFFFF\<rparr>"
  have "lq_wf 2 ?q" by (simp add: lq_wf_def is_power_of_2_def)
  from full_and_empty_decide [OF this, of 5] show ?thesis by (simp add: is_full_def is_empty_def)
qed

text \<open>C18. However the steps of one producer and one consumer interleave, starting from an initialised
  queue, what the consumer has taken is a prefix of what the producer has published: the rest is
  exactly the contents of the queue, at most \<open>n\<close> elements.\<close>

theorem spsc_fifo:
  assumes "is_power_of_2 n" and "length (lq_slots q) = unat n"
    and "spsc_reach n (spsc_init (init_queue z q)) s"
  shows "sp_pushed s = sp_popped s @ lq_contents (sp_queue s) \<and> length (lq_contents (sp_queue s)) \<le> unat n"
proof -
  have "spsc_inv n s"
    using init_queue_empty [OF assms(1,2), of z] by (intro spsc_inv_reach [OF assms(3)]) simp_all
  then show ?thesis using lq_wf_le [of n "sp_queue s"] by (simp add: spsc_inv_def)
qed

text \<open>C19. A store and a load in flight at the same time never touch the same slot: the data race the
  missing lock could allow is excluded by the two tests.\<close>

theorem spsc_no_slot_race:
  assumes "is_power_of_2 n" and "length (lq_slots q) = unat n"
    and "spsc_reach n (spsc_init (init_queue z q)) s"
    and "sp_producer s = P_Store x" and "sp_consumer s = C_Load"
  shows "unat (lq_push (sp_queue s) AND (n - 1)) \<noteq> unat (lq_pop (sp_queue s) AND (n - 1))"
proof -
  let ?q = "sp_queue s" and ?N = "unat n"
  have inv: "spsc_inv n s"
    using init_queue_empty [OF assms(1,2), of z] by (intro spsc_inv_reach [OF assms(3)]) simp_all
  then have "lq_push ?q - lq_pop ?q < n" "lq_push ?q \<noteq> lq_pop ?q"
    using assms(4,5) by (auto simp: spsc_inv_def lq_contents_Nil)
  then have d: "0 < unat (lq_push ?q - lq_pop ?q)" "unat (lq_push ?q - lq_pop ?q) < ?N"
    by (simp_all add: unat_gt_0 word_less_nat_alt)
  have "unat (lq_push ?q) mod ?N = (unat (lq_pop ?q) + unat (lq_push ?q - lq_pop ?q)) mod ?N"
    using unat_add_mod_power_of_2 [OF assms(1), of "lq_pop ?q" "lq_push ?q - lq_pop ?q"] by simp
  moreover have "(unat (lq_pop ?q) + unat (lq_push ?q - lq_pop ?q)) mod ?N \<noteq> unat (lq_pop ?q) mod ?N"
  proof
    assume "(unat (lq_pop ?q) + unat (lq_push ?q - lq_pop ?q)) mod ?N = unat (lq_pop ?q) mod ?N"
    then have "?N dvd unat (lq_push ?q - lq_pop ?q)" by (simp add: mod_eq_dvd_iff_nat)
    with d show False by (auto dest: dvd_imp_le)
  qed
  ultimately show ?thesis by (simp add: unat_and_mask_mod [OF assms(1)])
qed

text \<open>A queue of two slots, one element published, both threads in the middle of a call.\<close>

lemma spsc_example_reach:
  defines "q0 \<equiv> init_queue 0 \<lparr>lq_slots = [7, 7 :: nat], lq_push = 5, lq_pop = 1\<rparr>"
  defines "q1 \<equiv> \<lparr>lq_slots = [3, 0], lq_push = 1, lq_pop = 0\<rparr>"
  shows "spsc_reach 2 (spsc_init q0)
    \<lparr>sp_queue = q1, sp_producer = P_Store 4, sp_consumer = C_Load, sp_pushed = [3], sp_popped = []\<rparr>"
proof -
  let ?s = "\<lambda>q p c xs. \<lparr>sp_queue = q, sp_producer = p, sp_consumer = c, sp_pushed = xs, sp_popped = []\<rparr>"
  have "spsc_reach 2 (spsc_init q0) (?s q0 P_Idle C_Idle [])"
    using reach_start [of 2 "spsc_init q0"] by (simp add: spsc_init_def)
  from reach_step [OF this push_test [of _ 2 3]]
  have "spsc_reach 2 (spsc_init q0) (?s q0 (P_Store 3) C_Idle [])" by (simp add: q0_def init_queue_def)
  from reach_step [OF this push_slot [of _ 3]]
  have "spsc_reach 2 (spsc_init q0) (?s (q1\<lparr>lq_push := 0\<rparr>) (P_Publish 3) C_Idle [])"
    by (simp add: q0_def q1_def init_queue_def)
  from reach_step [OF this push_publish [of _ 3]]
  have "spsc_reach 2 (spsc_init q0) (?s q1 P_Idle C_Idle [3])" by (simp add: q1_def)
  from reach_step [OF this push_test [of _ 2 4]]
  have "spsc_reach 2 (spsc_init q0) (?s q1 (P_Store 4) C_Idle [3])" by (simp add: q1_def)
  from reach_step [OF this pop_test]
  show ?thesis by (simp add: q1_def)
qed

theorem spsc_fifo_witness:
  "let q1 = \<lparr>lq_slots = [3, 0 :: nat], lq_push = 1, lq_pop = 0\<rparr> in [3] = [] @ lq_contents q1"
  using spsc_fifo [OF _ _ spsc_example_reach] by (simp add: is_power_of_2_def)

theorem spsc_no_slot_race_witness:
  "unat ((1 :: u32) AND (2 - 1)) \<noteq> unat ((0 :: u32) AND (2 - 1))"
  using spsc_no_slot_race [OF _ _ spsc_example_reach] by (simp add: is_power_of_2_def)

text \<open>Three producer steps with no consumer step between them are one \<open>push_back\<close>, and the same for
  \<open>pop_front\<close>.\<close>

lemma push_steps:
  assumes "spsc_reach n s0 s" and "sp_producer s = P_Idle" and "fst (push_back n (sp_queue s) x)"
  shows "spsc_reach n s0 (s\<lparr>sp_queue := snd (push_back n (sp_queue s) x), sp_pushed := sp_pushed s @ [x]\<rparr>)"
proof -
  let ?q = "sp_queue s"
  have room: "lq_push ?q - lq_pop ?q < n" using assms(3) by (simp add: push_back_def split: if_splits)
  let ?q1 = "?q\<lparr>lq_slots := (lq_slots ?q)[unat (lq_push ?q AND (n - 1)) := x]\<rparr>"
  have "spsc_reach n s0 (s\<lparr>sp_producer := P_Store x\<rparr>)"
    by (rule reach_step [OF assms(1) push_test [OF assms(2) room]])
  from reach_step [OF this push_slot [of _ x]]
  have "spsc_reach n s0 (s\<lparr>sp_queue := ?q1, sp_producer := P_Publish x\<rparr>)" by simp
  from reach_step [OF this push_publish [of _ x]]
  have r: "spsc_reach n s0 (s\<lparr>sp_queue := ?q1\<lparr>lq_push := lq_push ?q + 1\<rparr>, sp_producer := P_Idle,
      sp_pushed := sp_pushed s @ [x]\<rparr>)" by simp
  have "s\<lparr>sp_queue := ?q1\<lparr>lq_push := lq_push ?q + 1\<rparr>, sp_producer := P_Idle, sp_pushed := sp_pushed s @ [x]\<rparr> =
      s\<lparr>sp_queue := snd (push_back n ?q x), sp_pushed := sp_pushed s @ [x]\<rparr>"
    using room assms(2) by (simp add: push_back_def)
  with r show ?thesis by simp
qed

lemma pop_steps:
  assumes "spsc_reach n s0 s" and "sp_consumer s = C_Idle" and "pop_front n (sp_queue s) = (True, Some x, q')"
  shows "spsc_reach n s0 (s\<lparr>sp_queue := q', sp_popped := sp_popped s @ [x]\<rparr>)"
proof -
  let ?q = "sp_queue s"
  have ne: "lq_push ?q \<noteq> lq_pop ?q" and x: "x = lq_slots ?q ! unat (lq_pop ?q AND (n - 1))"
    and q': "q' = ?q\<lparr>lq_pop := lq_pop ?q + 1\<rparr>"
    using assms(3) by (auto simp: pop_front_def split: if_splits)
  have "spsc_reach n s0 (s\<lparr>sp_consumer := C_Load\<rparr>)"
    by (rule reach_step [OF assms(1) pop_test [OF assms(2) ne]])
  from reach_step [OF this pop_load]
  have "spsc_reach n s0 (s\<lparr>sp_consumer := C_Advance x\<rparr>)" by (simp add: x)
  from reach_step [OF this pop_advance_index [of _ x]]
  have r: "spsc_reach n s0 (s\<lparr>sp_queue := q', sp_consumer := C_Idle, sp_popped := sp_popped s @ [x]\<rparr>)"
    by (simp add: q')
  have "s\<lparr>sp_queue := q', sp_consumer := C_Idle, sp_popped := sp_popped s @ [x]\<rparr> =
      s\<lparr>sp_queue := q', sp_popped := sp_popped s @ [x]\<rparr>"
    using assms(2) by simp
  with r show ?thesis by simp
qed

end
