(* ===== verification/Cipher.thy ===== *)
theory Cipher
  imports Prelude
begin

text \<open>
  Two interfaces the ciphers of LeoNet meet, and what their clients get from them: a Feistel
  network, whose rounds run backwards with the keys reversed, and a block cipher, whose ECB and
  CBC modes decrypt what they encrypted.
\<close>

section \<open>Feistel networks\<close>

definition feistel_round :: "('k \<Rightarrow> 'a::len word \<Rightarrow> 'a word) \<Rightarrow> 'k \<Rightarrow> 'a word \<times> 'a word \<Rightarrow> 'a word \<times> 'a word" where
  "feistel_round f k lr = (case lr of (l, r) \<Rightarrow> (r, l XOR f k r))"

locale feistel =
  fixes f :: "'k \<Rightarrow> 'a::len word \<Rightarrow> 'a word"
    and rnd :: "'k \<Rightarrow> 'a word \<times> 'a word \<Rightarrow> 'a word \<times> 'a word"
  assumes rnd: "rnd k (l, r) = (r, l XOR f k r)"
begin

lemma round_undo: "rnd k (prod.swap (rnd k lr)) = prod.swap lr"
  by (cases lr) (simp add: rnd xor.assoc)

lemma rounds_undo: "fold rnd (rev ks) (prod.swap (fold rnd ks lr)) = prod.swap lr"
  by (induction ks arbitrary: lr) (simp_all add: round_undo)

lemma rounds_redo: "fold rnd ks (prod.swap (fold rnd (rev ks) lr)) = prod.swap lr"
  using rounds_undo [of "rev ks"] by simp

end

section \<open>Block ciphers and their modes\<close>

text \<open>A buffer seen as \<open>n\<close> blocks of eight bytes.\<close>

fun chunks :: "nat \<Rightarrow> byte list \<Rightarrow> byte list list" where
  "chunks 0 xs = []"
| "chunks (Suc n) xs = take 8 xs # chunks n (drop 8 xs)"

lemma length_chunks [simp]: "length (chunks n xs) = n"
  by (induction n arbitrary: xs) simp_all

lemma chunks_lengths: "8 * n \<le> length xs \<Longrightarrow> \<forall>b \<in> set (chunks n xs). length b = 8"
proof (induction n arbitrary: xs)
  case (Suc n)
  have "\<forall>b \<in> set (chunks n (drop 8 xs)). length b = 8" using Suc.prems by (intro Suc.IH) simp
  moreover have "length (take 8 xs) = 8" using Suc.prems by simp
  ultimately show ?case unfolding chunks.simps list.set(2) by blast
qed simp

lemma concat_chunks: "concat (chunks n xs) = take (8 * n) xs"
proof (induction n arbitrary: xs)
  case (Suc n)
  then show ?case by (simp add: take_add)
qed simp

lemma chunks_concat: "\<forall>b \<in> set bs. length b = 8 \<Longrightarrow> chunks (length bs) (concat bs @ ys) = bs"
  by (induction bs) simp_all

lemma length_concat_blocks: "\<forall>b \<in> set bs. length b = 8 \<Longrightarrow> length (concat bs) = 8 * length bs"
  by (induction bs) simp_all

lemma chunks_overwrite:
  assumes "off + 8 * length bs \<le> length obj" and "\<forall>b \<in> set bs. length b = 8"
  shows "chunks (length bs) (drop off (overwrite obj off (concat bs))) = bs"
    and "length (overwrite obj off (concat bs)) = length obj"
    and "\<forall>b \<in> set cs. length b = 8 \<Longrightarrow> length cs = length bs \<Longrightarrow>
      overwrite (overwrite obj off (concat bs)) off (concat cs) = overwrite obj off (concat cs)"
  using assms length_concat_blocks [OF assms(2)] length_concat_blocks [of cs]
  by (simp_all add: overwrite_def chunks_concat)

lemma overwrite_chunks:
  assumes "off + 8 * n \<le> length obj"
  shows "overwrite obj off (concat (chunks n (drop off obj))) = obj"
proof -
  have "take off obj @ take (8 * n) (drop off obj) @ drop (8 * n) (drop off obj) = obj"
    by (simp only: append_take_drop_id)
  then show ?thesis using assms by (simp add: overwrite_def concat_chunks add.commute)
qed

text \<open>Writing the original blocks back restores the buffer.\<close>

lemma overwrite_back:
  assumes "off + 8 * n \<le> length obj" and "length cs = n" and "\<forall>c \<in> set cs. length c = 8"
  shows "overwrite (overwrite obj off (concat cs)) off (concat (chunks n (drop off obj))) = obj"
proof -
  have "\<forall>b \<in> set (chunks n (drop off obj)). length b = 8" using assms(1) by (intro chunks_lengths) simp
  then have "overwrite (overwrite obj off (concat cs)) off (concat (chunks n (drop off obj))) =
      overwrite obj off (concat (chunks n (drop off obj)))"
    using assms by (intro chunks_overwrite(3)) (simp_all only: length_chunks)
  then show ?thesis by (simp only: overwrite_chunks [OF assms(1)])
qed

fun ecb_blocks :: "(byte list \<Rightarrow> byte list) \<Rightarrow> byte list list \<Rightarrow> byte list list" where
  "ecb_blocks e [] = []"
| "ecb_blocks e (b # bs) = e b # ecb_blocks e bs"

text \<open>The CBC modes return the blocks and the chaining value they leave.\<close>

fun cbc_enc :: "(byte list \<Rightarrow> byte list) \<Rightarrow> byte list \<Rightarrow> byte list list \<Rightarrow> byte list list \<times> byte list" where
  "cbc_enc e v [] = ([], v)"
| "cbc_enc e v (b # bs) =
     (let c = e (map2 (XOR) b v); (cs, v') = cbc_enc e c bs in (c # cs, v'))"

fun cbc_dec :: "(byte list \<Rightarrow> byte list) \<Rightarrow> byte list \<Rightarrow> byte list list \<Rightarrow> byte list list \<times> byte list" where
  "cbc_dec d v [] = ([], v)"
| "cbc_dec d v (c # cs) =
     (let b = map2 (XOR) (d c) v; (bs, v') = cbc_dec d c cs in (b # bs, v'))"

lemma map2_xor_cancel:
  "length b = length v \<Longrightarrow> map2 (XOR) (map2 (XOR) b v) v = (b :: 'a::len word list)"
  by (induction b v rule: list_induct2) (simp_all add: xor.assoc)

lemma cbc_enc_append:
  "cbc_enc e v (bs @ bs') =
     (let (cs, v1) = cbc_enc e v bs; (cs', v2) = cbc_enc e v1 bs' in (cs @ cs', v2))"
  by (induction bs arbitrary: v) (auto simp: Let_def split: prod.splits)

lemma cbc_dec_append:
  "cbc_dec d v (cs @ cs') =
     (let (bs, v1) = cbc_dec d v cs; (bs', v2) = cbc_dec d v1 cs' in (bs @ bs', v2))"
  by (induction cs arbitrary: v) (auto simp: Let_def split: prod.splits)

locale block_cipher =
  fixes size_of_block :: nat
    and enc :: "byte list \<Rightarrow> byte list"
    and dec :: "byte list \<Rightarrow> byte list"
  assumes enc_length: "length b = size_of_block \<Longrightarrow> length (enc b) = size_of_block"
    and dec_length: "length b = size_of_block \<Longrightarrow> length (dec b) = size_of_block"
    and dec_enc: "length b = size_of_block \<Longrightarrow> dec (enc b) = b"
    and enc_dec: "length b = size_of_block \<Longrightarrow> enc (dec b) = b"
begin

lemma ecb_round_trip:
  "\<forall>b \<in> set bs. length b = size_of_block \<Longrightarrow> ecb_blocks dec (ecb_blocks enc bs) = bs"
  by (induction bs) (simp_all add: dec_enc)

lemma cbc_enc_lengths:
  "\<forall>b \<in> set bs. length b = size_of_block \<Longrightarrow> length v = size_of_block \<Longrightarrow>
   (\<forall>c \<in> set (fst (cbc_enc enc v bs)). length c = size_of_block) \<and>
   length (fst (cbc_enc enc v bs)) = length bs \<and> length (snd (cbc_enc enc v bs)) = size_of_block"
proof (induction bs arbitrary: v)
  case (Cons b bs)
  let ?c = "enc (map2 (XOR) b v)"
  obtain cs v' where e: "cbc_enc enc ?c bs = (cs, v')" by (cases "cbc_enc enc ?c bs")
  have "length ?c = size_of_block" using Cons.prems by (simp add: enc_length)
  moreover have "\<forall>b \<in> set bs. length b = size_of_block" using Cons.prems by simp
  ultimately show ?case using Cons.IH [of ?c] e by (simp add: Let_def)
qed simp

lemma cbc_round_trip:
  "\<forall>b \<in> set bs. length b = size_of_block \<Longrightarrow> length v = size_of_block \<Longrightarrow>
   cbc_dec dec v (fst (cbc_enc enc v bs)) = (bs, snd (cbc_enc enc v bs))"
proof (induction bs arbitrary: v)
  case (Cons b bs)
  let ?c = "enc (map2 (XOR) b v)"
  obtain cs v' where e: "cbc_enc enc ?c bs = (cs, v')" by (cases "cbc_enc enc ?c bs")
  have l: "length (map2 (XOR) b v) = size_of_block" using Cons.prems by simp
  have "cbc_dec dec ?c cs = (bs, v')"
    using Cons.IH [of ?c] Cons.prems l e by (simp add: enc_length)
  then show ?case using Cons.prems l e by (simp add: dec_enc map2_xor_cancel)
qed simp

text \<open>Encryption loses nothing: two messages with the same cipher text are the same.\<close>

lemma cbc_enc_inj:
  assumes "\<forall>b \<in> set bs. length b = size_of_block" "\<forall>b \<in> set bs'. length b = size_of_block"
    and "length v = size_of_block" and "fst (cbc_enc enc v bs) = fst (cbc_enc enc v bs')"
  shows "bs = bs'"
  using cbc_round_trip [OF assms(1,3)] cbc_round_trip [OF assms(2,3)] assms(4) by (metis prod.inject)

end

end
