(* ===== verification/Des_Tables.thy ===== *)
theory Des_Tables
  imports Prelude
begin

text \<open>
  The tables of \<open>src/leo_des_crypto.c\<close>, entry by entry: the initial and final transposes,
  the combined S and P boxes of the build that is compiled (\<open>SMALL\<close> undefined), and the
  separate S boxes and P tables of the small build. \<open>unsigned long\<close> is 32 bits on Win32.
\<close>

definition Sboxes_0 :: "nat list" where
  "Sboxes_0 = [
  14, 0, 4, 15, 13, 7, 1, 4, 2, 14, 15, 2, 11, 13, 8, 1,
  3, 10, 10, 6, 6, 12, 12, 11, 5, 9, 9, 5, 0, 3, 7, 8,
  4, 15, 1, 12, 14, 8, 8, 2, 13, 4, 6, 9, 2, 1, 11, 7,
  15, 5, 12, 11, 9, 3, 7, 14, 3, 10, 10, 0, 5, 6, 0, 13]"

definition Sboxes_1 :: "nat list" where
  "Sboxes_1 = [
  15, 3, 1, 13, 8, 4, 14, 7, 6, 15, 11, 2, 3, 8, 4, 14,
  9, 12, 7, 0, 2, 1, 13, 10, 12, 6, 0, 9, 5, 11, 10, 5,
  0, 13, 14, 8, 7, 10, 11, 1, 10, 3, 4, 15, 13, 4, 1, 2,
  5, 11, 8, 6, 12, 7, 6, 12, 9, 0, 3, 5, 2, 14, 15, 9]"

definition Sboxes_2 :: "nat list" where
  "Sboxes_2 = [
  10, 13, 0, 7, 9, 0, 14, 9, 6, 3, 3, 4, 15, 6, 5, 10,
  1, 2, 13, 8, 12, 5, 7, 14, 11, 12, 4, 11, 2, 15, 8, 1,
  13, 1, 6, 10, 4, 13, 9, 0, 8, 6, 15, 9, 3, 8, 0, 7,
  11, 4, 1, 15, 2, 14, 12, 3, 5, 11, 10, 5, 14, 2, 7, 12]"

definition Sboxes_3 :: "nat list" where
  "Sboxes_3 = [
  7, 13, 13, 8, 14, 11, 3, 5, 0, 6, 6, 15, 9, 0, 10, 3,
  1, 4, 2, 7, 8, 2, 5, 12, 11, 1, 12, 10, 4, 14, 15, 9,
  10, 3, 6, 15, 9, 0, 0, 6, 12, 10, 11, 1, 7, 13, 13, 8,
  15, 9, 1, 4, 3, 5, 14, 11, 5, 12, 2, 7, 8, 2, 4, 14]"

definition Sboxes_4 :: "nat list" where
  "Sboxes_4 = [
  2, 14, 12, 11, 4, 2, 1, 12, 7, 4, 10, 7, 11, 13, 6, 1,
  8, 5, 5, 0, 3, 15, 15, 10, 13, 3, 0, 9, 14, 8, 9, 6,
  4, 11, 2, 8, 1, 12, 11, 7, 10, 1, 13, 14, 7, 2, 8, 13,
  15, 6, 9, 15, 12, 0, 5, 9, 6, 10, 3, 4, 0, 5, 14, 3]"

definition Sboxes_5 :: "nat list" where
  "Sboxes_5 = [
  12, 10, 1, 15, 10, 4, 15, 2, 9, 7, 2, 12, 6, 9, 8, 5,
  0, 6, 13, 1, 3, 13, 4, 14, 14, 0, 7, 11, 5, 3, 11, 8,
  9, 4, 14, 3, 15, 2, 5, 12, 2, 9, 8, 5, 12, 15, 3, 10,
  7, 11, 0, 14, 4, 1, 10, 7, 1, 6, 13, 0, 11, 8, 6, 13]"

definition Sboxes_6 :: "nat list" where
  "Sboxes_6 = [
  4, 13, 11, 0, 2, 11, 14, 7, 15, 4, 0, 9, 8, 1, 13, 10,
  3, 14, 12, 3, 9, 5, 7, 12, 5, 2, 10, 15, 6, 8, 1, 6,
  1, 6, 4, 11, 11, 13, 13, 8, 12, 1, 3, 4, 7, 10, 14, 7,
  10, 9, 15, 5, 6, 0, 8, 15, 0, 14, 5, 2, 9, 3, 2, 12]"

definition Sboxes_7 :: "nat list" where
  "Sboxes_7 = [
  13, 1, 2, 15, 8, 13, 4, 8, 6, 10, 15, 3, 11, 7, 1, 4,
  10, 12, 9, 5, 3, 6, 14, 11, 5, 0, 0, 14, 12, 9, 7, 2,
  7, 2, 11, 1, 4, 14, 1, 7, 9, 4, 12, 10, 14, 8, 2, 13,
  0, 15, 6, 12, 10, 9, 13, 0, 15, 3, 3, 5, 5, 6, 8, 11]"

definition Sboxes :: "nat list list" where
  "Sboxes = [Sboxes_0, Sboxes_1, Sboxes_2, Sboxes_3, Sboxes_4, Sboxes_5, Sboxes_6, Sboxes_7]"

definition Ptbl_0 :: "u32 list" where
  "Ptbl_0 = [
  0x00000000, 0x00000002, 0x00000200, 0x00000202,
  0x00008000, 0x00008002, 0x00008200, 0x00008202,
  0x00800000, 0x00800002, 0x00800200, 0x00800202,
  0x00808000, 0x00808002, 0x00808200, 0x00808202]"

definition Ptbl_1 :: "u32 list" where
  "Ptbl_1 = [
  0x00000000, 0x00004000, 0x40000000, 0x40004000,
  0x00000010, 0x00004010, 0x40000010, 0x40004010,
  0x00080000, 0x00084000, 0x40080000, 0x40084000,
  0x00080010, 0x00084010, 0x40080010, 0x40084010]"

definition Ptbl_2 :: "u32 list" where
  "Ptbl_2 = [
  0x00000000, 0x04000000, 0x00000004, 0x04000004,
  0x00010000, 0x04010000, 0x00010004, 0x04010004,
  0x00000100, 0x04000100, 0x00000104, 0x04000104,
  0x00010100, 0x04010100, 0x00010104, 0x04010104]"

definition Ptbl_3 :: "u32 list" where
  "Ptbl_3 = [
  0x00000000, 0x80000000, 0x00400000, 0x80400000,
  0x00001000, 0x80001000, 0x00401000, 0x80401000,
  0x00000040, 0x80000040, 0x00400040, 0x80400040,
  0x00001040, 0x80001040, 0x00401040, 0x80401040]"

definition Ptbl_4 :: "u32 list" where
  "Ptbl_4 = [
  0x00000000, 0x20000000, 0x00000080, 0x20000080,
  0x00040000, 0x20040000, 0x00040080, 0x20040080,
  0x01000000, 0x21000000, 0x01000080, 0x21000080,
  0x01040000, 0x21040000, 0x01040080, 0x21040080]"

definition Ptbl_5 :: "u32 list" where
  "Ptbl_5 = [
  0x00000000, 0x00002000, 0x00200000, 0x00202000,
  0x00000008, 0x00002008, 0x00200008, 0x00202008,
  0x10000000, 0x10002000, 0x10200000, 0x10202000,
  0x10000008, 0x10002008, 0x10200008, 0x10202008]"

definition Ptbl_6 :: "u32 list" where
  "Ptbl_6 = [
  0x00000000, 0x02000000, 0x00000400, 0x02000400,
  0x00100000, 0x02100000, 0x00100400, 0x02100400,
  0x00000001, 0x02000001, 0x00000401, 0x02000401,
  0x00100001, 0x02100001, 0x00100401, 0x02100401]"

definition Ptbl_7 :: "u32 list" where
  "Ptbl_7 = [
  0x00000000, 0x00000800, 0x00020000, 0x00020800,
  0x00000020, 0x00000820, 0x00020020, 0x00020820,
  0x08000000, 0x08000800, 0x08020000, 0x08020800,
  0x08000020, 0x08000820, 0x08020020, 0x08020820]"

definition Ptbl :: "u32 list list" where
  "Ptbl = [Ptbl_0, Ptbl_1, Ptbl_2, Ptbl_3, Ptbl_4, Ptbl_5, Ptbl_6, Ptbl_7]"

definition Psboxes_0 :: "u32 list" where
  "Psboxes_0 = [
  0x00808200, 0x00000000, 0x00008000, 0x00808202,
  0x00808002, 0x00008202, 0x00000002, 0x00008000,
  0x00000200, 0x00808200, 0x00808202, 0x00000200,
  0x00800202, 0x00808002, 0x00800000, 0x00000002,
  0x00000202, 0x00800200, 0x00800200, 0x00008200,
  0x00008200, 0x00808000, 0x00808000, 0x00800202,
  0x00008002, 0x00800002, 0x00800002, 0x00008002,
  0x00000000, 0x00000202, 0x00008202, 0x00800000,
  0x00008000, 0x00808202, 0x00000002, 0x00808000,
  0x00808200, 0x00800000, 0x00800000, 0x00000200,
  0x00808002, 0x00008000, 0x00008200, 0x00800002,
  0x00000200, 0x00000002, 0x00800202, 0x00008202,
  0x00808202, 0x00008002, 0x00808000, 0x00800202,
  0x00800002, 0x00000202, 0x00008202, 0x00808200,
  0x00000202, 0x00800200, 0x00800200, 0x00000000,
  0x00008002, 0x00008200, 0x00000000, 0x00808002]"

definition Psboxes_1 :: "u32 list" where
  "Psboxes_1 = [
  0x40084010, 0x40004000, 0x00004000, 0x00084010,
  0x00080000, 0x00000010, 0x40080010, 0x40004010,
  0x40000010, 0x40084010, 0x40084000, 0x40000000,
  0x40004000, 0x00080000, 0x00000010, 0x40080010,
  0x00084000, 0x00080010, 0x40004010, 0x00000000,
  0x40000000, 0x00004000, 0x00084010, 0x40080000,
  0x00080010, 0x40000010, 0x00000000, 0x00084000,
  0x00004010, 0x40084000, 0x40080000, 0x00004010,
  0x00000000, 0x00084010, 0x40080010, 0x00080000,
  0x40004010, 0x40080000, 0x40084000, 0x00004000,
  0x40080000, 0x40004000, 0x00000010, 0x40084010,
  0x00084010, 0x00000010, 0x00004000, 0x40000000,
  0x00004010, 0x40084000, 0x00080000, 0x40000010,
  0x00080010, 0x40004010, 0x40000010, 0x00080010,
  0x00084000, 0x00000000, 0x40004000, 0x00004010,
  0x40000000, 0x40080010, 0x40084010, 0x00084000]"

definition Psboxes_2 :: "u32 list" where
  "Psboxes_2 = [
  0x00000104, 0x04010100, 0x00000000, 0x04010004,
  0x04000100, 0x00000000, 0x00010104, 0x04000100,
  0x00010004, 0x04000004, 0x04000004, 0x00010000,
  0x04010104, 0x00010004, 0x04010000, 0x00000104,
  0x04000000, 0x00000004, 0x04010100, 0x00000100,
  0x00010100, 0x04010000, 0x04010004, 0x00010104,
  0x04000104, 0x00010100, 0x00010000, 0x04000104,
  0x00000004, 0x04010104, 0x00000100, 0x04000000,
  0x04010100, 0x04000000, 0x00010004, 0x00000104,
  0x00010000, 0x04010100, 0x04000100, 0x00000000,
  0x00000100, 0x00010004, 0x04010104, 0x04000100,
  0x04000004, 0x00000100, 0x00000000, 0x04010004,
  0x04000104, 0x00010000, 0x04000000, 0x04010104,
  0x00000004, 0x00010104, 0x00010100, 0x04000004,
  0x04010000, 0x04000104, 0x00000104, 0x04010000,
  0x00010104, 0x00000004, 0x04010004, 0x00010100]"

definition Psboxes_3 :: "u32 list" where
  "Psboxes_3 = [
  0x80401000, 0x80001040, 0x80001040, 0x00000040,
  0x00401040, 0x80400040, 0x80400000, 0x80001000,
  0x00000000, 0x00401000, 0x00401000, 0x80401040,
  0x80000040, 0x00000000, 0x00400040, 0x80400000,
  0x80000000, 0x00001000, 0x00400000, 0x80401000,
  0x00000040, 0x00400000, 0x80001000, 0x00001040,
  0x80400040, 0x80000000, 0x00001040, 0x00400040,
  0x00001000, 0x00401040, 0x80401040, 0x80000040,
  0x00400040, 0x80400000, 0x00401000, 0x80401040,
  0x80000040, 0x00000000, 0x00000000, 0x00401000,
  0x00001040, 0x00400040, 0x80400040, 0x80000000,
  0x80401000, 0x80001040, 0x80001040, 0x00000040,
  0x80401040, 0x80000040, 0x80000000, 0x00001000,
  0x80400000, 0x80001000, 0x00401040, 0x80400040,
  0x80001000, 0x00001040, 0x00400000, 0x80401000,
  0x00000040, 0x00400000, 0x00001000, 0x00401040]"

definition Psboxes_4 :: "u32 list" where
  "Psboxes_4 = [
  0x00000080, 0x01040080, 0x01040000, 0x21000080,
  0x00040000, 0x00000080, 0x20000000, 0x01040000,
  0x20040080, 0x00040000, 0x01000080, 0x20040080,
  0x21000080, 0x21040000, 0x00040080, 0x20000000,
  0x01000000, 0x20040000, 0x20040000, 0x00000000,
  0x20000080, 0x21040080, 0x21040080, 0x01000080,
  0x21040000, 0x20000080, 0x00000000, 0x21000000,
  0x01040080, 0x01000000, 0x21000000, 0x00040080,
  0x00040000, 0x21000080, 0x00000080, 0x01000000,
  0x20000000, 0x01040000, 0x21000080, 0x20040080,
  0x01000080, 0x20000000, 0x21040000, 0x01040080,
  0x20040080, 0x00000080, 0x01000000, 0x21040000,
  0x21040080, 0x00040080, 0x21000000, 0x21040080,
  0x01040000, 0x00000000, 0x20040000, 0x21000000,
  0x00040080, 0x01000080, 0x20000080, 0x00040000,
  0x00000000, 0x20040000, 0x01040080, 0x20000080]"

definition Psboxes_5 :: "u32 list" where
  "Psboxes_5 = [
  0x10000008, 0x10200000, 0x00002000, 0x10202008,
  0x10200000, 0x00000008, 0x10202008, 0x00200000,
  0x10002000, 0x00202008, 0x00200000, 0x10000008,
  0x00200008, 0x10002000, 0x10000000, 0x00002008,
  0x00000000, 0x00200008, 0x10002008, 0x00002000,
  0x00202000, 0x10002008, 0x00000008, 0x10200008,
  0x10200008, 0x00000000, 0x00202008, 0x10202000,
  0x00002008, 0x00202000, 0x10202000, 0x10000000,
  0x10002000, 0x00000008, 0x10200008, 0x00202000,
  0x10202008, 0x00200000, 0x00002008, 0x10000008,
  0x00200000, 0x10002000, 0x10000000, 0x00002008,
  0x10000008, 0x10202008, 0x00202000, 0x10200000,
  0x00202008, 0x10202000, 0x00000000, 0x10200008,
  0x00000008, 0x00002000, 0x10200000, 0x00202008,
  0x00002000, 0x00200008, 0x10002008, 0x00000000,
  0x10202000, 0x10000000, 0x00200008, 0x10002008]"

definition Psboxes_6 :: "u32 list" where
  "Psboxes_6 = [
  0x00100000, 0x02100001, 0x02000401, 0x00000000,
  0x00000400, 0x02000401, 0x00100401, 0x02100400,
  0x02100401, 0x00100000, 0x00000000, 0x02000001,
  0x00000001, 0x02000000, 0x02100001, 0x00000401,
  0x02000400, 0x00100401, 0x00100001, 0x02000400,
  0x02000001, 0x02100000, 0x02100400, 0x00100001,
  0x02100000, 0x00000400, 0x00000401, 0x02100401,
  0x00100400, 0x00000001, 0x02000000, 0x00100400,
  0x02000000, 0x00100400, 0x00100000, 0x02000401,
  0x02000401, 0x02100001, 0x02100001, 0x00000001,
  0x00100001, 0x02000000, 0x02000400, 0x00100000,
  0x02100400, 0x00000401, 0x00100401, 0x02100400,
  0x00000401, 0x02000001, 0x02100401, 0x02100000,
  0x00100400, 0x00000000, 0x00000001, 0x02100401,
  0x00000000, 0x00100401, 0x02100000, 0x00000400,
  0x02000001, 0x02000400, 0x00000400, 0x00100001]"

definition Psboxes_7 :: "u32 list" where
  "Psboxes_7 = [
  0x08000820, 0x00000800, 0x00020000, 0x08020820,
  0x08000000, 0x08000820, 0x00000020, 0x08000000,
  0x00020020, 0x08020000, 0x08020820, 0x00020800,
  0x08020800, 0x00020820, 0x00000800, 0x00000020,
  0x08020000, 0x08000020, 0x08000800, 0x00000820,
  0x00020800, 0x00020020, 0x08020020, 0x08020800,
  0x00000820, 0x00000000, 0x00000000, 0x08020020,
  0x08000020, 0x08000800, 0x00020820, 0x00020000,
  0x00020820, 0x00020000, 0x08020800, 0x00000800,
  0x00000020, 0x08020020, 0x00000800, 0x00020820,
  0x08000800, 0x00000020, 0x08000020, 0x08020000,
  0x08020020, 0x08000000, 0x00020000, 0x08000820,
  0x00000000, 0x08020820, 0x00020020, 0x08000020,
  0x08020000, 0x08000800, 0x08000820, 0x00000000,
  0x08020820, 0x00020800, 0x00020800, 0x00000820,
  0x00000820, 0x00020020, 0x08000000, 0x08020800]"

definition Psboxes :: "u32 list list" where
  "Psboxes = [Psboxes_0, Psboxes_1, Psboxes_2, Psboxes_3, Psboxes_4, Psboxes_5, Psboxes_6, Psboxes_7]"

definition Ip_l :: "u32 list" where
  "Ip_l = [
  0x00000000, 0x00000080, 0x00000000, 0x00000080, 0x00008000, 0x00008080, 0x00008000, 0x00008080,
  0x00000000, 0x00000080, 0x00000000, 0x00000080, 0x00008000, 0x00008080, 0x00008000, 0x00008080,
  0x00800000, 0x00800080, 0x00800000, 0x00800080, 0x00808000, 0x00808080, 0x00808000, 0x00808080,
  0x00800000, 0x00800080, 0x00800000, 0x00800080, 0x00808000, 0x00808080, 0x00808000, 0x00808080,
  0x00000000, 0x00000080, 0x00000000, 0x00000080, 0x00008000, 0x00008080, 0x00008000, 0x00008080,
  0x00000000, 0x00000080, 0x00000000, 0x00000080, 0x00008000, 0x00008080, 0x00008000, 0x00008080,
  0x00800000, 0x00800080, 0x00800000, 0x00800080, 0x00808000, 0x00808080, 0x00808000, 0x00808080,
  0x00800000, 0x00800080, 0x00800000, 0x00800080, 0x00808000, 0x00808080, 0x00808000, 0x00808080,
  0x80000000, 0x80000080, 0x80000000, 0x80000080, 0x80008000, 0x80008080, 0x80008000, 0x80008080,
  0x80000000, 0x80000080, 0x80000000, 0x80000080, 0x80008000, 0x80008080, 0x80008000, 0x80008080,
  0x80800000, 0x80800080, 0x80800000, 0x80800080, 0x80808000, 0x80808080, 0x80808000, 0x80808080,
  0x80800000, 0x80800080, 0x80800000, 0x80800080, 0x80808000, 0x80808080, 0x80808000, 0x80808080,
  0x80000000, 0x80000080, 0x80000000, 0x80000080, 0x80008000, 0x80008080, 0x80008000, 0x80008080,
  0x80000000, 0x80000080, 0x80000000, 0x80000080, 0x80008000, 0x80008080, 0x80008000, 0x80008080,
  0x80800000, 0x80800080, 0x80800000, 0x80800080, 0x80808000, 0x80808080, 0x80808000, 0x80808080,
  0x80800000, 0x80800080, 0x80800000, 0x80800080, 0x80808000, 0x80808080, 0x80808000, 0x80808080,
  0x00000000, 0x00000080, 0x00000000, 0x00000080, 0x00008000, 0x00008080, 0x00008000, 0x00008080,
  0x00000000, 0x00000080, 0x00000000, 0x00000080, 0x00008000, 0x00008080, 0x00008000, 0x00008080,
  0x00800000, 0x00800080, 0x00800000, 0x00800080, 0x00808000, 0x00808080, 0x00808000, 0x00808080,
  0x00800000, 0x00800080, 0x00800000, 0x00800080, 0x00808000, 0x00808080, 0x00808000, 0x00808080,
  0x00000000, 0x00000080, 0x00000000, 0x00000080, 0x00008000, 0x00008080, 0x00008000, 0x00008080,
  0x00000000, 0x00000080, 0x00000000, 0x00000080, 0x00008000, 0x00008080, 0x00008000, 0x00008080,
  0x00800000, 0x00800080, 0x00800000, 0x00800080, 0x00808000, 0x00808080, 0x00808000, 0x00808080,
  0x00800000, 0x00800080, 0x00800000, 0x00800080, 0x00808000, 0x00808080, 0x00808000, 0x00808080,
  0x80000000, 0x80000080, 0x80000000, 0x80000080, 0x80008000, 0x80008080, 0x80008000, 0x80008080,
  0x80000000, 0x80000080, 0x80000000, 0x80000080, 0x80008000, 0x80008080, 0x80008000, 0x80008080,
  0x80800000, 0x80800080, 0x80800000, 0x80800080, 0x80808000, 0x80808080, 0x80808000, 0x80808080,
  0x80800000, 0x80800080, 0x80800000, 0x80800080, 0x80808000, 0x80808080, 0x80808000, 0x80808080,
  0x80000000, 0x80000080, 0x80000000, 0x80000080, 0x80008000, 0x80008080, 0x80008000, 0x80008080,
  0x80000000, 0x80000080, 0x80000000, 0x80000080, 0x80008000, 0x80008080, 0x80008000, 0x80008080,
  0x80800000, 0x80800080, 0x80800000, 0x80800080, 0x80808000, 0x80808080, 0x80808000, 0x80808080,
  0x80800000, 0x80800080, 0x80800000, 0x80800080, 0x80808000, 0x80808080, 0x80808000, 0x80808080]"

definition Ip_r :: "u32 list" where
  "Ip_r = [
  0x00000000, 0x00000000, 0x00000080, 0x00000080, 0x00000000, 0x00000000, 0x00000080, 0x00000080,
  0x00008000, 0x00008000, 0x00008080, 0x00008080, 0x00008000, 0x00008000, 0x00008080, 0x00008080,
  0x00000000, 0x00000000, 0x00000080, 0x00000080, 0x00000000, 0x00000000, 0x00000080, 0x00000080,
  0x00008000, 0x00008000, 0x00008080, 0x00008080, 0x00008000, 0x00008000, 0x00008080, 0x00008080,
  0x00800000, 0x00800000, 0x00800080, 0x00800080, 0x00800000, 0x00800000, 0x00800080, 0x00800080,
  0x00808000, 0x00808000, 0x00808080, 0x00808080, 0x00808000, 0x00808000, 0x00808080, 0x00808080,
  0x00800000, 0x00800000, 0x00800080, 0x00800080, 0x00800000, 0x00800000, 0x00800080, 0x00800080,
  0x00808000, 0x00808000, 0x00808080, 0x00808080, 0x00808000, 0x00808000, 0x00808080, 0x00808080,
  0x00000000, 0x00000000, 0x00000080, 0x00000080, 0x00000000, 0x00000000, 0x00000080, 0x00000080,
  0x00008000, 0x00008000, 0x00008080, 0x00008080, 0x00008000, 0x00008000, 0x00008080, 0x00008080,
  0x00000000, 0x00000000, 0x00000080, 0x00000080, 0x00000000, 0x00000000, 0x00000080, 0x00000080,
  0x00008000, 0x00008000, 0x00008080, 0x00008080, 0x00008000, 0x00008000, 0x00008080, 0x00008080,
  0x00800000, 0x00800000, 0x00800080, 0x00800080, 0x00800000, 0x00800000, 0x00800080, 0x00800080,
  0x00808000, 0x00808000, 0x00808080, 0x00808080, 0x00808000, 0x00808000, 0x00808080, 0x00808080,
  0x00800000, 0x00800000, 0x00800080, 0x00800080, 0x00800000, 0x00800000, 0x00800080, 0x00800080,
  0x00808000, 0x00808000, 0x00808080, 0x00808080, 0x00808000, 0x00808000, 0x00808080, 0x00808080,
  0x80000000, 0x80000000, 0x80000080, 0x80000080, 0x80000000, 0x80000000, 0x80000080, 0x80000080,
  0x80008000, 0x80008000, 0x80008080, 0x80008080, 0x80008000, 0x80008000, 0x80008080, 0x80008080,
  0x80000000, 0x80000000, 0x80000080, 0x80000080, 0x80000000, 0x80000000, 0x80000080, 0x80000080,
  0x80008000, 0x80008000, 0x80008080, 0x80008080, 0x80008000, 0x80008000, 0x80008080, 0x80008080,
  0x80800000, 0x80800000, 0x80800080, 0x80800080, 0x80800000, 0x80800000, 0x80800080, 0x80800080,
  0x80808000, 0x80808000, 0x80808080, 0x80808080, 0x80808000, 0x80808000, 0x80808080, 0x80808080,
  0x80800000, 0x80800000, 0x80800080, 0x80800080, 0x80800000, 0x80800000, 0x80800080, 0x80800080,
  0x80808000, 0x80808000, 0x80808080, 0x80808080, 0x80808000, 0x80808000, 0x80808080, 0x80808080,
  0x80000000, 0x80000000, 0x80000080, 0x80000080, 0x80000000, 0x80000000, 0x80000080, 0x80000080,
  0x80008000, 0x80008000, 0x80008080, 0x80008080, 0x80008000, 0x80008000, 0x80008080, 0x80008080,
  0x80000000, 0x80000000, 0x80000080, 0x80000080, 0x80000000, 0x80000000, 0x80000080, 0x80000080,
  0x80008000, 0x80008000, 0x80008080, 0x80008080, 0x80008000, 0x80008000, 0x80008080, 0x80008080,
  0x80800000, 0x80800000, 0x80800080, 0x80800080, 0x80800000, 0x80800000, 0x80800080, 0x80800080,
  0x80808000, 0x80808000, 0x80808080, 0x80808080, 0x80808000, 0x80808000, 0x80808080, 0x80808080,
  0x80800000, 0x80800000, 0x80800080, 0x80800080, 0x80800000, 0x80800000, 0x80800080, 0x80800080,
  0x80808000, 0x80808000, 0x80808080, 0x80808080, 0x80808000, 0x80808000, 0x80808080, 0x80808080]"

definition Ip_inv_l :: "u32 list" where
  "Ip_inv_l = [
  0x00000000, 0x80000000, 0x00800000, 0x80800000, 0x00008000, 0x80008000, 0x00808000, 0x80808000,
  0x00000080, 0x80000080, 0x00800080, 0x80800080, 0x00008080, 0x80008080, 0x00808080, 0x80808080,
  0x00000000, 0x80000000, 0x00800000, 0x80800000, 0x00008000, 0x80008000, 0x00808000, 0x80808000,
  0x00000080, 0x80000080, 0x00800080, 0x80800080, 0x00008080, 0x80008080, 0x00808080, 0x80808080,
  0x00000000, 0x80000000, 0x00800000, 0x80800000, 0x00008000, 0x80008000, 0x00808000, 0x80808000,
  0x00000080, 0x80000080, 0x00800080, 0x80800080, 0x00008080, 0x80008080, 0x00808080, 0x80808080,
  0x00000000, 0x80000000, 0x00800000, 0x80800000, 0x00008000, 0x80008000, 0x00808000, 0x80808000,
  0x00000080, 0x80000080, 0x00800080, 0x80800080, 0x00008080, 0x80008080, 0x00808080, 0x80808080,
  0x00000000, 0x80000000, 0x00800000, 0x80800000, 0x00008000, 0x80008000, 0x00808000, 0x80808000,
  0x00000080, 0x80000080, 0x00800080, 0x80800080, 0x00008080, 0x80008080, 0x00808080, 0x80808080,
  0x00000000, 0x80000000, 0x00800000, 0x80800000, 0x00008000, 0x80008000, 0x00808000, 0x80808000,
  0x00000080, 0x80000080, 0x00800080, 0x80800080, 0x00008080, 0x80008080, 0x00808080, 0x80808080,
  0x00000000, 0x80000000, 0x00800000, 0x80800000, 0x00008000, 0x80008000, 0x00808000, 0x80808000,
  0x00000080, 0x80000080, 0x00800080, 0x80800080, 0x00008080, 0x80008080, 0x00808080, 0x80808080,
  0x00000000, 0x80000000, 0x00800000, 0x80800000, 0x00008000, 0x80008000, 0x00808000, 0x80808000,
  0x00000080, 0x80000080, 0x00800080, 0x80800080, 0x00008080, 0x80008080, 0x00808080, 0x80808080,
  0x00000000, 0x80000000, 0x00800000, 0x80800000, 0x00008000, 0x80008000, 0x00808000, 0x80808000,
  0x00000080, 0x80000080, 0x00800080, 0x80800080, 0x00008080, 0x80008080, 0x00808080, 0x80808080,
  0x00000000, 0x80000000, 0x00800000, 0x80800000, 0x00008000, 0x80008000, 0x00808000, 0x80808000,
  0x00000080, 0x80000080, 0x00800080, 0x80800080, 0x00008080, 0x80008080, 0x00808080, 0x80808080,
  0x00000000, 0x80000000, 0x00800000, 0x80800000, 0x00008000, 0x80008000, 0x00808000, 0x80808000,
  0x00000080, 0x80000080, 0x00800080, 0x80800080, 0x00008080, 0x80008080, 0x00808080, 0x80808080,
  0x00000000, 0x80000000, 0x00800000, 0x80800000, 0x00008000, 0x80008000, 0x00808000, 0x80808000,
  0x00000080, 0x80000080, 0x00800080, 0x80800080, 0x00008080, 0x80008080, 0x00808080, 0x80808080,
  0x00000000, 0x80000000, 0x00800000, 0x80800000, 0x00008000, 0x80008000, 0x00808000, 0x80808000,
  0x00000080, 0x80000080, 0x00800080, 0x80800080, 0x00008080, 0x80008080, 0x00808080, 0x80808080,
  0x00000000, 0x80000000, 0x00800000, 0x80800000, 0x00008000, 0x80008000, 0x00808000, 0x80808000,
  0x00000080, 0x80000080, 0x00800080, 0x80800080, 0x00008080, 0x80008080, 0x00808080, 0x80808080,
  0x00000000, 0x80000000, 0x00800000, 0x80800000, 0x00008000, 0x80008000, 0x00808000, 0x80808000,
  0x00000080, 0x80000080, 0x00800080, 0x80800080, 0x00008080, 0x80008080, 0x00808080, 0x80808080,
  0x00000000, 0x80000000, 0x00800000, 0x80800000, 0x00008000, 0x80008000, 0x00808000, 0x80808000,
  0x00000080, 0x80000080, 0x00800080, 0x80800080, 0x00008080, 0x80008080, 0x00808080, 0x80808080]"

definition Ip_inv_r :: "u32 list" where
  "Ip_inv_r = [
  0x00000000, 0x00000000, 0x00000000, 0x00000000, 0x00000000, 0x00000000, 0x00000000, 0x00000000,
  0x00000000, 0x00000000, 0x00000000, 0x00000000, 0x00000000, 0x00000000, 0x00000000, 0x00000000,
  0x80000000, 0x80000000, 0x80000000, 0x80000000, 0x80000000, 0x80000000, 0x80000000, 0x80000000,
  0x80000000, 0x80000000, 0x80000000, 0x80000000, 0x80000000, 0x80000000, 0x80000000, 0x80000000,
  0x00800000, 0x00800000, 0x00800000, 0x00800000, 0x00800000, 0x00800000, 0x00800000, 0x00800000,
  0x00800000, 0x00800000, 0x00800000, 0x00800000, 0x00800000, 0x00800000, 0x00800000, 0x00800000,
  0x80800000, 0x80800000, 0x80800000, 0x80800000, 0x80800000, 0x80800000, 0x80800000, 0x80800000,
  0x80800000, 0x80800000, 0x80800000, 0x80800000, 0x80800000, 0x80800000, 0x80800000, 0x80800000,
  0x00008000, 0x00008000, 0x00008000, 0x00008000, 0x00008000, 0x00008000, 0x00008000, 0x00008000,
  0x00008000, 0x00008000, 0x00008000, 0x00008000, 0x00008000, 0x00008000, 0x00008000, 0x00008000,
  0x80008000, 0x80008000, 0x80008000, 0x80008000, 0x80008000, 0x80008000, 0x80008000, 0x80008000,
  0x80008000, 0x80008000, 0x80008000, 0x80008000, 0x80008000, 0x80008000, 0x80008000, 0x80008000,
  0x00808000, 0x00808000, 0x00808000, 0x00808000, 0x00808000, 0x00808000, 0x00808000, 0x00808000,
  0x00808000, 0x00808000, 0x00808000, 0x00808000, 0x00808000, 0x00808000, 0x00808000, 0x00808000,
  0x80808000, 0x80808000, 0x80808000, 0x80808000, 0x80808000, 0x80808000, 0x80808000, 0x80808000,
  0x80808000, 0x80808000, 0x80808000, 0x80808000, 0x80808000, 0x80808000, 0x80808000, 0x80808000,
  0x00000080, 0x00000080, 0x00000080, 0x00000080, 0x00000080, 0x00000080, 0x00000080, 0x00000080,
  0x00000080, 0x00000080, 0x00000080, 0x00000080, 0x00000080, 0x00000080, 0x00000080, 0x00000080,
  0x80000080, 0x80000080, 0x80000080, 0x80000080, 0x80000080, 0x80000080, 0x80000080, 0x80000080,
  0x80000080, 0x80000080, 0x80000080, 0x80000080, 0x80000080, 0x80000080, 0x80000080, 0x80000080,
  0x00800080, 0x00800080, 0x00800080, 0x00800080, 0x00800080, 0x00800080, 0x00800080, 0x00800080,
  0x00800080, 0x00800080, 0x00800080, 0x00800080, 0x00800080, 0x00800080, 0x00800080, 0x00800080,
  0x80800080, 0x80800080, 0x80800080, 0x80800080, 0x80800080, 0x80800080, 0x80800080, 0x80800080,
  0x80800080, 0x80800080, 0x80800080, 0x80800080, 0x80800080, 0x80800080, 0x80800080, 0x80800080,
  0x00008080, 0x00008080, 0x00008080, 0x00008080, 0x00008080, 0x00008080, 0x00008080, 0x00008080,
  0x00008080, 0x00008080, 0x00008080, 0x00008080, 0x00008080, 0x00008080, 0x00008080, 0x00008080,
  0x80008080, 0x80008080, 0x80008080, 0x80008080, 0x80008080, 0x80008080, 0x80008080, 0x80008080,
  0x80008080, 0x80008080, 0x80008080, 0x80008080, 0x80008080, 0x80008080, 0x80008080, 0x80008080,
  0x00808080, 0x00808080, 0x00808080, 0x00808080, 0x00808080, 0x00808080, 0x00808080, 0x00808080,
  0x00808080, 0x00808080, 0x00808080, 0x00808080, 0x00808080, 0x00808080, 0x00808080, 0x00808080,
  0x80808080, 0x80808080, 0x80808080, 0x80808080, 0x80808080, 0x80808080, 0x80808080, 0x80808080,
  0x80808080, 0x80808080, 0x80808080, 0x80808080, 0x80808080, 0x80808080, 0x80808080, 0x80808080]"

end
