(* ===== verification/Leo_Des.thy ===== *)
theory Leo_Des
  imports Des_Tables Cipher
begin

text \<open>
  The DES of \<open>src/leo_des_crypto.c\<close>, which the build uses: key parity, the key schedule,
  the table-driven block function and the ECB and CBC modes over a buffer. The theory shows
  that decryption undoes encryption, for a block and for both modes, and that a CBC message
  may be processed in pieces.
\<close>

section \<open>Key parity and key schedule\<close>

text \<open>One turn of the loop of \<open>des_setparity\<close>.\<close>

definition setparity_byte :: "byte \<Rightarrow> byte" where
  "setparity_byte k =
     (let k7 = k AND 0x7f; c1 = k7 XOR push_bit 4 k7; c2 = c1 XOR push_bit 2 c1;
          c3 = c2 XOR push_bit 1 c2
      in k7 XOR (NOT c3 AND 0x80))"

definition des_setparity :: "byte list \<Rightarrow> byte list result" where
  "des_setparity key =
     (if length key < 8 then Inl Out_Of_Bounds
      else Inr (map setparity_byte (take 8 key) @ drop 8 key))"

definition DES_C :: nat where "DES_C = 28"
definition DES_D :: nat where "DES_D = 0"

definition nshifts :: "nat list" where
  "nshifts = [1, 1, 2, 2, 2, 2, 2, 2, 1, 2, 2, 2, 2, 2, 2, 1]"

definition pc1 :: "nat list" where
  "pc1 = [
    DES_C + 20, DES_C + 12, DES_C + 4, DES_D + 0, DES_D + 4, DES_D + 12, DES_D + 20,
    DES_C + 21, DES_C + 13, DES_C + 5, DES_D + 1, DES_D + 5, DES_D + 13, DES_D + 21,
    DES_C + 22, DES_C + 14, DES_C + 6, DES_D + 2, DES_D + 6, DES_D + 14, DES_D + 22,
    DES_C + 23, DES_C + 15, DES_C + 7, DES_D + 3, DES_D + 7, DES_D + 15, DES_D + 23,
    DES_C + 24, DES_C + 16, DES_C + 8, DES_C + 0, DES_D + 8, DES_D + 16, DES_D + 24,
    DES_C + 25, DES_C + 17, DES_C + 9, DES_C + 1, DES_D + 9, DES_D + 17, DES_D + 25,
    DES_C + 26, DES_C + 18, DES_C + 10, DES_C + 2, DES_D + 10, DES_D + 18, DES_D + 26,
    DES_C + 27, DES_C + 19, DES_C + 11, DES_C + 3, DES_D + 11, DES_D + 19, DES_D + 27]"

definition pc2_c :: "nat list" where
  "pc2_c = [
    14, 11, 17,  4, 27, 23,
    25,  0, 13, 22,  7, 18,
     5,  9, 16, 24,  2, 20,
    12, 21,  1,  8, 15, 26]"

definition pc2_d :: "nat list" where
  "pc2_d = [
    15,  4, 25, 19,  9,  1,
    26, 16,  5, 11, 23,  8,
    12,  7, 17,  0, 22,  3,
    10, 14,  6, 20, 27, 24]"

text \<open>Permuted choice 1: seven bits of each key byte, from the top, go to \<open>c\<close> or \<open>d\<close>.\<close>

fun pc1_byte :: "byte \<Rightarrow> nat list \<Rightarrow> u32 \<times> u32 \<Rightarrow> u32 \<times> u32" where
  "pc1_byte b [] cd = cd"
| "pc1_byte b (p # ps) (c, d) =
     pc1_byte (push_bit 1 b) ps
       (if b AND 0x80 \<noteq> 0
        then (if DES_C \<le> p then (c OR push_bit (p - DES_C) 1, d) else (c, d OR push_bit p 1))
        else (c, d))"

fun pc1_loop :: "byte list \<Rightarrow> nat list \<Rightarrow> u32 \<times> u32 \<Rightarrow> u32 \<times> u32" where
  "pc1_loop [] p cd = cd"
| "pc1_loop (b # bs) p cd = pc1_loop bs (drop 7 p) (pc1_byte b (take 7 p) cd)"

definition rot28 :: "nat \<Rightarrow> u32 \<Rightarrow> u32" where
  "rot28 n x = (push_bit n x OR drop_bit (28 - n) x) AND 0x0fffffff"

text \<open>Permuted choice 2: six bits make a group, under a mask that starts at 0x20.\<close>

fun pc2_group :: "u32 \<Rightarrow> byte \<Rightarrow> byte \<Rightarrow> nat list \<Rightarrow> byte" where
  "pc2_group x k m [] = k"
| "pc2_group x k m (p # ps) =
     pc2_group x (if drop_bit p x AND 1 \<noteq> 0 then k OR m else k) (drop_bit 1 m) ps"

definition pc2_groups :: "u32 \<Rightarrow> nat list \<Rightarrow> byte list" where
  "pc2_groups x p = map (\<lambda>j. pc2_group x 0 0x20 (take 6 (drop (6 * j) p))) [0..<4]"

definition round_key :: "u32 \<Rightarrow> u32 \<Rightarrow> u32 \<times> u32" where
  "round_key c d =
     (let w = pc2_groups c pc2_c @ pc2_groups d pc2_d in
      (push_bit 24 (ucast (w ! 0)) OR push_bit 16 (ucast (w ! 2)) OR
         push_bit 8 (ucast (w ! 4)) OR ucast (w ! 6),
       push_bit 24 (ucast (w ! 1)) OR push_bit 16 (ucast (w ! 3)) OR
         push_bit 8 (ucast (w ! 5)) OR ucast (w ! 7)))"

fun key_rounds :: "nat list \<Rightarrow> u32 \<Rightarrow> u32 \<Rightarrow> (u32 \<times> u32) list" where
  "key_rounds [] c d = []"
| "key_rounds (n # ns) c d =
     (let c' = rot28 n c; d' = rot28 n d in round_key c' d' # key_rounds ns c' d')"

definition des_setkey :: "byte list \<Rightarrow> (u32 \<times> u32) list result" where
  "des_setkey key =
     (if length key < 8 then Inl Out_Of_Bounds
      else let (c, d) = pc1_loop (take 8 key) pc1 (0, 0) in Inr (key_rounds nshifts c d))"

section \<open>The block function\<close>

definition ror4 :: "u32 \<Rightarrow> u32" where
  "ror4 x = drop_bit 4 x OR push_bit 28 x"

definition rol1 :: "u32 \<Rightarrow> u32" where
  "rol1 x = push_bit 1 x OR drop_bit 31 x"

definition ps :: "nat \<Rightarrow> u32 \<Rightarrow> u32" where
  "ps i j = Psboxes ! i ! unat j"

text \<open>Eight table look-ups, each shifted in under the one before.\<close>

definition transpose8 :: "u32 list \<Rightarrow> byte list \<Rightarrow> u32" where
  "transpose8 tab s = foldl (\<lambda>acc b. drop_bit 1 acc OR tab ! unat b) (tab ! unat (hd s)) (tl s)"

definition round_f :: "u32 \<times> u32 \<Rightarrow> u32 \<Rightarrow> u32" where
  "round_f k r =
     (let x1 = rol1 r; x2 = ror4 x1 XOR fst k; x1 = x1 XOR snd k in
      ps 7 (x1 AND 0x3f) XOR ps 5 (drop_bit 8 x1 AND 0x3f) XOR
      ps 3 (drop_bit 16 x1 AND 0x3f) XOR ps 1 (drop_bit 24 x1 AND 0x3f) XOR
      ps 6 (x2 AND 0x3f) XOR ps 4 (drop_bit 8 x2 AND 0x3f) XOR
      ps 2 (drop_bit 16 x2 AND 0x3f) XOR ps 0 (drop_bit 24 x2 AND 0x3f))"

definition des_round :: "u32 \<times> u32 \<Rightarrow> u32 \<times> u32 \<Rightarrow> u32 \<times> u32" where
  "des_round k lr = (case lr of (l, r) \<Rightarrow> (r, l XOR round_f k r))"

definition final_bytes :: "u32 \<Rightarrow> u32 \<Rightarrow> byte list" where
  "final_bytes l r =
     [ucast (r AND 0xff), ucast (l AND 0xff), ucast (drop_bit 8 r AND 0xff), ucast (drop_bit 8 l AND 0xff),
      ucast (drop_bit 16 r AND 0xff), ucast (drop_bit 16 l AND 0xff),
      ucast (drop_bit 24 r AND 0xff), ucast (drop_bit 24 l AND 0xff)]"

definition store_be :: "u32 \<Rightarrow> u32 \<Rightarrow> byte list" where
  "store_be l2 r2 =
     [ucast (drop_bit 24 l2), ucast (drop_bit 16 l2), ucast (drop_bit 8 l2), ucast l2,
      ucast (drop_bit 24 r2), ucast (drop_bit 16 r2), ucast (drop_bit 8 r2), ucast r2]"

definition des_block :: "(u32 \<times> u32) list \<Rightarrow> int \<Rightarrow> byte list \<Rightarrow> byte list" where
  "des_block keys flag s =
     (let lr = (transpose8 Ip_l s, transpose8 Ip_r s);
          (l, r) = (if flag = 0 then fold des_round keys lr else fold des_round (rev keys) lr);
          l2 = transpose8 Ip_inv_l (final_bytes l r);
          r2 = transpose8 Ip_inv_r (final_bytes l r)
      in store_be l2 r2)"

definition des_crypt :: "(u32 \<times> u32) list \<Rightarrow> byte list \<Rightarrow> nat \<Rightarrow> int \<Rightarrow> byte list result" where
  "des_crypt keys obj off flag =
     chain (mem_read obj off 8) (\<lambda>s. mem_write obj off (des_block keys flag s))"

section \<open>The modes\<close>

definition DES_DIRMASK :: u32 where "DES_DIRMASK = 1"
definition DES_ENCRYPT :: u32 where "DES_ENCRYPT = 0 * DES_DIRMASK"
definition DES_DECRYPT :: u32 where "DES_DECRYPT = 1 * DES_DIRMASK"
definition DES_DEVMASK :: u32 where "DES_DEVMASK = 2"
definition DES_HW :: u32 where "DES_HW = 0 * DES_DEVMASK"
definition DES_SW :: u32 where "DES_SW = 1 * DES_DEVMASK"
definition DESERR_NONE :: int where "DESERR_NONE = 0"
definition DESERR_NOHWDEVICE :: int where "DESERR_NOHWDEVICE = 1"

definition mode_result :: "u32 \<Rightarrow> int" where
  "mode_result mode = (if mode AND DES_DEVMASK = DES_SW then DESERR_NONE else DESERR_NOHWDEVICE)"

text \<open>The loops run over \<open>(len + 7) & ~7\<close> bytes, eight at a time.\<close>

definition block_count :: "u32 \<Rightarrow> nat" where
  "block_count len = unat ((len + 7) AND NOT 7) div 8"

fun ecb_loop :: "(u32 \<times> u32) list \<Rightarrow> int \<Rightarrow> nat \<Rightarrow> byte list \<Rightarrow> nat \<Rightarrow> byte list result" where
  "ecb_loop keys flag 0 obj off = Inr obj"
| "ecb_loop keys flag (Suc n) obj off =
     chain (des_crypt keys obj off flag) (\<lambda>obj'. ecb_loop keys flag n obj' (off + 8))"

definition ecb_crypt :: "byte list \<Rightarrow> byte list \<Rightarrow> nat \<Rightarrow> u32 \<Rightarrow> u32 \<Rightarrow> (int \<times> byte list) result" where
  "ecb_crypt key obj off len mode =
     chain (des_setkey key) (\<lambda>keys.
     chain (ecb_loop keys (uint (mode AND DES_DIRMASK)) (block_count len) obj off) (\<lambda>obj'.
     Inr (mode_result mode, obj')))"

fun cbc_encrypt_loop :: "(u32 \<times> u32) list \<Rightarrow> nat \<Rightarrow> byte list \<Rightarrow> nat \<Rightarrow> byte list \<Rightarrow> (byte list \<times> byte list) result" where
  "cbc_encrypt_loop keys 0 obj off ivec = Inr (obj, ivec)"
| "cbc_encrypt_loop keys (Suc n) obj off ivec =
     chain (mem_read obj off 8) (\<lambda>b.
     chain (mem_read ivec 0 8) (\<lambda>v.
     chain (mem_write obj off (map2 (XOR) b v)) (\<lambda>obj1.
     chain (des_crypt keys obj1 off 0) (\<lambda>obj2.
     chain (memcpy ivec 0 obj2 off 8) (\<lambda>ivec'.
     cbc_encrypt_loop keys n obj2 (off + 8) ivec')))))"

fun cbc_decrypt_loop :: "(u32 \<times> u32) list \<Rightarrow> nat \<Rightarrow> byte list \<Rightarrow> nat \<Rightarrow> byte list \<Rightarrow> (byte list \<times> byte list) result" where
  "cbc_decrypt_loop keys 0 obj off ivec = Inr (obj, ivec)"
| "cbc_decrypt_loop keys (Suc n) obj off ivec =
     chain (mem_read obj off 8) (\<lambda>nvec.
     chain (des_crypt keys obj off 1) (\<lambda>obj1.
     chain (mem_read obj1 off 8) (\<lambda>b.
     chain (mem_read ivec 0 8) (\<lambda>v.
     chain (mem_write obj1 off (map2 (XOR) b v)) (\<lambda>obj2.
     chain (mem_write ivec 0 nvec) (\<lambda>ivec'.
     cbc_decrypt_loop keys n obj2 (off + 8) ivec'))))))"

definition cbc_crypt :: "byte list \<Rightarrow> byte list \<Rightarrow> nat \<Rightarrow> u32 \<Rightarrow> u32 \<Rightarrow> byte list \<Rightarrow> (int \<times> byte list \<times> byte list) result" where
  "cbc_crypt key obj off len mode ivec =
     chain (des_setkey key) (\<lambda>keys.
     chain (if mode AND DES_DIRMASK = DES_ENCRYPT
            then cbc_encrypt_loop keys (block_count len) obj off ivec
            else cbc_decrypt_loop keys (block_count len) obj off ivec) (\<lambda>(obj', ivec').
     Inr (mode_result mode, obj', ivec')))"

section \<open>The transposes, bit by bit\<close>

lemma bit_table_consts:
  "bit (0x80000000 :: u32) n \<longleftrightarrow> n = 31" "bit (0x800000 :: u32) n \<longleftrightarrow> n = 23"
  "bit (0x8000 :: u32) n \<longleftrightarrow> n = 15" "bit (0x80 :: u32) n \<longleftrightarrow> n = 7"
proof -
  have e: "(0x80000000 :: u32) = push_bit 31 1" "(0x800000 :: u32) = push_bit 23 1"
    "(0x8000 :: u32) = push_bit 15 1" "(0x80 :: u32) = push_bit 7 1" by simp_all
  show "bit (0x80000000 :: u32) n \<longleftrightarrow> n = 31" "bit (0x800000 :: u32) n \<longleftrightarrow> n = 23"
    "bit (0x8000 :: u32) n \<longleftrightarrow> n = 15" "bit (0x80 :: u32) n \<longleftrightarrow> n = 7"
    unfolding e bit_push_bit_iff by (auto simp: bit_1_iff)
qed

lemma table_lin:
  "Ip_l = lin_table [0, 0x80000000, 0, 0x800000, 0, 0x8000, 0, 0x80]"
  "Ip_r = lin_table [0x80000000, 0, 0x800000, 0, 0x8000, 0, 0x80, 0]"
  "Ip_inv_l = lin_table [0, 0, 0, 0, 0x80, 0x8000, 0x800000, 0x80000000]"
  "Ip_inv_r = lin_table [0x80, 0x8000, 0x800000, 0x80000000, 0, 0, 0, 0]"
  by (simp_all add: Ip_l_def Ip_r_def Ip_inv_l_def Ip_inv_r_def Let_def)

lemma ex_less_8: "(\<exists>k < 8. P k) \<longleftrightarrow> P 0 \<or> P 1 \<or> P 2 \<or> P 3 \<or> P 4 \<or> P 5 \<or> P 6 \<or> P (7 :: nat)"
  by (auto simp: numeral_eq_Suc less_Suc_eq)

text \<open>Every table entry has bits 7, 15, 23 and 31 only; which bit of the index each one is.\<close>

definition table_bits :: "u32 list \<Rightarrow> (nat \<Rightarrow> nat) \<Rightarrow> bool" where
  "table_bits tab q \<longleftrightarrow>
     (\<forall>(b :: byte) n. bit (tab ! unat b) n \<longleftrightarrow> n < 32 \<and> n mod 8 = 7 \<and> bit b (q (n div 8)))"

lemma table_bitsI:
  assumes tab: "tab = lin_table cs" and len: "length cs = 8"
    and q: "\<And>b :: byte. \<And>n. (\<exists>k < 8. bit b k \<and> bit (rev cs ! k) n) \<longleftrightarrow>
      n = 7 \<and> bit b (q 0) \<or> n = 15 \<and> bit b (q 1) \<or> n = 23 \<and> bit b (q 2) \<or> n = 31 \<and> bit b (q 3)"
  shows "table_bits tab q"
  unfolding table_bits_def
proof (intro allI)
  fix b :: byte and n
  have "unat b < 2 ^ length cs" using unsigned_less [of b, where ?'a = nat] len by simp
  then have "bit (tab ! unat b) n \<longleftrightarrow> (\<exists>k < 8. bit b k \<and> bit (rev cs ! k) n)"
    by (simp add: tab bit_lin_table len bit_unsigned_iff)
  also have "\<dots> \<longleftrightarrow> n = 7 \<and> bit b (q 0) \<or> n = 15 \<and> bit b (q 1) \<or> n = 23 \<and> bit b (q 2) \<or> n = 31 \<and> bit b (q 3)"
    by (rule q)
  also have "\<dots> \<longleftrightarrow> n < 32 \<and> n mod 8 = 7 \<and> bit b (q (n div 8))"
  proof -
    have "n < 32 \<and> n mod 8 = 7 \<longleftrightarrow> n = 7 \<or> n = 15 \<or> n = 23 \<or> n = 31" by presburger
    then show ?thesis by auto
  qed
  finally show "bit (tab ! unat b) n \<longleftrightarrow> n < 32 \<and> n mod 8 = 7 \<and> bit b (q (n div 8))" .
qed

lemma table_bits_all:
  "table_bits Ip_l (\<lambda>m. 2 * m)" "table_bits Ip_r (\<lambda>m. 2 * m + 1)"
  "table_bits Ip_inv_l (\<lambda>m. 3 - m)" "table_bits Ip_inv_r (\<lambda>m. 7 - m)"
proof -
  show "table_bits Ip_l (\<lambda>m. 2 * m)"
    by (rule table_bitsI [OF table_lin(1)]) (simp, simp only: ex_less_8, auto simp: bit_table_consts simp del: bit_numeral_word_iff)
  show "table_bits Ip_r (\<lambda>m. 2 * m + 1)"
    by (rule table_bitsI [OF table_lin(2)]) (simp, simp only: ex_less_8, auto simp: bit_table_consts simp del: bit_numeral_word_iff)
  show "table_bits Ip_inv_l (\<lambda>m. 3 - m)"
    by (rule table_bitsI [OF table_lin(3)]) (simp, simp only: ex_less_8, auto simp: bit_table_consts simp del: bit_numeral_word_iff)
  show "table_bits Ip_inv_r (\<lambda>m. 7 - m)"
    by (rule table_bitsI [OF table_lin(4)]) (simp, simp only: ex_less_8, auto simp: bit_table_consts simp del: bit_numeral_word_iff)
qed

lemma ex_less_Suc_0: "(\<exists>k < Suc m. P k) \<longleftrightarrow> P 0 \<or> (\<exists>k < m. P (Suc k))"
  by (metis less_Suc_eq_0_disj)

lemma bit_transpose_fold:
  "bit (foldl (\<lambda>acc b. drop_bit 1 acc OR tab ! unat b) a bs) n \<longleftrightarrow>
   bit a (n + length bs) \<or> (\<exists>k < length bs. bit (tab ! unat (bs ! k)) (n + (length bs - 1 - k)))"
  for tab :: "u32 list" and bs :: "byte list"
proof (induction bs arbitrary: a)
  case Nil
  then show ?case by simp
next
  case (Cons b bs)
  show ?case
    by (simp only: foldl_Cons Cons.IH length_Cons ex_less_Suc_0) (simp add: bit_or_iff bit_drop_bit_eq add.commute)
qed

lemma bit_transpose8:
  assumes len: "length s = 8" and tab: "table_bits tab q"
  shows "bit (transpose8 tab s) n \<longleftrightarrow> n < 32 \<and> bit (s ! (n mod 8)) (q (n div 8))"
proof -
  have T: "bit (tab ! unat b) n \<longleftrightarrow> n < 32 \<and> n mod 8 = 7 \<and> bit b (q (n div 8))" for b :: byte and n
    using tab by (simp add: table_bits_def)
  obtain b bs where s: "s = b # bs" and bs: "length bs = 7" using len by (cases s) auto
  have "bit (transpose8 tab s) n \<longleftrightarrow> (\<exists>k < 8. bit (tab ! unat (s ! k)) (n + (7 - k)))"
  proof -
    have "(\<exists>k < 8. bit (tab ! unat (s ! k)) (n + (7 - k))) \<longleftrightarrow>
        bit (tab ! unat b) (n + 7) \<or> (\<exists>k < 7. bit (tab ! unat (bs ! k)) (n + (6 - k)))"
      using ex_less_Suc_0 [of 7 "\<lambda>k. bit (tab ! unat (s ! k)) (n + (7 - k))"] by (simp add: s)
    moreover have "bit (transpose8 tab s) n \<longleftrightarrow>
        bit (tab ! unat b) (n + 7) \<or> (\<exists>k < 7. bit (tab ! unat (bs ! k)) (n + (6 - k)))"
      unfolding transpose8_def s list.sel bit_transpose_fold bs by simp
    ultimately show ?thesis by simp
  qed
  also have "\<dots> \<longleftrightarrow> n < 32 \<and> bit (s ! (n mod 8)) (q (n div 8))"
  proof
    assume "\<exists>k < 8. bit (tab ! unat (s ! k)) (n + (7 - k))"
    then obtain k where k: "k < 8" "n + (7 - k) < 32" "(n + (7 - k)) mod 8 = 7"
        "bit (s ! k) (q ((n + (7 - k)) div 8))" by (auto simp: T)
    define m where "m = (n + (7 - k)) div 8"
    have "8 * m + 7 = n + (7 - k)" using k(3) mult_div_mod_eq [of 8 "n + (7 - k)"] by (simp add: m_def)
    then have n: "n = 8 * m + k" using k(1) by linarith
    then have "n mod 8 = k" and "n div 8 = m" using k(1) by simp_all
    moreover have "bit (s ! k) (q m)" using k(4) by (simp only: m_def)
    moreover have "n < 32" using k(2) by linarith
    ultimately show "n < 32 \<and> bit (s ! (n mod 8)) (q (n div 8))" by simp
  next
    assume a: "n < 32 \<and> bit (s ! (n mod 8)) (q (n div 8))"
    define m where "m = n div 8"
    have "8 * m + n mod 8 = n" and "n mod 8 < 8" by (simp_all add: m_def)
    then have e: "n + (7 - n mod 8) = 8 * m + 7" by linarith
    have "m < 4" using a by (simp add: m_def div_less_iff_less_mult)
    then have "bit (tab ! unat (s ! (n mod 8))) (n + (7 - n mod 8))"
      using a unfolding e T by (simp add: m_def)
    moreover have "n mod 8 < 8" by simp
    ultimately show "\<exists>k < 8. bit (tab ! unat (s ! k)) (n + (7 - k))" by blast
  qed
  finally show ?thesis .
qed

lemmas bit_initial_final =
  bit_transpose8 [OF _ table_bits_all(1)] bit_transpose8 [OF _ table_bits_all(2)]
  bit_transpose8 [OF _ table_bits_all(3)] bit_transpose8 [OF _ table_bits_all(4)]

section \<open>The final transpose undoes the initial one\<close>

definition output_block :: "u32 \<times> u32 \<Rightarrow> byte list" where
  "output_block lr = (case lr of (l, r) \<Rightarrow>
     store_be (transpose8 Ip_inv_l (final_bytes l r)) (transpose8 Ip_inv_r (final_bytes l r)))"

definition input_block :: "byte list \<Rightarrow> u32 \<times> u32" where
  "input_block s = (transpose8 Ip_l s, transpose8 Ip_r s)"

lemma des_block_eq:
  "des_block keys flag s =
     output_block (fold des_round (if flag = 0 then keys else rev keys) (input_block s))"
  by (simp add: des_block_def output_block_def input_block_def split: prod.split)

lemma length_final_bytes [simp]: "length (final_bytes l r) = 8"
  by (simp add: final_bytes_def)

lemma length_output_block [simp]: "length (output_block lr) = 8"
  by (simp add: output_block_def store_be_def split: prod.split)

lemma bit_final_bytes:
  assumes "m < 8" and "j < 8"
  shows "bit (final_bytes l r ! m) j \<longleftrightarrow> bit (if even m then r else l) (8 * (m div 2) + j)"
proof -
  have "m = 0 \<or> m = 1 \<or> m = 2 \<or> m = 3 \<or> m = 4 \<or> m = 5 \<or> m = 6 \<or> m = 7" using assms(1) by auto
  then show ?thesis using assms(2)
    by (elim disjE) (simp_all add: final_bytes_def bit_unsigned_iff bit_drop_bit_eq)
qed

lemma bit_store_be:
  assumes "j < 8" and "m < 8"
  shows "bit (store_be l2 r2 ! j) m \<longleftrightarrow> bit (if j < 4 then l2 else r2) (8 * (3 - j mod 4) + m)"
proof -
  have "j = 0 \<or> j = 1 \<or> j = 2 \<or> j = 3 \<or> j = 4 \<or> j = 5 \<or> j = 6 \<or> j = 7" using assms(1) by auto
  then show ?thesis using assms(2)
    by (elim disjE) (simp_all add: store_be_def bit_unsigned_iff bit_drop_bit_eq)
qed

lemma bit_output_block:
  assumes "j < 8" and "m < 8"
  shows "bit (output_block (l, r) ! j) m \<longleftrightarrow> bit (if even m then r else l) (8 * (m div 2) + j)"
proof -
  have j4: "j mod 4 = (if j < 4 then j else j - 4)" using assms by (simp add: mod_if)
  define p where "p = 8 * (3 - j mod 4) + m"
  have p: "p < 32" "p div 8 = 3 - j mod 4" "p mod 8 = m" using assms by (auto simp: p_def)
  have "bit (output_block (l, r) ! j) m \<longleftrightarrow>
      bit (final_bytes l r ! m) (if j < 4 then 3 - (3 - j mod 4) else 7 - (3 - j mod 4))"
    using assms p by (simp add: output_block_def bit_store_be bit_initial_final flip: p_def)
  also have "(if j < 4 then 3 - (3 - j mod 4) else 7 - (3 - j mod 4)) = j"
    using assms by (simp add: j4)
  finally show ?thesis using assms by (simp add: bit_final_bytes)
qed

lemma bit_input_block:
  assumes "length s = 8"
  shows "bit (fst (input_block s)) n \<longleftrightarrow> n < 32 \<and> bit (s ! (n mod 8)) (2 * (n div 8))"
    and "bit (snd (input_block s)) n \<longleftrightarrow> n < 32 \<and> bit (s ! (n mod 8)) (2 * (n div 8) + 1)"
  using assms by (simp_all add: input_block_def bit_initial_final)

lemma input_output_block: "input_block (output_block (l, r)) = (r, l)"
proof (rule prod_eqI; rule bit_word_eqI)
  fix n assume n: "n < LENGTH(32)"
  then have "n div 8 < 4" by (simp add: div_less_iff_less_mult)
  then have "n mod 8 < 8" "2 * (n div 8) < 8" "2 * (n div 8) + 1 < 8" by simp_all
  then show "bit (fst (input_block (output_block (l, r)))) n = bit (fst (r, l)) n"
    and "bit (snd (input_block (output_block (l, r)))) n = bit (snd (r, l)) n"
    using n by (simp_all add: bit_input_block bit_output_block)
qed

lemma output_input_block:
  assumes "length s = 8"
  shows "output_block (prod.swap (input_block s)) = s"
proof (rule nth_equalityI)
  show "length (output_block (prod.swap (input_block s))) = length s" using assms by simp
  fix j assume "j < length (output_block (prod.swap (input_block s)))"
  then have j: "j < 8" by simp
  show "output_block (prod.swap (input_block s)) ! j = s ! j"
  proof (rule bit_word_eqI)
    fix m assume m: "m < LENGTH(8)"
    then have "m div 2 < 4" by (simp add: div_less_iff_less_mult)
    then have b: "8 * (m div 2) + j < 32" using j by simp
    have e: "(8 * (m div 2) + j) mod 8 = j" "(8 * (m div 2) + j) div 8 = m div 2" using j by auto
    have "prod.swap (input_block s) = (snd (input_block s), fst (input_block s))"
      by (simp add: prod.swap_def)
    then have "bit (output_block (prod.swap (input_block s)) ! j) m \<longleftrightarrow>
        bit (if even m then fst (input_block s) else snd (input_block s)) (8 * (m div 2) + j)"
      using j m by (simp add: bit_output_block)
    also have "\<dots> \<longleftrightarrow> bit (s ! j) m"
      using assms b e by (cases "even m") (simp_all add: bit_input_block)
    finally show "bit (output_block (prod.swap (input_block s)) ! j) m = bit (s ! j) m" .
  qed
qed

section \<open>Decryption undoes encryption\<close>

interpretation leo_feistel: feistel round_f des_round
  by unfold_locales (simp add: des_round_def)

lemma des_block_round_trip:
  assumes "length s = 8"
  shows "des_block keys 1 (des_block keys 0 s) = s"
    and "des_block keys 0 (des_block keys 1 s) = s"
proof -
  have io: "input_block (output_block lr) = prod.swap lr" for lr
    by (cases lr) (simp add: input_output_block)
  show "des_block keys 1 (des_block keys 0 s) = s"
    using leo_feistel.rounds_undo [of keys "input_block s"] assms
    by (simp add: des_block_eq io output_input_block)
  show "des_block keys 0 (des_block keys 1 s) = s"
    using leo_feistel.rounds_redo [of keys "input_block s"] assms
    by (simp add: des_block_eq io output_input_block)
qed

lemma length_des_block [simp]: "length (des_block keys flag s) = 8"
  by (simp add: des_block_eq)

interpretation leo_des: block_cipher 8 "des_block keys 0" "des_block keys 1" for keys
  by unfold_locales (simp_all add: des_block_round_trip)

section \<open>The loops over a buffer\<close>

lemma des_crypt_eq:
  "off + 8 \<le> length obj \<Longrightarrow>
   des_crypt keys obj off flag = Inr (overwrite obj off (des_block keys flag (take 8 (drop off obj))))"
  by (simp add: des_crypt_def mem_simps)

lemma ecb_blocks_length:
  "length (ecb_blocks e bs) = length bs"
  "(\<And>b. length (e b) = 8) \<Longrightarrow> \<forall>c \<in> set (ecb_blocks e bs). length c = 8"
  by (induction bs) simp_all

text \<open>What writing one block does to the rest of the buffer.\<close>

lemma overwrite_block:
  assumes "length c = 8" and "off + 8 \<le> length obj"
  shows "length (overwrite obj off c) = length obj"
    and "drop (off + 8) (overwrite obj off c) = drop (off + 8) obj"
    and "take 8 (drop off (overwrite obj off c)) = c"
    and "length c' = 8 \<Longrightarrow> overwrite (overwrite obj off c) off c' = overwrite obj off c'"
  using assms overwrite_overwrite_same [of c' c off obj] by (simp_all add: overwrite_def)

lemma overwrite_blocks:
  "length c = 8 \<Longrightarrow> off + 8 + length cs \<le> length obj \<Longrightarrow>
   overwrite (overwrite obj off c) (off + 8) cs = overwrite obj off (c @ cs)"
  using overwrite_append [of c cs obj off] by simp

lemma ecb_loop_eq:
  "off + 8 * n \<le> length obj \<Longrightarrow>
   ecb_loop keys flag n obj off =
     Inr (overwrite obj off (concat (ecb_blocks (des_block keys flag) (chunks n (drop off obj)))))"
proof (induction n arbitrary: obj off)
  case 0
  then show ?case by simp
next
  case (Suc n)
  let ?c = "des_block keys flag (take 8 (drop off obj))" and ?rest = "chunks n (drop (off + 8) obj)"
  let ?obj = "overwrite obj off ?c" and ?cs = "concat (ecb_blocks (des_block keys flag) ?rest)"
  have "\<forall>c \<in> set (ecb_blocks (des_block keys flag) ?rest). length c = 8"
    by (rule ecb_blocks_length) simp
  from length_concat_blocks [OF this] have l: "length ?cs = 8 * n" by (simp add: ecb_blocks_length)
  have p: "off + 8 \<le> length obj" using Suc.prems by simp
  note st = overwrite_block [of ?c, OF length_des_block p]
  have "ecb_loop keys flag (Suc n) obj off = ecb_loop keys flag n ?obj (off + 8)"
    using p by (simp add: des_crypt_eq)
  also have "\<dots> = Inr (overwrite ?obj (off + 8) ?cs)"
    using Suc.prems Suc.IH [of "off + 8" ?obj] st(1,2) by simp
  also have "\<dots> = Inr (overwrite obj off (?c @ ?cs))"
    using overwrite_blocks [of ?c off ?cs obj] Suc.prems l by simp
  finally show ?case by (simp add: add.commute)
qed

lemma cbc_encrypt_loop_eq:
  "off + 8 * n \<le> length obj \<Longrightarrow> length v = 8 \<Longrightarrow>
   cbc_encrypt_loop keys n obj off v =
     (case cbc_enc (des_block keys 0) v (chunks n (drop off obj)) of (cs, v') \<Rightarrow>
       Inr (overwrite obj off (concat cs), v'))"
proof (induction n arbitrary: obj off v)
  case 0
  then show ?case by simp
next
  case (Suc n)
  define x where "x = map2 (XOR) (take 8 (drop off obj)) v"
  define c where "c = des_block keys 0 x"
  let ?rest = "chunks n (drop (off + 8) obj)"
  obtain cs v' where e: "cbc_enc (des_block keys 0) c ?rest = (cs, v')"
    by (cases "cbc_enc (des_block keys 0) c ?rest")
  have p: "off + 8 \<le> length obj" and lx: "length x = 8" and lc: "length c = 8"
    using Suc.prems by (simp_all add: x_def c_def)
  have rest: "\<forall>b \<in> set ?rest. length b = 8" using Suc.prems by (intro chunks_lengths) simp
  have l: "length (concat cs) = 8 * n"
    using leo_des.cbc_enc_lengths [OF rest lc, of keys] e by (simp add: length_concat_blocks)
  have "cbc_encrypt_loop keys (Suc n) obj off v = cbc_encrypt_loop keys n (overwrite obj off c) (off + 8) c"
    using p lx lc Suc.prems(2) overwrite_block [OF lx p] overwrite_block [OF lc p]
    by (simp add: des_crypt_eq mem_simps overwrite_0 c_def flip: x_def)
  also have "\<dots> = Inr (overwrite (overwrite obj off c) (off + 8) (concat cs), v')"
    using Suc.prems Suc.IH [of "off + 8" "overwrite obj off c" c] overwrite_block [OF lc p] lc e by simp
  also have "\<dots> = Inr (overwrite obj off (c @ concat cs), v')"
    using overwrite_blocks [OF lc, of off "concat cs" obj] Suc.prems l by simp
  finally show ?case using e by (simp add: add.commute Let_def c_def x_def)
qed

lemma cbc_dec_lengths:
  "\<forall>b \<in> set cs. length b = 8 \<Longrightarrow> length v = 8 \<Longrightarrow> (\<And>b. length (d b) = 8) \<Longrightarrow>
   (\<forall>b \<in> set (fst (cbc_dec d v cs)). length b = 8) \<and> length (fst (cbc_dec d v cs)) = length cs"
proof (induction cs arbitrary: v)
  case (Cons c cs)
  from Cons.IH [of c] Cons.prems show ?case by (auto simp: Let_def split: prod.splits)
qed simp

lemma cbc_decrypt_loop_eq:
  "off + 8 * n \<le> length obj \<Longrightarrow> length v = 8 \<Longrightarrow>
   cbc_decrypt_loop keys n obj off v =
     (case cbc_dec (des_block keys 1) v (chunks n (drop off obj)) of (bs, v') \<Rightarrow>
       Inr (overwrite obj off (concat bs), v'))"
proof (induction n arbitrary: obj off v)
  case 0
  then show ?case by simp
next
  case (Suc n)
  define c where "c = take 8 (drop off obj)"
  define x where "x = des_block keys 1 c"
  define b where "b = map2 (XOR) x v"
  let ?rest = "chunks n (drop (off + 8) obj)"
  obtain bs v' where e: "cbc_dec (des_block keys 1) c ?rest = (bs, v')"
    by (cases "cbc_dec (des_block keys 1) c ?rest")
  have p: "off + 8 \<le> length obj" and lc: "length c = 8" and lx: "length x = 8" and lb: "length b = 8"
    using Suc.prems by (simp_all add: x_def c_def b_def)
  have rest: "\<forall>b \<in> set ?rest. length b = 8" using Suc.prems by (intro chunks_lengths) simp
  have l: "length (concat bs) = 8 * n"
    using cbc_dec_lengths [OF rest lc, of "des_block keys 1"] e by (simp add: length_concat_blocks)
  have "cbc_decrypt_loop keys (Suc n) obj off v = cbc_decrypt_loop keys n (overwrite obj off b) (off + 8) c"
    using p lx lc lb Suc.prems(2) overwrite_block [OF lx p] overwrite_block [OF lb p]
    by (simp add: des_crypt_eq mem_simps overwrite_0 flip: c_def x_def b_def)
  also have "\<dots> = Inr (overwrite (overwrite obj off b) (off + 8) (concat bs), v')"
    using Suc.prems Suc.IH [of "off + 8" "overwrite obj off b" c] overwrite_block [OF lb p] lc e by simp
  also have "\<dots> = Inr (overwrite obj off (b @ concat bs), v')"
    using overwrite_blocks [OF lb, of off "concat bs" obj] Suc.prems l by simp
  finally show ?case using e by (simp add: add.commute Let_def c_def x_def b_def)
qed

section \<open>What the file promises\<close>

lemma block_count_eq:
  "block_count len = (if unat len + 7 < 2 ^ 32 then (unat len + 7) div 8 else 0)"
proof -
  have "drop_bit 3 ((len + 7) AND NOT 7) = drop_bit 3 (len + 7)"
  proof (rule bit_word_eqI)
    fix n assume n: "n < LENGTH(32)"
    have "(7 :: u32) = Bit_Operations.mask 3" by (simp add: mask_eq_exp_minus_1)
    then have "\<not> bit (7 :: u32) (3 + n)" by (simp only: bit_mask_iff) simp
    then show "bit (drop_bit 3 ((len + 7) AND NOT 7)) n = bit (drop_bit 3 (len + 7)) n"
      using bit_imp_le_length [of "len + 7" "3 + n"]
      by (auto simp only: bit_drop_bit_eq o_def bit_and_iff bit_not_iff possible_bit_word)
  qed
  from arg_cong [OF this, of unat] have "block_count len = unat (len + 7) div 8"
    unfolding unat_drop_bit_eq block_count_def by (simp add: drop_bit_eq_div)
  also have "\<dots> = (if unat len + 7 < 2 ^ 32 then (unat len + 7) div 8 else 0)"
  proof (cases "unat len + 7 < 2 ^ 32")
    case True
    then show ?thesis by (simp add: unat_word_ariths)
  next
    case False
    have "unat len < 2 ^ 32" using unsigned_less [of len, where ?'a = nat] by simp
    then have "(unat len + 7) mod 2 ^ 32 = unat len + 7 - 2 ^ 32" using False by (simp add: mod_if)
    then have "unat (len + 7) < 7" using \<open>unat len < 2 ^ 32\<close> by (simp add: unat_word_ariths)
    then show ?thesis using False by simp
  qed
  finally show ?thesis .
qed

lemma byte_masks: "bit (0x7f :: byte) n \<longleftrightarrow> n < 7" "bit (0x80 :: byte) n \<longleftrightarrow> n = 7"
proof -
  have e: "(0x7f :: byte) = Bit_Operations.mask 7" by (simp add: mask_eq_exp_minus_1)
  show "bit (0x7f :: byte) n \<longleftrightarrow> n < 7" unfolding e bit_mask_iff by auto
  have e: "(0x80 :: byte) = push_bit 7 1" by simp
  show "bit (0x80 :: byte) n \<longleftrightarrow> n = 7" unfolding e bit_push_bit_iff by (auto simp: bit_1_iff)
qed

lemma even_sum_7: "even (\<Sum>i<7. of_bool (P i) :: nat) \<longleftrightarrow>
    (P 0 = (P 1 = (P 2 = (P 3 = (P 4 = (P 5 = (\<not> P 6)))))))" for P :: "nat \<Rightarrow> bool"
proof -
  have "{..<7::nat} = {0, 1, 2, 3, 4, 5, 6}" by auto
  then have "(\<Sum>i<7. of_bool (P i) :: nat) = of_bool (P 0) + (of_bool (P 1) + (of_bool (P 2) + (of_bool (P 3) +
      (of_bool (P 4) + (of_bool (P 5) + of_bool (P 6))))))"
    by (simp del: sum_of_bool_eq)
  then show ?thesis by (auto simp del: sum_of_bool_eq)
qed

lemma bit_setparity_byte:
  "bit (setparity_byte k) n \<longleftrightarrow>
    (if n = 7 then even (\<Sum>i<7. of_bool (bit k i) :: nat) else n < 7 \<and> bit k n)"
proof -
  consider "n = 7" | "n < 7" | "7 < n" by linarith
  then show ?thesis
  proof cases
    case 1
    have c1: "bit (k AND 0x7f XOR push_bit 4 (k AND 0x7f)) n \<longleftrightarrow>
        n < 8 \<and> ((n < 7 \<and> bit k n) \<noteq> (4 \<le> n \<and> n - 4 < 7 \<and> bit k (n - 4)))" for n
      by (simp only: bit_xor_iff bit_and_iff bit_push_bit_iff byte_masks possible_bit_word)
        (auto dest: bit_imp_le_length)
    have "bit (setparity_byte k) 7 \<longleftrightarrow>
       (bit k 3 \<noteq> (bit k 5 \<noteq> bit k 1)) = (bit k 6 \<noteq> (bit k 2 \<noteq> (bit k 4 \<noteq> bit k 0)))"
      unfolding setparity_byte_def Let_def
      by (simp only: bit_xor_iff [of _ "push_bit _ _"] bit_xor_iff [of _ "NOT _ AND _"]
          bit_and_iff bit_not_iff bit_push_bit_iff byte_masks possible_bit_word c1) auto
    then show ?thesis unfolding 1 even_sum_7 by auto
  next
    case 2
    then show ?thesis unfolding setparity_byte_def Let_def
      by (simp add: bit_xor_iff bit_and_iff byte_masks del: bit_numeral_word_iff)
  next
    case 3
    then show ?thesis unfolding setparity_byte_def Let_def
      by (simp add: bit_xor_iff bit_and_iff byte_masks del: bit_numeral_word_iff)
  qed
qed
text \<open>\<open>des_setparity\<close> keeps the seven key bits of every byte and sets the top bit so that
  the number of one bits of the byte is odd.\<close>

theorem setparity_odd:
  "setparity_byte k AND 0x7f = k AND 0x7f \<and> odd (\<Sum>i<8. of_bool (bit (setparity_byte k) i) :: nat)"
proof
  show "setparity_byte k AND 0x7f = k AND 0x7f"
    by (rule bit_word_eqI) (auto simp add: bit_and_iff byte_masks bit_setparity_byte simp del: bit_numeral_word_iff)
  have "(\<Sum>i<7. of_bool (bit (setparity_byte k) i) :: nat) = (\<Sum>i<7. of_bool (bit k i))"
    by (rule sum.cong) (simp_all add: bit_setparity_byte)
  moreover have "(\<Sum>i<8. of_bool (bit (setparity_byte k) i) :: nat) =
     (\<Sum>i<7. of_bool (bit (setparity_byte k) i)) + of_bool (bit (setparity_byte k) 7)"
    using sum.lessThan_Suc [of "\<lambda>i. of_bool (bit (setparity_byte k) i) :: nat" 7] by simp
  ultimately show "odd (\<Sum>i<8. of_bool (bit (setparity_byte k) i) :: nat)"
    by (simp add: bit_setparity_byte)
qed
lemma Psboxes_eq: "Psboxes = map2 (\<lambda>p s. map (\<lambda>j. p ! j) s) Ptbl Sboxes"
  unfolding Psboxes_def Ptbl_def Sboxes_def list.map zip_Cons_Cons prod.case zip_Nil
  by (simp add: Psboxes_0_def Psboxes_1_def Psboxes_2_def Psboxes_3_def Psboxes_4_def Psboxes_5_def
      Psboxes_6_def Psboxes_7_def Ptbl_0_def Ptbl_1_def Ptbl_2_def Ptbl_3_def Ptbl_4_def Ptbl_5_def
      Ptbl_6_def Ptbl_7_def Sboxes_0_def Sboxes_1_def Sboxes_2_def Sboxes_3_def Sboxes_4_def
      Sboxes_5_def Sboxes_6_def Sboxes_7_def)

text \<open>The combined tables the block function reads are the eight DES S-boxes followed by the
  permutation P: entry \<open>j\<close> of table \<open>i\<close> is entry \<open>Sboxes[i][j]\<close> of \<open>Ptbl[i]\<close>.\<close>

theorem Psboxes_are_P_of_Sboxes:
  "Psboxes = map2 (\<lambda>p s. map (\<lambda>j. p ! j) s) Ptbl Sboxes"
  by (rule Psboxes_eq)

text \<open>\<open>des_crypt\<close> with the decrypting flag restores the block it encrypted, for any key schedule, and
  touches nothing but the eight bytes.\<close>

theorem des_crypt_round_trip:
  assumes "off + 8 \<le> length obj"
  shows "\<exists>obj'. des_crypt keys obj off 0 = Inr obj' \<and> des_crypt keys obj' off 1 = Inr obj \<and>
    length obj' = length obj \<and> take off obj' = take off obj \<and> drop (off + 8) obj' = drop (off + 8) obj"
proof -
  let ?b = "take 8 (drop off obj)" and ?c = "des_block keys 0 (take 8 (drop off obj))"
  let ?obj = "overwrite obj off ?c"
  note ob = overwrite_block [of ?c, OF length_des_block assms]
  have b: "length ?b = 8" using assms by simp
  have "des_crypt keys ?obj off 1 = Inr (overwrite ?obj off ?b)"
    using assms b ob by (simp add: des_crypt_eq des_block_round_trip)
  also have "overwrite ?obj off ?b = overwrite obj off ?b" by (rule ob(4) [OF b])
  also have "\<dots> = obj" using overwrite_chunks [of off 1 obj] assms by simp
  finally show ?thesis
    using assms ob des_crypt_eq [OF assms] by (intro exI [of _ ?obj]) (simp add: overwrite_def)
qed

theorem des_crypt_round_trip_witness:
  "\<exists>obj'. des_crypt [(1, 2), (3, 4)] [0, 1, 2, 3, 4, 5, 6, 7, 8] 1 0 = Inr obj' \<and>
     des_crypt [(1, 2), (3, 4)] obj' 1 1 = Inr [0, 1, 2, 3, 4, 5, 6, 7, 8]"
  using des_crypt_round_trip [of 1 "[0, 1, 2, 3, 4, 5, 6, 7, 8]" "[(1, 2), (3, 4)]"] by auto

lemma des_setkey_Inr:
  assumes "8 \<le> length key"
  obtains keys where "des_setkey key = Inr keys"
  using assms by (cases "pc1_loop (take 8 key) pc1 (0, 0)") (simp add: des_setkey_def)

lemma overwrite_outside:
  "off + length bs \<le> length obj \<Longrightarrow> take off (overwrite obj off bs) = take off obj \<and>
   drop (off + length bs) (overwrite obj off bs) = drop (off + length bs) obj"
  by (simp add: overwrite_def)

lemmas mode_defs = DES_DIRMASK_def DES_ENCRYPT_def DES_DECRYPT_def DES_DEVMASK_def DES_SW_def DES_HW_def
  mode_result_def DESERR_NONE_def DESERR_NOHWDEVICE_def

lemma ecb_crypt_inverse:
  assumes "8 \<le> length key" and "off + 8 * block_count len \<le> length obj"
    and "m1 AND DES_DIRMASK = DES_ENCRYPT" and "m2 AND DES_DIRMASK = DES_DECRYPT"
  shows "\<exists>obj'. ecb_crypt key obj off len m1 = Inr (mode_result m1, obj') \<and>
    ecb_crypt key obj' off len m2 = Inr (mode_result m2, obj) \<and> length obj' = length obj \<and>
    take off obj' = take off obj \<and> drop (off + 8 * block_count len) obj' = drop (off + 8 * block_count len) obj"
proof -
  let ?n = "block_count len"
  obtain keys where k: "des_setkey key = Inr keys" using assms(1) by (rule des_setkey_Inr)
  let ?bs = "chunks ?n (drop off obj)" and ?e = "ecb_blocks (des_block keys 0)" and ?d = "ecb_blocks (des_block keys 1)"
  let ?obj = "overwrite obj off (concat (?e ?bs))"
  have f: "uint (m1 AND DES_DIRMASK) = 0" "uint (m2 AND DES_DIRMASK) = 1"
    by (simp_all only: assms(3,4)) (simp_all add: DES_ENCRYPT_def DES_DECRYPT_def DES_DIRMASK_def)
  have c8: "\<forall>c \<in> set (?e ?bs). length c = 8" by (rule ecb_blocks_length) simp
  have lc: "length (?e ?bs) = ?n" by (simp add: ecb_blocks_length)
  have l: "length (concat (?e ?bs)) = 8 * ?n" using length_concat_blocks [OF c8] lc by simp
  have lobj: "length ?obj = length obj" using assms(2) l by (intro length_overwrite) simp
  have b8: "\<forall>b \<in> set ?bs. length b = 8" using assms(2) by (intro chunks_lengths) simp
  have ch: "chunks ?n (drop off ?obj) = ?e ?bs"
    using chunks_overwrite(1) [of off "?e ?bs" obj] c8 assms(2) lc by simp
  have "?d (?e ?bs) = ?bs" using b8 by (rule leo_des.ecb_round_trip)
  then have "ecb_loop keys 1 ?n ?obj off = Inr (overwrite ?obj off (concat ?bs))"
    using ecb_loop_eq [of off ?n ?obj keys 1] assms(2) lobj ch by simp
  also have "overwrite ?obj off (concat ?bs) = obj" by (rule overwrite_back [OF assms(2) lc c8])
  finally have "ecb_crypt key ?obj off len m2 = Inr (mode_result m2, obj)"
    by (simp only: ecb_crypt_def k f chain_simps)
  moreover have "ecb_crypt key obj off len m1 = Inr (mode_result m1, ?obj)"
    by (simp only: ecb_crypt_def k f chain_simps ecb_loop_eq [OF assms(2)])
  moreover have "take off ?obj = take off obj \<and> drop (off + 8 * ?n) ?obj = drop (off + 8 * ?n) obj"
    using overwrite_outside [of off "concat (?e ?bs)" obj] assms(2) unfolding l by blast
  ultimately show ?thesis using lobj by blast
qed

text \<open>C24. \<open>ecb_crypt\<close> works on whole blocks, \<open>len\<close> rounded up to a multiple of eight, and nothing else;
  called again with the decrypting mode and the same key it restores the buffer. The value it returns
  only says whether the software device was asked for.\<close>

theorem ecb_crypt_round_trip:
  assumes "8 \<le> length key" and "off + 8 * block_count len \<le> length obj"
    and "m1 AND DES_DIRMASK = DES_ENCRYPT" and "m2 AND DES_DIRMASK = DES_DECRYPT"
  shows "\<exists>obj'. ecb_crypt key obj off len m1 = Inr (mode_result m1, obj') \<and>
    ecb_crypt key obj' off len m2 = Inr (mode_result m2, obj) \<and> length obj' = length obj \<and>
    take off obj' = take off obj \<and> drop (off + 8 * block_count len) obj' = drop (off + 8 * block_count len) obj"
  by (rule ecb_crypt_inverse [OF assms])

theorem ecb_crypt_round_trip_witness:
  "\<exists>obj'. ecb_crypt [1, 2, 3, 4, 5, 6, 7, 8] (replicate 20 0) 2 13 DES_ENCRYPT = Inr (DESERR_NOHWDEVICE, obj') \<and>
    ecb_crypt [1, 2, 3, 4, 5, 6, 7, 8] obj' 2 13 (DES_DECRYPT OR DES_SW) = Inr (DESERR_NONE, replicate 20 0)"
proof -
  have "block_count 13 = 2" by (simp add: block_count_eq)
  then show ?thesis
    using ecb_crypt_round_trip [of "[1, 2, 3, 4, 5, 6, 7, 8]" 2 13 "replicate 20 0" DES_ENCRYPT "DES_DECRYPT OR DES_SW"]
    by (auto simp: mode_defs)
qed

text \<open>C25. \<open>cbc_crypt\<close> restores what it encrypted when decrypting starts from the same initial vector, and both
  directions leave the same chaining value behind, so that a longer message can go on from there.\<close>

theorem cbc_crypt_round_trip:
  assumes "8 \<le> length key" and "off + 8 * block_count len \<le> length obj" and "length ivec = 8"
    and "m1 AND DES_DIRMASK = DES_ENCRYPT" and "m2 AND DES_DIRMASK = DES_DECRYPT"
  shows "\<exists>obj' ivec'. cbc_crypt key obj off len m1 ivec = Inr (mode_result m1, obj', ivec') \<and>
    cbc_crypt key obj' off len m2 ivec = Inr (mode_result m2, obj, ivec') \<and> length ivec' = 8 \<and>
    length obj' = length obj"
proof -
  let ?n = "block_count len"
  obtain keys where k: "des_setkey key = Inr keys" using assms(1) by (rule des_setkey_Inr)
  let ?bs = "chunks ?n (drop off obj)"
  obtain cs ivec' where e: "cbc_enc (des_block keys 0) ivec ?bs = (cs, ivec')"
    by (cases "cbc_enc (des_block keys 0) ivec ?bs")
  let ?obj = "overwrite obj off (concat cs)"
  have f: "m1 AND DES_DIRMASK = DES_ENCRYPT" "m2 AND DES_DIRMASK \<noteq> DES_ENCRYPT"
    by (simp_all only: assms(4,5)) (simp_all add: mode_defs)
  have b8: "\<forall>b \<in> set ?bs. length b = 8" using assms(2) by (intro chunks_lengths) simp
  have c8: "\<forall>c \<in> set cs. length c = 8" and lc: "length cs = ?n" and lv: "length ivec' = 8"
    using leo_des.cbc_enc_lengths [OF b8 assms(3), of keys] e by simp_all
  have l: "length (concat cs) = 8 * ?n" using length_concat_blocks [OF c8] lc by simp
  have lobj: "length ?obj = length obj" using assms(2) l by (intro length_overwrite) simp
  have ch: "chunks ?n (drop off ?obj) = cs"
    using chunks_overwrite(1) [of off cs obj] c8 assms(2) lc by simp
  have "cbc_dec (des_block keys 1) ivec cs = (?bs, ivec')"
    using leo_des.cbc_round_trip [OF b8 assms(3), of keys] e by simp
  then have "cbc_decrypt_loop keys ?n ?obj off ivec = Inr (overwrite ?obj off (concat ?bs), ivec')"
    using cbc_decrypt_loop_eq [of off ?n ?obj ivec keys] assms(2,3) lobj ch by simp
  also have "overwrite ?obj off (concat ?bs) = obj" by (rule overwrite_back [OF assms(2) lc c8])
  finally have "cbc_crypt key ?obj off len m2 ivec = Inr (mode_result m2, obj, ivec')"
    using f(2) by (simp only: cbc_crypt_def k chain_simps if_False prod.case)
  moreover have "cbc_crypt key obj off len m1 ivec = Inr (mode_result m1, ?obj, ivec')"
    using cbc_encrypt_loop_eq [OF assms(2,3)]
    by (simp only: cbc_crypt_def k chain_simps if_True prod.case f(1) simp_thms e)
  ultimately show ?thesis using lobj lv by blast
qed

theorem cbc_crypt_round_trip_witness:
  "\<exists>obj' ivec'. cbc_crypt [1, 2, 3, 4, 5, 6, 7, 8] (replicate 16 5) 0 16 DES_SW (replicate 8 9) = Inr (DESERR_NONE, obj', ivec') \<and>
    cbc_crypt [1, 2, 3, 4, 5, 6, 7, 8] obj' 0 16 DES_DECRYPT (replicate 8 9) = Inr (DESERR_NOHWDEVICE, replicate 16 5, ivec')"
proof -
  have "block_count 16 = 2" by (simp add: block_count_eq)
  then show ?thesis
    using cbc_crypt_round_trip [of "[1, 2, 3, 4, 5, 6, 7, 8]" 0 16 "replicate 16 5" "replicate 8 9" DES_SW DES_DECRYPT]
    by (auto simp: mode_defs)
qed

text \<open>How many blocks a length stands for: the length rounded up, except for the seven largest lengths,
  where the rounding wraps to zero and nothing is encrypted.\<close>

theorem block_count_correct:
  "block_count len = (if unat len \<le> 2 ^ 32 - 8 then (unat len + 7) div 8 else 0)"
  by (auto simp: block_count_eq)

end
