(* ===== verification/Standard_Des.thy ===== *)
theory Standard_Des
  imports Cipher
begin

text \<open>
  The second DES of LeoNet, \<open>src/leo_standard_des_crypto.c\<close>, and its triple DES: permutations bit by bit,
  S-boxes by table, the key schedule stored in the order the direction needs. The theory shows that
  the initial permutation is undone by \<open>InvIP\<close> and that the decrypting schedule undoes the encrypting one.
\<close>

section \<open>Bit selection\<close>

text \<open>Bits are numbered from the left: bit \<open>b\<close> of an array, of a word from the right end, and of a word
  towards the left end.\<close>

definition BITNUM :: "byte list \<Rightarrow> nat \<Rightarrow> nat \<Rightarrow> u32" where
  "BITNUM a b c = push_bit c (ucast (drop_bit (7 - b mod 8) (a ! (b div 8))) AND 0x01)"

definition BITNUMINTR :: "u32 \<Rightarrow> nat \<Rightarrow> nat \<Rightarrow> u32" where
  "BITNUMINTR a b c = push_bit c (drop_bit (31 - b) a AND 0x00000001)"

definition BITNUMINTL :: "u32 \<Rightarrow> nat \<Rightarrow> nat \<Rightarrow> u32" where
  "BITNUMINTL a b c = drop_bit c (push_bit b a AND 0x80000000)"

definition SBOXBIT :: "u32 \<Rightarrow> u32" where
  "SBOXBIT a = (a AND 0x20) OR drop_bit 1 (a AND 0x1f) OR push_bit 4 (a AND 0x01)"

text \<open>The \<open>|\<close> of a list of terms.\<close>

definition or_all :: "'a::len word list \<Rightarrow> 'a word" where
  "or_all ws = foldr (OR) ws 0"

section \<open>The S-boxes\<close>

definition sbox1 :: "byte list" where
  "sbox1 = [
    14, 4, 13, 1, 2, 15, 11, 8, 3, 10, 6, 12, 5, 9, 0, 7,
    0, 15, 7, 4, 14, 2, 13, 1, 10, 6, 12, 11, 9, 5, 3, 8,
    4, 1, 14, 8, 13, 6, 2, 11, 15, 12, 9, 7, 3, 10, 5, 0,
    15, 12, 8, 2, 4, 9, 1, 7, 5, 11, 3, 14, 10, 0, 6, 13]"

definition sbox2 :: "byte list" where
  "sbox2 = [
    15, 1, 8, 14, 6, 11, 3, 4, 9, 7, 2, 13, 12, 0, 5, 10,
    3, 13, 4, 7, 15, 2, 8, 14, 12, 0, 1, 10, 6, 9, 11, 5,
    0, 14, 7, 11, 10, 4, 13, 1, 5, 8, 12, 6, 9, 3, 2, 15,
    13, 8, 10, 1, 3, 15, 4, 2, 11, 6, 7, 12, 0, 5, 14, 9]"

definition sbox3 :: "byte list" where
  "sbox3 = [
    10, 0, 9, 14, 6, 3, 15, 5, 1, 13, 12, 7, 11, 4, 2, 8,
    13, 7, 0, 9, 3, 4, 6, 10, 2, 8, 5, 14, 12, 11, 15, 1,
    13, 6, 4, 9, 8, 15, 3, 0, 11, 1, 2, 12, 5, 10, 14, 7,
    1, 10, 13, 0, 6, 9, 8, 7, 4, 15, 14, 3, 11, 5, 2, 12]"

definition sbox4 :: "byte list" where
  "sbox4 = [
    7, 13, 14, 3, 0, 6, 9, 10, 1, 2, 8, 5, 11, 12, 4, 15,
    13, 8, 11, 5, 6, 15, 0, 3, 4, 7, 2, 12, 1, 10, 14, 9,
    10, 6, 9, 0, 12, 11, 7, 13, 15, 1, 3, 14, 5, 2, 8, 4,
    3, 15, 0, 6, 10, 1, 13, 8, 9, 4, 5, 11, 12, 7, 2, 14]"

definition sbox5 :: "byte list" where
  "sbox5 = [
    2, 12, 4, 1, 7, 10, 11, 6, 8, 5, 3, 15, 13, 0, 14, 9,
    14, 11, 2, 12, 4, 7, 13, 1, 5, 0, 15, 10, 3, 9, 8, 6,
    4, 2, 1, 11, 10, 13, 7, 8, 15, 9, 12, 5, 6, 3, 0, 14,
    11, 8, 12, 7, 1, 14, 2, 13, 6, 15, 0, 9, 10, 4, 5, 3]"

definition sbox6 :: "byte list" where
  "sbox6 = [
    12, 1, 10, 15, 9, 2, 6, 8, 0, 13, 3, 4, 14, 7, 5, 11,
    10, 15, 4, 2, 7, 12, 9, 5, 6, 1, 13, 14, 0, 11, 3, 8,
    9, 14, 15, 5, 2, 8, 12, 3, 7, 0, 4, 10, 1, 13, 11, 6,
    4, 3, 2, 12, 9, 5, 15, 10, 11, 14, 1, 7, 6, 0, 8, 13]"

definition sbox7 :: "byte list" where
  "sbox7 = [
    4, 11, 2, 14, 15, 0, 8, 13, 3, 12, 9, 7, 5, 10, 6, 1,
    13, 0, 11, 7, 4, 9, 1, 10, 14, 3, 5, 12, 2, 15, 8, 6,
    1, 4, 11, 13, 12, 3, 7, 14, 10, 15, 6, 8, 0, 5, 9, 2,
    6, 11, 13, 8, 1, 4, 10, 7, 9, 5, 0, 15, 14, 2, 3, 12]"

definition sbox8 :: "byte list" where
  "sbox8 = [
    13, 2, 8, 4, 6, 15, 11, 1, 10, 9, 3, 14, 5, 0, 12, 7,
    1, 15, 13, 8, 10, 3, 7, 4, 12, 5, 6, 11, 0, 14, 9, 2,
    7, 11, 4, 1, 9, 12, 14, 2, 0, 6, 10, 13, 15, 3, 5, 8,
    2, 1, 14, 7, 4, 10, 8, 13, 15, 12, 9, 0, 3, 5, 6, 11]"

section \<open>The permutations of a block\<close>

text \<open>\<open>state[0]\<close> and \<open>state[1]\<close>: the bits of the block that go to the bits 31 down to 0.\<close>

definition IP_bits_0 :: "nat list" where
  "IP_bits_0 = [
    57, 49, 41, 33, 25, 17, 9, 1,
    59, 51, 43, 35, 27, 19, 11, 3,
    61, 53, 45, 37, 29, 21, 13, 5,
    63, 55, 47, 39, 31, 23, 15, 7]"

definition IP_bits_1 :: "nat list" where
  "IP_bits_1 = [
    56, 48, 40, 32, 24, 16, 8, 0,
    58, 50, 42, 34, 26, 18, 10, 2,
    60, 52, 44, 36, 28, 20, 12, 4,
    62, 54, 46, 38, 30, 22, 14, 6]"

definition IP :: "byte list \<Rightarrow> u32 \<times> u32" where
  "IP inp =
     (or_all (map2 (BITNUM inp) IP_bits_0 (rev [0..<32])),
      or_all (map2 (BITNUM inp) IP_bits_1 (rev [0..<32])))"

text \<open>Byte \<open>k\<close> of the result takes bits \<open>7 - k\<close>, \<open>15 - k\<close>, \<open>23 - k\<close> and \<open>31 - k\<close> of the two words in turn.\<close>

definition InvIP_byte :: "u32 \<times> u32 \<Rightarrow> nat \<Rightarrow> byte" where
  "InvIP_byte state k = (case state of (s0, s1) \<Rightarrow>
     ucast (or_all [
       BITNUMINTR s1 (7 - k) 7, BITNUMINTR s0 (7 - k) 6, BITNUMINTR s1 (15 - k) 5, BITNUMINTR s0 (15 - k) 4,
       BITNUMINTR s1 (23 - k) 3, BITNUMINTR s0 (23 - k) 2, BITNUMINTR s1 (31 - k) 1, BITNUMINTR s0 (31 - k) 0]))"

definition InvIP :: "u32 \<times> u32 \<Rightarrow> byte list" where
  "InvIP state = map (InvIP_byte state) [0..<8]"

section \<open>The round function\<close>

definition expand_1 :: "u32 \<Rightarrow> u32" where
  "expand_1 state = or_all [
     BITNUMINTL state 31 0, drop_bit 1 (state AND 0xf0000000), BITNUMINTL state 4 5,
     BITNUMINTL state 3 6, drop_bit 3 (state AND 0x0f000000), BITNUMINTL state 8 11,
     BITNUMINTL state 7 12, drop_bit 5 (state AND 0x00f00000), BITNUMINTL state 12 17,
     BITNUMINTL state 11 18, drop_bit 7 (state AND 0x000f0000), BITNUMINTL state 16 23]"

definition expand_2 :: "u32 \<Rightarrow> u32" where
  "expand_2 state = or_all [
     BITNUMINTL state 15 0, push_bit 15 (state AND 0x0000f000), BITNUMINTL state 20 5,
     BITNUMINTL state 19 6, push_bit 13 (state AND 0x00000f00), BITNUMINTL state 24 11,
     BITNUMINTL state 23 12, push_bit 11 (state AND 0x000000f0), BITNUMINTL state 28 17,
     BITNUMINTL state 27 18, push_bit 9 (state AND 0x0000000f), BITNUMINTL state 0 23]"

text \<open>\<open>lrgstate\<close>, with the round key added.\<close>

definition lrgstate :: "u32 \<Rightarrow> byte list \<Rightarrow> byte list" where
  "lrgstate state key =
     (let t1 = expand_1 state; t2 = expand_2 state in
      map2 (XOR)
        [ucast (drop_bit 24 t1 AND 0x000000ff), ucast (drop_bit 16 t1 AND 0x000000ff), ucast (drop_bit 8 t1 AND 0x000000ff),
         ucast (drop_bit 24 t2 AND 0x000000ff), ucast (drop_bit 16 t2 AND 0x000000ff), ucast (drop_bit 8 t2 AND 0x000000ff)]
        key)"

text \<open>The eight groups of six bits the S-boxes are given, before \<open>SBOXBIT\<close>.\<close>

definition sbox_args :: "byte list \<Rightarrow> u32 list" where
  "sbox_args g =
     (let l = (\<lambda>i. ucast (g ! i)) in
      [drop_bit 2 (l 0),
       push_bit 4 (l 0 AND 0x03) OR drop_bit 4 (l 1),
       push_bit 2 (l 1 AND 0x0f) OR drop_bit 6 (l 2),
       l 2 AND 0x3f,
       drop_bit 2 (l 3),
       push_bit 4 (l 3 AND 0x03) OR drop_bit 4 (l 4),
       push_bit 2 (l 4 AND 0x0f) OR drop_bit 6 (l 5),
       l 5 AND 0x3f])"

definition sboxes :: "byte list list" where
  "sboxes = [sbox1, sbox2, sbox3, sbox4, sbox5, sbox6, sbox7, sbox8]"

definition sbox_out :: "nat \<Rightarrow> u32 \<Rightarrow> u32" where
  "sbox_out i a = push_bit (28 - 4 * i) (ucast (sboxes ! i ! unat (SBOXBIT a)))"

definition sbox_step :: "byte list \<Rightarrow> u32" where
  "sbox_step g = or_all (map2 sbox_out [0..<8] (sbox_args g))"

definition P_bits :: "nat list" where
  "P_bits = [
    15, 6, 19, 20, 28, 11, 27, 16,
    0, 14, 22, 25, 4, 17, 30, 9,
    1, 7, 23, 13, 31, 26, 2, 8,
    18, 12, 29, 5, 21, 10, 3, 24]"

definition p_box :: "u32 \<Rightarrow> u32" where
  "p_box state = or_all (map2 (BITNUMINTL state) P_bits [0..<32])"

definition des_f :: "u32 \<Rightarrow> byte list \<Rightarrow> u32" where
  "des_f state key = p_box (sbox_step (lrgstate state key))"

section \<open>The key schedule\<close>

datatype DES_MODE = Mode_Encrypt | Mode_Decrypt

definition key_rnd_shift :: "nat list" where
  "key_rnd_shift = [1, 1, 2, 2, 2, 2, 2, 2, 1, 2, 2, 2, 2, 2, 2, 1]"

definition key_perm_c :: "nat list" where
  "key_perm_c = [
    56, 48, 40, 32, 24, 16, 8,
    0, 57, 49, 41, 33, 25, 17,
    9, 1, 58, 50, 42, 34, 26,
    18, 10, 2, 59, 51, 43, 35]"

definition key_perm_d :: "nat list" where
  "key_perm_d = [
    62, 54, 46, 38, 30, 22, 14,
    6, 61, 53, 45, 37, 29, 21,
    13, 5, 60, 52, 44, 36, 28,
    20, 12, 4, 27, 19, 11, 3]"

definition key_compression :: "nat list" where
  "key_compression = [
    13, 16, 10, 23, 0, 4, 2, 27,
    14, 5, 20, 9, 22, 18, 11, 3,
    25, 7, 15, 6, 26, 19, 12, 1,
    40, 51, 30, 36, 46, 54, 29, 39,
    50, 44, 32, 47, 43, 48, 38, 55,
    33, 52, 45, 41, 49, 35, 28, 31]"

text \<open>Permuted choice 1: bit \<open>perm[i]\<close> of the key goes to bit \<open>31 - i\<close>.\<close>

definition permuted_choice_1 :: "nat list \<Rightarrow> byte list \<Rightarrow> u32" where
  "permuted_choice_1 perm key = foldl (\<lambda>acc i. acc OR BITNUM key (perm ! i) (31 - i)) 0 [0..<28]"

definition rotate_half :: "nat \<Rightarrow> u32 \<Rightarrow> u32" where
  "rotate_half s x = (push_bit s x OR drop_bit (28 - s) x) AND 0xfffffff0"

text \<open>One row of the schedule: cleared, then filled bit by bit.\<close>

definition or_byte :: "byte list \<Rightarrow> nat \<Rightarrow> u32 \<Rightarrow> byte list" where
  "or_byte row i w = row[i := row ! i OR ucast w]"

definition subkey :: "u32 \<Rightarrow> u32 \<Rightarrow> byte list" where
  "subkey C D =
     (let row = foldl (\<lambda>row j. or_byte row (j div 8) (BITNUMINTR C (key_compression ! j) (7 - j mod 8)))
          (replicate 6 0) [0..<24]
      in foldl (\<lambda>row j. or_byte row (j div 8) (BITNUMINTR D (key_compression ! j - 28) (7 - j mod 8))) row [24..<48])"

fun schedule_loop :: "DES_MODE \<Rightarrow> nat list \<Rightarrow> u32 \<times> u32 \<Rightarrow> byte list list \<Rightarrow> byte list list" where
  "schedule_loop mode [] CD schedule = schedule"
| "schedule_loop mode (i # is) (C, D) schedule =
     (let C' = rotate_half (key_rnd_shift ! i) C; D' = rotate_half (key_rnd_shift ! i) D;
          to_gen = (if mode = Mode_Decrypt then 15 - i else i)
      in schedule_loop mode is (C', D') (schedule[to_gen := subkey C' D']))"

text \<open>\<open>key\<close> is an array from which eight bytes at \<open>off\<close> are read, \<open>schedule\<close> an array of 16 rows.\<close>

definition des_key_setup :: "byte list \<Rightarrow> nat \<Rightarrow> byte list list \<Rightarrow> DES_MODE \<Rightarrow> byte list list result" where
  "des_key_setup key off schedule mode =
     chain (mem_read key off 8) (\<lambda>k.
     if length schedule < 16 then Inl Out_Of_Bounds
     else Inr (schedule_loop mode [0..<16] (permuted_choice_1 key_perm_c k, permuted_choice_1 key_perm_d k) schedule))"

section \<open>The block function and triple DES\<close>

definition std_round :: "byte list \<Rightarrow> u32 \<times> u32 \<Rightarrow> u32 \<times> u32" where
  "std_round key state = (case state of (s0, s1) \<Rightarrow> (s1, des_f s1 key XOR s0))"

text \<open>Fifteen rounds that swap, a last one that does not.\<close>

definition std_rounds :: "byte list list \<Rightarrow> u32 \<times> u32 \<Rightarrow> u32 \<times> u32" where
  "std_rounds key state =
     (case foldl (\<lambda>state idx. std_round (key ! idx) state) state [0..<15] of
        (s0, s1) \<Rightarrow> (des_f s1 (key ! 15) XOR s0, s1))"

definition std_des_crypt :: "byte list \<Rightarrow> byte list \<Rightarrow> byte list list \<Rightarrow> byte list result" where
  "std_des_crypt inp out key =
     chain (mem_read inp 0 8) (\<lambda>b.
     if length key < 16 then Inl Out_Of_Bounds
     else mem_write out 0 (InvIP (std_rounds key (IP b))))"

text \<open>\<open>!mode\<close>.\<close>

definition not_mode :: "DES_MODE \<Rightarrow> DES_MODE" where
  "not_mode mode = (if mode = Mode_Encrypt then Mode_Decrypt else Mode_Encrypt)"

definition three_des_key_setup :: "byte list \<Rightarrow> byte list list list \<Rightarrow> DES_MODE \<Rightarrow> byte list list list result" where
  "three_des_key_setup key schedule mode =
     (if length schedule < 3 then Inl Out_Of_Bounds
      else let (o0, o1, o2) = (if mode = Mode_Encrypt then (0, 8, 16) else (16, 8, 0)) in
        chain (des_key_setup key o0 (schedule ! 0) mode) (\<lambda>s0.
        chain (des_key_setup key o1 (schedule ! 1) (not_mode mode)) (\<lambda>s1.
        chain (des_key_setup key o2 (schedule ! 2) mode) (\<lambda>s2.
        Inr (schedule[0 := s0, 1 := s1, 2 := s2])))))"

definition three_des_crypt :: "byte list \<Rightarrow> byte list \<Rightarrow> byte list list list \<Rightarrow> byte list result" where
  "three_des_crypt inp out key =
     (if length key < 3 then Inl Out_Of_Bounds
      else chain (std_des_crypt inp out (key ! 0)) (\<lambda>out1.
           chain (std_des_crypt out1 out1 (key ! 1)) (\<lambda>out2.
           std_des_crypt out2 out2 (key ! 2))))"

section \<open>Selected bits\<close>

lemma bit_or_all: "bit (or_all ws) n \<longleftrightarrow> (\<exists>w \<in> set ws. bit w n)"
  by (induction ws) (simp_all add: or_all_def bit_or_iff)

lemma bit_and_1: "bit (w AND 1) m \<longleftrightarrow> m = 0 \<and> bit w 0" for w :: "'a::len word"
  by (auto simp only: bit_and_iff bit_1_iff)

lemma bit_push_and_1:
  "bit (push_bit c (w AND 1) :: u32) n \<longleftrightarrow> n = c \<and> c < 32 \<and> bit w 0"
proof -
  have "bit (push_bit c (w AND 1) :: u32) n \<longleftrightarrow> c \<le> n \<and> n < 32 \<and> n - c = 0 \<and> bit w 0"
    by (auto simp only: bit_push_bit_iff bit_and_1 possible_bit_word len_bit0 len_num1 mult_1_right)
  then show ?thesis by auto
qed

lemma bit_BITNUM: "bit (BITNUM a b c) n \<longleftrightarrow> n = c \<and> c < 32 \<and> bit (a ! (b div 8)) (7 - b mod 8)"
proof -
  have "bit (ucast (drop_bit (7 - b mod 8) (a ! (b div 8))) :: u32) 0 \<longleftrightarrow> bit (a ! (b div 8)) (7 - b mod 8)"
    by (simp add: bit_unsigned_iff bit_drop_bit_eq)
  then show ?thesis unfolding BITNUM_def bit_push_and_1 by simp
qed

lemma bit_BITNUMINTR: "bit (BITNUMINTR a b c) n \<longleftrightarrow> n = c \<and> c < 32 \<and> bit a (31 - b)"
  unfolding BITNUMINTR_def bit_push_and_1 by (simp add: bit_drop_bit_eq)

lemma bit_BITNUMINTL:
  assumes "b < 32" and "c < 32"
  shows "bit (BITNUMINTL a b c) n \<longleftrightarrow> n = 31 - c \<and> bit a (31 - b)"
proof -
  have e: "(0x80000000 :: u32) = push_bit 31 (1 AND 1)" by simp
  have m: "bit (0x80000000 :: u32) k \<longleftrightarrow> k = 31" for k
    unfolding e bit_push_and_1 by simp
  have "bit (BITNUMINTL a b c) n \<longleftrightarrow> (b \<le> c + n \<and> bit a (c + n - b)) \<and> c + n = 31"
    unfolding BITNUMINTL_def bit_drop_bit_eq o_def bit_and_iff m bit_push_bit_iff possible_bit_word
    by (rule iffI; elim conjE; intro conjI; (assumption | simp only: len_bit0 len_num1 mult_1_right))
  moreover have "c + n = 31 \<longleftrightarrow> n = 31 - c" using assms(2) by linarith
  ultimately show ?thesis using assms by auto
qed

text \<open>Terms that each carry one bit, at descending or ascending positions.\<close>

lemma bit_or_zip:
  assumes "length cs = length bs"
  shows "bit (or_all (map2 g bs cs)) n \<longleftrightarrow> (\<exists>i<length bs. bit (g (bs ! i) (cs ! i)) n)"
proof -
  have e: "set (map2 g bs cs) = {g (bs ! i) (cs ! i) | i. i < length bs}"
    using assms by (auto simp: set_zip)
  show ?thesis unfolding bit_or_all e by blast
qed

lemma bit_or_positions:
  assumes "length bs = 32" and "length cs = 32" and "\<And>i m. i < 32 \<Longrightarrow> bit (g (bs ! i) (cs ! i)) m \<longleftrightarrow> m = 31 - i \<and> P (bs ! i)"
  shows "bit (or_all (map2 g bs cs) :: u32) n \<longleftrightarrow> n < 32 \<and> P (bs ! (31 - n))"
proof -
  have "bit (or_all (map2 g bs cs) :: u32) n \<longleftrightarrow> (\<exists>i<32. bit (g (bs ! i) (cs ! i)) n)"
    using assms(1,2) by (subst bit_or_zip) simp_all
  also have "\<dots> \<longleftrightarrow> (\<exists>i<32. n = 31 - i \<and> P (bs ! i))" using assms(3) by blast
  also have "\<dots> \<longleftrightarrow> n < 32 \<and> P (bs ! (31 - n))"
  proof
    assume "n < 32 \<and> P (bs ! (31 - n))"
    then show "\<exists>i<32. n = 31 - i \<and> P (bs ! i)" by (intro exI [of _ "31 - n"]) auto
  qed auto
  finally show ?thesis .
qed

lemma bit_or_descending:
  assumes "length bs = 32" and "\<And>b c m. b \<in> set bs \<Longrightarrow> c < 32 \<Longrightarrow> bit (g b c) m \<longleftrightarrow> m = c \<and> P b"
  shows "bit (or_all (map2 g bs (rev [0..<32])) :: u32) n \<longleftrightarrow> n < 32 \<and> P (bs ! (31 - n))"
  using assms by (intro bit_or_positions) (simp_all add: rev_nth del: upt_rec_numeral)

lemma bit_or_ascending:
  assumes "length bs = 32" and "\<And>b c m. b \<in> set bs \<Longrightarrow> c < 32 \<Longrightarrow> bit (g b c) m \<longleftrightarrow> m = 31 - c \<and> P b"
  shows "bit (or_all (map2 g bs [0..<32]) :: u32) n \<longleftrightarrow> n < 32 \<and> P (bs ! (31 - n))"
  using assms by (intro bit_or_positions) (simp_all del: upt_rec_numeral)

lemma all_less_list: "(\<forall>n<m. P n) \<longleftrightarrow> list_all P [0..<m]"
  by (auto simp: list_all_iff)

section \<open>The permutations of a block undo each other\<close>

lemma IP_table:
  "n < 32 \<Longrightarrow> IP_bits_0 ! (31 - n) div 8 = n mod 8 \<and> 7 - IP_bits_0 ! (31 - n) mod 8 = 2 * (n div 8) \<and>
     IP_bits_1 ! (31 - n) div 8 = n mod 8 \<and> 7 - IP_bits_1 ! (31 - n) mod 8 = 2 * (n div 8) + 1"
proof -
  have "\<forall>n<32. IP_bits_0 ! (31 - n) div 8 = n mod 8 \<and> 7 - IP_bits_0 ! (31 - n) mod 8 = 2 * (n div 8) \<and>
     IP_bits_1 ! (31 - n) div 8 = n mod 8 \<and> 7 - IP_bits_1 ! (31 - n) mod 8 = 2 * (n div 8) + 1"
    unfolding all_less_list by code_simp
  then show "n < 32 \<Longrightarrow> ?thesis" by blast
qed

lemma bit_IP:
  "bit (fst (IP b)) n \<longleftrightarrow> n < 32 \<and> bit (b ! (n mod 8)) (2 * (n div 8))"
  "bit (snd (IP b)) n \<longleftrightarrow> n < 32 \<and> bit (b ! (n mod 8)) (2 * (n div 8) + 1)"
proof -
  have "length IP_bits_0 = 32" "length IP_bits_1 = 32" by (simp_all add: IP_bits_0_def IP_bits_1_def)
  from this [THEN bit_or_descending, of "BITNUM b" "\<lambda>p. bit (b ! (p div 8)) (7 - p mod 8)" n]
  show "bit (fst (IP b)) n \<longleftrightarrow> n < 32 \<and> bit (b ! (n mod 8)) (2 * (n div 8))"
    and "bit (snd (IP b)) n \<longleftrightarrow> n < 32 \<and> bit (b ! (n mod 8)) (2 * (n div 8) + 1)"
    using IP_table [of n] by (auto simp: IP_def bit_BITNUM)
qed

lemma length_InvIP [simp]: "length (InvIP state) = 8"
  by (simp add: InvIP_def)

lemma bit_InvIP:
  assumes "k < 8" and "m < 8"
  shows "bit (InvIP (s0, s1) ! k) m \<longleftrightarrow> bit (if even m then s0 else s1) (8 * (m div 2) + k)"
proof -
  have b: "bit (InvIP (s0, s1) ! k) m \<longleftrightarrow>
      m = 7 \<and> bit s1 (31 - (7 - k)) \<or> m = 6 \<and> bit s0 (31 - (7 - k)) \<or> m = 5 \<and> bit s1 (31 - (15 - k)) \<or>
      m = 4 \<and> bit s0 (31 - (15 - k)) \<or> m = 3 \<and> bit s1 (31 - (23 - k)) \<or> m = 2 \<and> bit s0 (31 - (23 - k)) \<or>
      m = 1 \<and> bit s1 (31 - (31 - k)) \<or> m = 0 \<and> bit s0 (31 - (31 - k))"
    using assms by (auto simp: InvIP_def InvIP_byte_def bit_unsigned_iff bit_or_all bit_BITNUMINTR simp del: upt_rec_numeral)
  have "31 - (7 - k) = 24 + k" "31 - (15 - k) = 16 + k" "31 - (23 - k) = 8 + k" "31 - (31 - k) = k"
    using assms by simp_all
  moreover have "m = 0 \<or> m = 1 \<or> m = 2 \<or> m = 3 \<or> m = 4 \<or> m = 5 \<or> m = 6 \<or> m = 7" using assms(2) by auto
  ultimately show ?thesis unfolding b by (elim disjE) simp_all
qed

lemma IP_InvIP: "IP (InvIP st) = st"
proof (cases st)
  case st: (Pair s0 s1)
  show ?thesis unfolding st
  proof (rule prod_eqI; rule bit_word_eqI)
    fix n assume n: "n < LENGTH(32)"
    then have "n div 8 < 4" by (simp add: div_less_iff_less_mult)
    then have "n mod 8 < 8" "2 * (n div 8) < 8" "2 * (n div 8) + 1 < 8" by simp_all
    then show "bit (fst (IP (InvIP (s0, s1)))) n = bit (fst (s0, s1)) n"
      and "bit (snd (IP (InvIP (s0, s1)))) n = bit (snd (s0, s1)) n"
      using n by (simp_all add: bit_IP bit_InvIP)
  qed
qed

lemma InvIP_IP:
  assumes "length b = 8"
  shows "InvIP (IP b) = b"
proof (rule nth_equalityI)
  show "length (InvIP (IP b)) = length b" using assms by simp
  fix k assume "k < length (InvIP (IP b))"
  then have k: "k < 8" by simp
  show "InvIP (IP b) ! k = b ! k"
  proof (rule bit_word_eqI)
    fix m assume m: "m < LENGTH(8)"
    then have "m div 2 < 4" by (simp add: div_less_iff_less_mult)
    then have l: "8 * (m div 2) + k < 32" using k by simp
    have e: "(8 * (m div 2) + k) mod 8 = k" "(8 * (m div 2) + k) div 8 = m div 2" using k by auto
    have "bit (InvIP (IP b) ! k) m \<longleftrightarrow> bit (if even m then fst (IP b) else snd (IP b)) (8 * (m div 2) + k)"
      using bit_InvIP [OF k, of m "fst (IP b)" "snd (IP b)"] m by simp
    also have "\<dots> \<longleftrightarrow> bit (b ! k) m"
      using l e by (cases "even m") (simp_all add: bit_IP)
    finally show "bit (InvIP (IP b) ! k) m = bit (b ! k) m" .
  qed
qed

section \<open>The rounds backwards\<close>

interpretation std_feistel: feistel "\<lambda>k r. des_f r k" std_round
  by unfold_locales (simp add: std_round_def xor.commute)

lemma foldl_idx: "n \<le> length xs \<Longrightarrow> foldl (\<lambda>st i. g (xs ! i) st) a [0..<n] = fold g (take n xs) a"
  by (induction n) (simp_all add: take_Suc_conv_app_nth)

lemma std_rounds_eq:
  assumes "16 \<le> length key"
  shows "std_rounds key st = prod.swap (fold std_round (take 16 key) st)"
proof -
  have "take 16 key = take 15 key @ [key ! 15]" using take_Suc_conv_app_nth [of 15 key] assms by simp
  moreover have "foldl (\<lambda>state idx. std_round (key ! idx) state) st [0..<15] = fold std_round (take 15 key) st"
    using assms by (intro foldl_idx) simp
  ultimately show ?thesis
    by (simp add: std_rounds_def std_round_def split: prod.split del: upt_rec_numeral)
qed

definition std_block :: "byte list list \<Rightarrow> byte list \<Rightarrow> byte list" where
  "std_block key b = InvIP (prod.swap (fold std_round key (IP b)))"

lemma length_std_block [simp]: "length (std_block key b) = 8"
  by (simp add: std_block_def)

lemma std_block_round_trip:
  assumes "length b = 8"
  shows "std_block (rev key) (std_block key b) = b" and "std_block key (std_block (rev key) b) = b"
  using assms by (simp_all add: std_block_def IP_InvIP std_feistel.rounds_undo std_feistel.rounds_redo InvIP_IP)

interpretation std_des: block_cipher 8 "std_block key" "std_block (rev key)" for key
  by unfold_locales (simp_all add: std_block_round_trip)

lemma std_des_crypt_eq:
  assumes "8 \<le> length inp" and "8 \<le> length out" and "16 \<le> length key"
  shows "std_des_crypt inp out key = Inr (std_block (take 16 key) (take 8 inp) @ drop 8 out)"
  using assms by (simp add: std_des_crypt_def mem_simps std_rounds_eq std_block_def overwrite_0)

section \<open>The two schedules\<close>

text \<open>The round keys in the order they are generated.\<close>

fun std_subkeys :: "nat list \<Rightarrow> u32 \<times> u32 \<Rightarrow> byte list list" where
  "std_subkeys [] CD = []"
| "std_subkeys (n # ns) (C, D) =
     (let C' = rotate_half n C; D' = rotate_half n D in subkey C' D' # std_subkeys ns (C', D'))"

lemma length_std_subkeys [simp]: "length (std_subkeys ns CD) = length ns"
  by (induction ns CD rule: std_subkeys.induct) (simp_all add: Let_def)

definition std_keys :: "byte list \<Rightarrow> byte list list" where
  "std_keys k = std_subkeys key_rnd_shift (permuted_choice_1 key_perm_c k, permuted_choice_1 key_perm_d k)"

lemma length_key_rnd_shift [simp]: "length key_rnd_shift = 16"
  by (simp add: key_rnd_shift_def)

lemma length_std_keys [simp]: "length (std_keys k) = 16"
  by (simp add: std_keys_def)

lemma schedule_encrypt:
  "i \<le> 16 \<Longrightarrow> 16 \<le> length sch \<Longrightarrow>
   schedule_loop Mode_Encrypt [i..<16] CD sch = take i sch @ std_subkeys (drop i key_rnd_shift) CD @ drop 16 sch"
proof (induction "16 - i" arbitrary: i CD sch)
  case 0
  then show ?case by simp
next
  case (Suc k)
  obtain C D where CD: "CD = (C, D)" by (cases CD)
  have i: "i < 16" using Suc.hyps(2) by simp
  then have u: "[i..<16] = i # [Suc i..<16]" by (simp add: upt_conv_Cons)
  have d: "drop i key_rnd_shift = key_rnd_shift ! i # drop (Suc i) key_rnd_shift"
    using i by (simp add: Cons_nth_drop_Suc)
  show ?case
    using Suc.hyps(1) [of "Suc i"] Suc.hyps(2) Suc.prems i
    by (simp add: u d CD Let_def take_Suc_conv_app_nth take_update_swap list_update_beyond del: upt_Suc upt_rec_numeral)
qed

lemma schedule_decrypt:
  "i \<le> 16 \<Longrightarrow> 16 \<le> length sch \<Longrightarrow>
   schedule_loop Mode_Decrypt [i..<16] CD sch = rev (std_subkeys (drop i key_rnd_shift) CD) @ drop (16 - i) sch"
proof (induction "16 - i" arbitrary: i CD sch)
  case 0
  then show ?case by simp
next
  case (Suc k)
  obtain C D where CD: "CD = (C, D)" by (cases CD)
  have i: "i < 16" using Suc.hyps(2) by simp
  then have u: "[i..<16] = i # [Suc i..<16]" by (simp add: upt_conv_Cons)
  have d: "drop i key_rnd_shift = key_rnd_shift ! i # drop (Suc i) key_rnd_shift"
    using i by (simp add: Cons_nth_drop_Suc)
  have n: "drop (15 - i) (sch[15 - i := x]) = x # drop (16 - i) sch" for x
  proof -
    have "Suc (15 - i) = 16 - i" using i by simp
    moreover have "15 - i < length (sch[15 - i := x])" using i Suc.prems by simp
    ultimately show ?thesis using Cons_nth_drop_Suc [of "15 - i" "sch[15 - i := x]"] by simp
  qed
  have e: "16 - Suc i = 15 - i" by simp
  show ?case
    using Suc.hyps(1) [of "Suc i"] Suc.hyps(2) Suc.prems i
    by (simp add: u d CD Let_def n e del: upt_Suc upt_rec_numeral)
qed

lemma des_key_setup_eq:
  assumes "off + 8 \<le> length key" and "16 \<le> length sch"
  shows "des_key_setup key off sch Mode_Encrypt = Inr (std_keys (take 8 (drop off key)) @ drop 16 sch)"
    and "des_key_setup key off sch Mode_Decrypt = Inr (rev (std_keys (take 8 (drop off key))) @ drop 16 sch)"
  using assms schedule_encrypt [of 0 sch] schedule_decrypt [of 0 sch]
  by (simp_all add: des_key_setup_def mem_simps std_keys_def del: upt_rec_numeral)

section \<open>What the file promises\<close>

text \<open>A block encrypted with the schedule \<open>des_key_setup\<close> makes for encryption is restored by the same
  function with the schedule it makes for decryption, which is the same one in reverse order.\<close>

theorem std_des_round_trip:
  assumes "off + 8 \<le> length key" and "16 \<le> length sch" and "16 \<le> length sch'"
    and "8 \<le> length inp" and "8 \<le> length out" and "8 \<le> length out'"
  shows "\<exists>es ds c. des_key_setup key off sch Mode_Encrypt = Inr es \<and> des_key_setup key off sch' Mode_Decrypt = Inr ds \<and>
    take 16 ds = rev (take 16 es) \<and> std_des_crypt inp out es = Inr c \<and> length c = length out \<and>
    std_des_crypt c out' ds = Inr (take 8 inp @ drop 8 out')"
proof -
  let ?k = "std_keys (take 8 (drop off key))"
  let ?c = "std_block ?k (take 8 inp) @ drop 8 out"
  have "length (take 8 inp) = 8" using assms by simp
  then have "std_block (rev ?k) (std_block ?k (take 8 inp)) = take 8 inp" by (rule std_block_round_trip)
  then have "std_des_crypt ?c out' (rev ?k @ drop 16 sch') = Inr (take 8 inp @ drop 8 out')"
    using assms by (subst std_des_crypt_eq) simp_all
  moreover have "std_des_crypt inp out (?k @ drop 16 sch) = Inr ?c"
    using assms by (subst std_des_crypt_eq) simp_all
  ultimately show ?thesis
    using des_key_setup_eq [OF assms(1)] assms(2,3,5)
    by (intro exI [of _ "?k @ drop 16 sch"] exI [of _ "rev ?k @ drop 16 sch'"] exI [of _ ?c]) simp
qed

definition empty_schedule :: "byte list list" where
  "empty_schedule = replicate 16 (replicate 6 0)"

theorem std_des_round_trip_witness:
  "\<exists>es ds c. des_key_setup [1, 2, 3, 4, 5, 6, 7, 8] 0 empty_schedule Mode_Encrypt = Inr es \<and>
    des_key_setup [1, 2, 3, 4, 5, 6, 7, 8] 0 empty_schedule Mode_Decrypt = Inr ds \<and>
    std_des_crypt [9, 8, 7, 6, 5, 4, 3, 2] (replicate 8 0) es = Inr c \<and>
    std_des_crypt c (replicate 8 0) ds = Inr [9, 8, 7, 6, 5, 4, 3, 2]"
proof -
  have "16 \<le> length empty_schedule" by (simp add: empty_schedule_def)
  then show ?thesis
    using std_des_round_trip [of 0 "[1, 2, 3, 4, 5, 6, 7, 8]" empty_schedule empty_schedule "[9, 8, 7, 6, 5, 4, 3, 2]"
        "replicate 8 0" "replicate 8 0"] by auto
qed

text \<open>C26. Triple DES: the decrypting schedules, the three in reverse order and each for the opposite direction,
  restore what the encrypting schedules made of a block.\<close>

theorem three_des_round_trip:
  assumes "24 \<le> length key" and "length sch = 3" and "\<forall>s \<in> set sch. 16 \<le> length s"
    and "8 \<le> length inp" and "8 \<le> length out" and "8 \<le> length out'"
  shows "\<exists>es ds c. three_des_key_setup key sch Mode_Encrypt = Inr es \<and> three_des_key_setup key sch Mode_Decrypt = Inr ds \<and>
    three_des_crypt inp out es = Inr c \<and> length c = length out \<and>
    three_des_crypt c out' ds = Inr (take 8 inp @ drop 8 out')"
proof -
  let ?k = "\<lambda>off. std_keys (take 8 (drop off key))"
  obtain s0 s1 s2 where sch: "sch = [s0, s1, s2]"
    using assms(2) by (auto simp: eval_nat_numeral length_Suc_conv)
  then have l: "16 \<le> length s0" "16 \<le> length s1" "16 \<le> length s2" using assms(3) by simp_all
  have off: "0 + 8 \<le> length key" "8 + 8 \<le> length key" "16 + 8 \<le> length key" using assms(1) by simp_all
  let ?es = "[?k 0 @ drop 16 s0, rev (?k 8) @ drop 16 s1, ?k 16 @ drop 16 s2]"
  let ?ds = "[rev (?k 16) @ drop 16 s0, ?k 8 @ drop 16 s1, rev (?k 0) @ drop 16 s2]"
  have e: "three_des_key_setup key sch Mode_Encrypt = Inr ?es"
    using des_key_setup_eq [OF off(1)] des_key_setup_eq [OF off(2)] des_key_setup_eq [OF off(3)] l
    by (simp add: three_des_key_setup_def sch not_mode_def eval_nat_numeral)
  have d: "three_des_key_setup key sch Mode_Decrypt = Inr ?ds"
    using des_key_setup_eq [OF off(1)] des_key_setup_eq [OF off(2)] des_key_setup_eq [OF off(3)] l
    by (simp add: three_des_key_setup_def sch not_mode_def eval_nat_numeral)
  let ?c = "std_block (?k 16) (std_block (rev (?k 8)) (std_block (?k 0) (take 8 inp))) @ drop 8 out"
  have c: "three_des_crypt inp out ?es = Inr ?c"
    using assms(4,5) by (simp add: three_des_crypt_def std_des_crypt_eq nth_Cons')
  have "length (take 8 inp) = 8" using assms(4) by simp
  then have "three_des_crypt ?c out' ?ds = Inr (take 8 inp @ drop 8 out')"
    using assms(6) by (simp add: three_des_crypt_def std_des_crypt_eq nth_Cons' std_block_round_trip)
  with e d c show ?thesis using assms(5) by (intro exI [of _ ?es] exI [of _ ?ds] exI [of _ ?c]) simp
qed

theorem three_des_round_trip_witness:
  "\<exists>es ds c. three_des_key_setup (replicate 24 5) (replicate 3 empty_schedule) Mode_Encrypt = Inr es \<and>
    three_des_key_setup (replicate 24 5) (replicate 3 empty_schedule) Mode_Decrypt = Inr ds \<and>
    three_des_crypt [9, 8, 7, 6, 5, 4, 3, 2] (replicate 8 0) es = Inr c \<and>
    three_des_crypt c (replicate 8 0) ds = Inr [9, 8, 7, 6, 5, 4, 3, 2]"
proof -
  have "16 \<le> length empty_schedule" by (simp add: empty_schedule_def)
  then show ?thesis
    using three_des_round_trip [of "replicate 24 5" "replicate 3 empty_schedule" "[9, 8, 7, 6, 5, 4, 3, 2]"
        "replicate 8 0" "replicate 8 0"] by auto
qed

end
