(* ===== verification/Des_Schedule.thy ===== *)
theory Des_Schedule
  imports Leo_Des Standard_Des
begin

text \<open>
  The key schedules of the two DES implementations hold the same bits: \<open>des_setkey\<close> of
  \<open>src/leo_des_crypto.c\<close> and \<open>des_key_setup\<close> of \<open>src/leo_standard_des_crypto.c\<close>.
\<close>

section \<open>When round keys agree\<close>

text \<open>A round key of one representation and a row of the other hold the same 48 bits.\<close>

definition key_bit :: "u32 \<times> u32 \<Rightarrow> nat \<Rightarrow> nat \<Rightarrow> bool" where
  "key_bit k i b = bit (if even i then fst k else snd k) (24 - 8 * (i div 2) + b)"

definition key_rel :: "u32 \<times> u32 \<Rightarrow> byte list \<Rightarrow> bool" where
  "key_rel k row \<longleftrightarrow> length row = 6 \<and>
     (\<forall>i<8. \<forall>b<6. key_bit k i b = bit (row ! ((6 * i + 5 - b) div 8)) (7 - (6 * i + 5 - b) mod 8))"


section \<open>Permuted choice 1\<close>

lemma and_0x80: "b AND 0x80 \<noteq> 0 \<longleftrightarrow> bit b 7" for b :: byte
proof -
  have b: "bit (b AND 0x80) n \<longleftrightarrow> bit b n \<and> n = 7" for n
    by (simp add: bit_and_iff byte_masks del: bit_numeral_word_iff)
  show ?thesis
  proof
    assume "b AND 0x80 \<noteq> 0"
    then show "bit b 7" using b by (metis bit_word_eqI bit_0_eq bot_apply bot_bool_def)
  next
    assume "bit b 7"
    then have "bit (b AND 0x80) 7" using b by blast
    then show "b AND 0x80 \<noteq> 0" by (metis bit_0_eq bot_apply bot_bool_def)
  qed
qed

lemma bit_push_1: "bit (push_bit p 1 :: u32) n \<longleftrightarrow> n = p \<and> n < 32"
  unfolding bit_push_bit_iff bit_1_iff possible_bit_word by auto

lemmas bit_pow_2 = bit_push_1 [unfolded push_bit_of_1]

text \<open>The loop over the bits of one byte puts bit \<open>7 - t\<close> where entry \<open>t\<close> of the table says.\<close>

lemma bit_pc1_byte:
  "length qs \<le> 8 \<Longrightarrow> n < 32 \<Longrightarrow>
   (bit (fst (pc1_byte b qs (c, d))) n \<longleftrightarrow> bit c n \<or> (\<exists>t < length qs. qs ! t = 28 + n \<and> bit b (7 - t))) \<and>
   (bit (snd (pc1_byte b qs (c, d))) n \<longleftrightarrow> bit d n \<or> (\<exists>t < length qs. qs ! t = n \<and> n < 28 \<and> bit b (7 - t)))"
proof (induction qs arbitrary: b c d)
  case Nil
  then show ?case by simp
next
  case (Cons p qs)
  have sh: "bit (push_bit 1 b) (7 - t) \<longleftrightarrow> bit b (6 - t)" if "t < length qs" for t
    using that Cons.prems(1) unfolding bit_push_bit_iff possible_bit_word by (auto simp: Suc_le_eq)
  define c' where "c' = (if bit b 7 \<and> 28 \<le> p then c OR push_bit (p - 28) 1 else c)"
  define d' where "d' = (if bit b 7 \<and> p < 28 then d OR push_bit p 1 else d)"
  have step: "pc1_byte b (p # qs) (c, d) = pc1_byte (push_bit 1 b) qs (c', d')"
    by (simp add: and_0x80 c'_def d'_def DES_C_def)
  have c': "bit c' n \<longleftrightarrow> bit c n \<or> p = 28 + n \<and> bit b 7" and d': "bit d' n \<longleftrightarrow> bit d n \<or> p = n \<and> n < 28 \<and> bit b 7"
    using Cons.prems(2) by (auto simp: c'_def d'_def bit_or_iff bit_pow_2)
  have ih: "(bit (fst (pc1_byte (push_bit 1 b) qs (c', d'))) n \<longleftrightarrow>
        bit c' n \<or> (\<exists>t < length qs. qs ! t = 28 + n \<and> bit (push_bit 1 b) (7 - t))) \<and>
      (bit (snd (pc1_byte (push_bit 1 b) qs (c', d'))) n \<longleftrightarrow>
        bit d' n \<or> (\<exists>t < length qs. qs ! t = n \<and> n < 28 \<and> bit (push_bit 1 b) (7 - t)))"
    using Cons.prems by (intro Cons.IH) simp_all
  show ?case
    unfolding step length_Cons ex_less_Suc_0 c' d' using ih c' d' sh by auto
qed

lemma bit_pc1_loop:
  "length p = 7 * length bs \<Longrightarrow> n < 32 \<Longrightarrow>
   (bit (fst (pc1_loop bs p (c, d))) n \<longleftrightarrow>
      bit c n \<or> (\<exists>j < length bs. \<exists>t < 7. p ! (7 * j + t) = 28 + n \<and> bit (bs ! j) (7 - t))) \<and>
   (bit (snd (pc1_loop bs p (c, d))) n \<longleftrightarrow>
      bit d n \<or> (\<exists>j < length bs. \<exists>t < 7. p ! (7 * j + t) = n \<and> n < 28 \<and> bit (bs ! j) (7 - t)))"
proof (induction bs arbitrary: p c d)
  case Nil
  then show ?case by simp
next
  case (Cons b bs)
  obtain c' d' where cd: "pc1_byte b (take 7 p) (c, d) = (c', d')" by (cases "pc1_byte b (take 7 p) (c, d)")
  have l: "length (take 7 p) = 7" using Cons.prems by simp
  have one: "(bit c' n \<longleftrightarrow> bit c n \<or> (\<exists>t < 7. p ! t = 28 + n \<and> bit b (7 - t))) \<and>
      (bit d' n \<longleftrightarrow> bit d n \<or> (\<exists>t < 7. p ! t = n \<and> n < 28 \<and> bit b (7 - t)))"
    using bit_pc1_byte [of "take 7 p" n b c d] l Cons.prems by (simp add: cd cong: conj_cong)
  have nth: "drop 7 p ! (7 * j + t) = p ! (7 * Suc j + t)" for j t
    using Cons.prems by (simp add: add.assoc)
  have ih: "(bit (fst (pc1_loop bs (drop 7 p) (c', d'))) n \<longleftrightarrow>
        bit c' n \<or> (\<exists>j < length bs. \<exists>t < 7. p ! (7 * Suc j + t) = 28 + n \<and> bit (bs ! j) (7 - t))) \<and>
      (bit (snd (pc1_loop bs (drop 7 p) (c', d'))) n \<longleftrightarrow>
        bit d' n \<or> (\<exists>j < length bs. \<exists>t < 7. p ! (7 * Suc j + t) = n \<and> n < 28 \<and> bit (bs ! j) (7 - t)))"
    using Cons.IH [of "drop 7 p" c' d'] Cons.prems unfolding nth by simp
  show ?case
    unfolding pc1_loop.simps cd length_Cons ex_less_Suc_0 using ih one by auto
qed

lemma bit_permuted_choice_1:
  "bit (permuted_choice_1 perm key) n \<longleftrightarrow> (\<exists>i<28. n = 31 - i \<and> bit (key ! (perm ! i div 8)) (7 - perm ! i mod 8))"
proof -
  have f: "bit (foldl (\<lambda>acc i. acc OR BITNUM key (perm ! i) (31 - i)) a is) n \<longleftrightarrow>
      bit a n \<or> (\<exists>i \<in> set is. n = 31 - i \<and> bit (key ! (perm ! i div 8)) (7 - perm ! i mod 8))" for a "is"
    by (induction "is" arbitrary: a) (auto simp: bit_or_iff bit_BITNUM)
  show ?thesis unfolding permuted_choice_1_def f by auto
qed

lemma pc1_table:
  "\<forall>i<28. key_perm_c ! i div 8 < 8 \<and> key_perm_c ! i mod 8 < 7 \<and>
     pc1 ! (7 * (key_perm_c ! i div 8) + key_perm_c ! i mod 8) = 55 - i \<and>
     key_perm_d ! i div 8 < 8 \<and> key_perm_d ! i mod 8 < 7 \<and>
     pc1 ! (7 * (key_perm_d ! i div 8) + key_perm_d ! i mod 8) = 27 - i"
  unfolding all_less_list by code_simp

lemma pc1_distinct: "distinct pc1" "length pc1 = 56" "list_all (\<lambda>x. x < 56) pc1"
  by code_simp+

lemma pc1_unique:
  assumes "j < 8" "t < 7" "q div 8 < 8" "q mod 8 < 7" and "pc1 ! (7 * (q div 8) + q mod 8) = x"
  shows "pc1 ! (7 * j + t) = x \<longleftrightarrow> j = q div 8 \<and> t = q mod 8"
proof -
  have "7 * j + t < 56" "7 * (q div 8) + q mod 8 < 56" using assms(1-4) by linarith+
  then have "pc1 ! (7 * j + t) = x \<longleftrightarrow> 7 * j + t = 7 * (q div 8) + q mod 8"
    using assms(5) nth_eq_iff_index_eq [OF pc1_distinct(1)] pc1_distinct(2) by metis
  also have "\<dots> \<longleftrightarrow> j = q div 8 \<and> t = q mod 8"
  proof
    assume e: "7 * j + t = 7 * (q div 8) + q mod 8"
    have "(7 * j + t) div 7 = j" "(7 * (q div 8) + q mod 8) div 7 = q div 8" using assms(2,4) by simp_all
    with e show "j = q div 8 \<and> t = q mod 8" by simp
  qed simp
  finally show ?thesis .
qed

lemma pc1_pick:
  assumes "q div 8 < 8" "q mod 8 < 7" and "pc1 ! (7 * (q div 8) + q mod 8) = x"
  shows "(\<exists>j<8. \<exists>t<7. pc1 ! (7 * j + t) = x \<and> P j t) \<longleftrightarrow> P (q div 8) (q mod 8)"
proof
  assume "\<exists>j<8. \<exists>t<7. pc1 ! (7 * j + t) = x \<and> P j t"
  then obtain j t where "j < 8" "t < 7" "pc1 ! (7 * j + t) = x" "P j t" by blast
  then show "P (q div 8) (q mod 8)" using pc1_unique [OF _ _ assms, of j t] by simp
next
  assume "P (q div 8) (q mod 8)"
  with assms show "\<exists>j<8. \<exists>t<7. pc1 ! (7 * j + t) = x \<and> P j t"
    by (intro exI [of _ "q div 8"] exI [of _ "q mod 8"] conjI)
qed

lemma permuted_choice_1_shift:
  assumes "\<And>i. i < 28 \<Longrightarrow> bit c (27 - i) \<longleftrightarrow> bit (key ! (perm ! i div 8)) (7 - perm ! i mod 8)"
  shows "permuted_choice_1 perm key = push_bit 4 c"
proof (rule bit_word_eqI)
  fix n assume n: "n < LENGTH(32)"
  have "bit (permuted_choice_1 perm key) n \<longleftrightarrow> (\<exists>i<28. n = 31 - i \<and> bit c (27 - i))"
    unfolding bit_permuted_choice_1 using assms by blast
  also have "\<dots> \<longleftrightarrow> 4 \<le> n \<and> bit c (n - 4)"
  proof
    assume "4 \<le> n \<and> bit c (n - 4)"
    then show "\<exists>i<28. n = 31 - i \<and> bit c (27 - i)" using n by (intro exI [of _ "31 - n"]) auto
  qed auto
  finally show "bit (permuted_choice_1 perm key) n = bit (push_bit 4 c) n"
    using n by (simp add: bit_push_bit_iff)
qed

lemma permuted_choice_1_eq:
  assumes "length key = 8" and "pc1_loop key pc1 (0, 0) = (c, d)"
  shows "permuted_choice_1 key_perm_c key = push_bit 4 c" and "permuted_choice_1 key_perm_d key = push_bit 4 d"
    and "\<forall>n\<ge>28. \<not> bit c n \<and> \<not> bit d n"
proof -
  have l: "length pc1 = 7 * length key" using assms(1) pc1_distinct(2) by simp
  have b: "n < 32 \<Longrightarrow> (bit c n \<longleftrightarrow> (\<exists>j < 8. \<exists>t < 7. pc1 ! (7 * j + t) = 28 + n \<and> bit (key ! j) (7 - t))) \<and>
      (bit d n \<longleftrightarrow> (\<exists>j < 8. \<exists>t < 7. pc1 ! (7 * j + t) = n \<and> n < 28 \<and> bit (key ! j) (7 - t)))" for n
    using bit_pc1_loop [OF l, of n 0 0] assms by simp
  have c: "bit c (27 - i) \<longleftrightarrow> bit (key ! (key_perm_c ! i div 8)) (7 - key_perm_c ! i mod 8)"
    and d: "bit d (27 - i) \<longleftrightarrow> bit (key ! (key_perm_d ! i div 8)) (7 - key_perm_d ! i mod 8)" if i: "i < 28" for i
  proof -
    note t = pc1_table [rule_format, OF i]
    have e: "28 + (27 - i) = 55 - i" and lt: "27 - i < 28" "27 - i < 32" using i by simp_all
    show "bit c (27 - i) \<longleftrightarrow> bit (key ! (key_perm_c ! i div 8)) (7 - key_perm_c ! i mod 8)"
      using b [OF lt(2)] lt t i pc1_pick [of "key_perm_c ! i" "55 - i" "\<lambda>j t. bit (key ! j) (7 - t)"] unfolding e by simp
    show "bit d (27 - i) \<longleftrightarrow> bit (key ! (key_perm_d ! i div 8)) (7 - key_perm_d ! i mod 8)"
      using b [OF lt(2)] lt t i pc1_pick [of "key_perm_d ! i" "27 - i" "\<lambda>j t. 27 - i < 28 \<and> bit (key ! j) (7 - t)"] by simp
  qed
  show "permuted_choice_1 key_perm_c key = push_bit 4 c"
    using c by (rule permuted_choice_1_shift)
  show "permuted_choice_1 key_perm_d key = push_bit 4 d"
    using d by (rule permuted_choice_1_shift)
  show "\<forall>n\<ge>28. \<not> bit c n \<and> \<not> bit d n"
  proof (intro allI impI)
    fix n :: nat assume n: "28 \<le> n"
    have "pc1 ! (7 * j + t) \<noteq> 28 + n" if "j < 8" "t < 7" for j t
      using pc1_distinct(2,3) that n by (auto simp: list_all_length dest!: spec [of _ "7 * j + t"])
    then show "\<not> bit c n \<and> \<not> bit d n"
      using b [of n] n bit_imp_le_length [of c n] bit_imp_le_length [of d n] by (cases "n < 32") auto
  qed
qed

section \<open>Rotation\<close>

definition low28 :: "u32 \<Rightarrow> bool" where
  "low28 c \<longleftrightarrow> (\<forall>n\<ge>28. \<not> bit c n)"

lemma bit_0fffffff: "bit (0x0fffffff :: u32) n \<longleftrightarrow> n < 28"
proof -
  have e: "(0x0fffffff :: u32) = Bit_Operations.mask 28" by (simp add: mask_eq_exp_minus_1)
  show ?thesis unfolding e bit_mask_iff by auto
qed

lemma bit_fffffff0: "bit (0xfffffff0 :: u32) n \<longleftrightarrow> 4 \<le> n \<and> n < 32"
proof -
  have e: "(0xfffffff0 :: u32) = push_bit 4 (Bit_Operations.mask 28)" by (simp add: mask_eq_exp_minus_1)
  show ?thesis unfolding e bit_push_bit_iff bit_mask_iff by auto
qed

lemma bit_rot28: "bit (rot28 s c) n \<longleftrightarrow> n < 28 \<and> (s \<le> n \<and> bit c (n - s) \<or> bit c (28 - s + n))"
  by (auto simp: rot28_def bit_and_iff bit_or_iff bit_push_bit_iff bit_drop_bit_eq bit_0fffffff simp del: bit_numeral_word_iff)

lemma low28_rot28: "low28 (rot28 s c)"
  by (simp add: low28_def bit_rot28)

lemma bit_rotate_half:
  "n < 32 \<Longrightarrow> bit (rotate_half s x) n \<longleftrightarrow> 4 \<le> n \<and> (s \<le> n \<and> bit x (n - s) \<or> bit x (28 - s + n))"
  unfolding rotate_half_def bit_and_iff bit_or_iff bit_push_bit_iff bit_drop_bit_eq o_def bit_fffffff0 possible_bit_word
    len_bit0 len_num1 mult_1_right by (simp add: conj_commute)

lemma bit_shift_4: "bit (push_bit 4 c :: u32) m \<longleftrightarrow> 4 \<le> m \<and> m < 32 \<and> bit c (m - 4)"
  unfolding bit_push_bit_iff possible_bit_word by simp

lemma rotate_half_eq:
  assumes "low28 c" and "0 < s" and "s \<le> 2"
  shows "rotate_half s (push_bit 4 c) = push_bit 4 (rot28 s c)"
proof (rule bit_word_eqI)
  fix n assume "n < LENGTH(32)"
  then have n: "n < 32" by simp
  show "bit (rotate_half s (push_bit 4 c)) n = bit (push_bit 4 (rot28 s c)) n"
  proof (cases "4 \<le> n")
    case True
    define k where "k = n - 4"
    have k: "n = k + 4" "k < 28" using True n by (simp_all add: k_def)
    have a: "s \<le> n \<and> bit (push_bit 4 c) (n - s) \<longleftrightarrow> s \<le> k \<and> bit c (k - s)"
    proof -
      have "4 \<le> k + 4 - s \<longleftrightarrow> s \<le> k" "k + 4 - s < 32" "s \<le> k \<Longrightarrow> k + 4 - s - 4 = k - s" "s \<le> k \<Longrightarrow> s \<le> k + 4"
        using k(2) assms(3) by linarith+
      then show ?thesis unfolding bit_shift_4 k(1) by metis
    qed
    have b: "bit (push_bit 4 c) (28 - s + n) \<longleftrightarrow> bit c (28 - s + k)"
    proof -
      have "28 - s + n - 4 = 28 - s + k" "4 \<le> 28 - s + n" using k by simp_all
      moreover have "28 - s + n < 32" if "bit c (28 - s + k)"
      proof (rule ccontr)
        assume "\<not> 28 - s + n < 32"
        then have "28 \<le> 28 - s + k" using k(1) by linarith
        with assms(1) that show False by (simp add: low28_def)
      qed
      ultimately show ?thesis unfolding bit_shift_4 by metis
    qed
    show ?thesis
      unfolding bit_rotate_half [OF n] a b unfolding bit_shift_4 bit_rot28 using True n k by (simp flip: k_def)
  next
    case False
    then show ?thesis unfolding bit_rotate_half [OF n] bit_shift_4 by simp
  qed
qed

section \<open>One round key\<close>

lemma length_or_bytes [simp]: "length (foldl (\<lambda>row j. or_byte row (h j) (g j)) row js) = length row"
  by (induction js arbitrary: row) (simp_all add: or_byte_def)

lemma bit_or_bytes:
  assumes "i < length row" and "m < 8" and "\<forall>j \<in> set js. j div 8 < length row"
  shows "bit (foldl (\<lambda>row j. or_byte row (j div 8) (BITNUMINTR X (g j) (7 - j mod 8))) row js ! i) m \<longleftrightarrow>
    bit (row ! i) m \<or> (\<exists>j \<in> set js. j div 8 = i \<and> 7 - j mod 8 = m \<and> bit X (31 - g j))"
  using assms
proof (induction js arbitrary: row)
  case Nil
  then show ?case by simp
next
  case (Cons j js)
  let ?w = "BITNUMINTR X (g j) (7 - j mod 8)"
  let ?row = "or_byte row (j div 8) ?w"
  have l: "length ?row = length row" by (simp add: or_byte_def)
  have "bit (?row ! i) m \<longleftrightarrow> bit (row ! i) m \<or> (j div 8 = i \<and> 7 - j mod 8 = m \<and> bit X (31 - g j))"
    using Cons.prems by (auto simp: or_byte_def nth_list_update bit_or_iff bit_unsigned_iff bit_BITNUMINTR)
  with Cons.IH [of ?row] Cons.prems l show ?case by auto
qed

text \<open>Bit \<open>u\<close> of a row, from the left.\<close>

lemma bit_subkey:
  assumes "u < 48"
  shows "bit (subkey C D ! (u div 8)) (7 - u mod 8) \<longleftrightarrow>
    (if u < 24 then bit C (31 - key_compression ! u) else bit D (31 - (key_compression ! u - 28)))"
proof -
  define row where "row = foldl (\<lambda>row j. or_byte row (j div 8) (BITNUMINTR C (key_compression ! j) (7 - j mod 8))) (replicate 6 0) [0..<24]"
  have l: "length row = 6" by (simp add: row_def)
  have i: "u div 8 < 6" "7 - u mod 8 < 8" using assms by (simp_all add: less_mult_imp_div_less)
  have e: "j div 8 = u div 8 \<and> 7 - j mod 8 = 7 - u mod 8 \<longleftrightarrow> j = u" for j
  proof
    assume a: "j div 8 = u div 8 \<and> 7 - j mod 8 = 7 - u mod 8"
    have "j mod 8 < 8" "u mod 8 < 8" by simp_all
    with a have "j mod 8 = u mod 8" by linarith
    with a show "j = u" by (metis div_mod_decomp)
  qed simp
  have pick: "(\<exists>j\<in>S. j div 8 = u div 8 \<and> 7 - j mod 8 = 7 - u mod 8 \<and> Q j) \<longleftrightarrow> u \<in> S \<and> Q u" for S Q
    by (simp only: conj_assoc [symmetric] e) blast
  have small: "\<forall>j \<in> set [0..<24]. j div 8 < length (replicate 6 (0 :: byte))" "\<forall>j \<in> set [24..<48]. j div 8 < length row"
    using l by (auto simp del: upt_rec_numeral)
  have z: "\<not> bit (replicate 6 (0 :: byte) ! (u div 8)) n" for n using i(1) by simp
  have s: "subkey C D = foldl (\<lambda>row j. or_byte row (j div 8) (BITNUMINTR D (key_compression ! j - 28) (7 - j mod 8))) row [24..<48]"
    by (simp only: subkey_def Let_def row_def)
  have i': "u div 8 < length (replicate 6 (0 :: byte))" "u div 8 < length row" using i(1) l by simp_all
  have "bit (row ! (u div 8)) (7 - u mod 8) \<longleftrightarrow> u \<in> set [0..<24] \<and> bit C (31 - key_compression ! u)"
    unfolding row_def bit_or_bytes [OF i'(1) i(2) small(1), of C "\<lambda>j. key_compression ! j"] pick using z by blast
  moreover have "bit (subkey C D ! (u div 8)) (7 - u mod 8) \<longleftrightarrow> bit (row ! (u div 8)) (7 - u mod 8) \<or>
      u \<in> set [24..<48] \<and> bit D (31 - (key_compression ! u - 28))"
    unfolding s bit_or_bytes [OF i'(2) i(2) small(2), of D "\<lambda>j. key_compression ! j - 28"] pick by blast
  ultimately show ?thesis using assms by (simp del: upt_rec_numeral)
qed

lemma bit_byte_high: "8 \<le> n \<Longrightarrow> \<not> bit (x :: byte) n"
  using bit_imp_le_length [of x n] by auto

lemma bit_pc2_group:
  "length qs = Suc s \<Longrightarrow> s < 8 \<Longrightarrow>
   (bit (pc2_group x k (push_bit s 1) qs) b \<longleftrightarrow> bit k b \<or> b \<le> s \<and> bit x (qs ! (s - b)))"
proof (induction qs arbitrary: k s)
  case Nil
  then show ?case by simp
next
  case (Cons p qs)
  have p1: "bit (push_bit s 1 :: byte) b \<longleftrightarrow> b = s"
    using Cons.prems(2) unfolding bit_push_bit_iff bit_1_iff possible_bit_word by auto
  have x1: "drop_bit p x AND 1 \<noteq> 0 \<longleftrightarrow> bit x p"
    by (simp add: and_one_eq bit_iff_odd_drop_bit odd_iff_mod_2_eq_one)
  define k' where "k' = (if bit x p then k OR push_bit s 1 else k)"
  have k': "bit k' b \<longleftrightarrow> bit k b \<or> b = s \<and> bit x p" by (auto simp: k'_def bit_or_iff p1 simp del: push_bit_of_1)
  have step: "pc2_group x k (push_bit s 1) (p # qs) = pc2_group x k' (drop_bit 1 (push_bit s 1)) qs"
    by (simp only: pc2_group.simps x1 k'_def)
  show ?case
  proof (cases s)
    case 0
    then have "qs = []" using Cons.prems by simp
    then show ?thesis unfolding step using k' 0 by auto
  next
    case (Suc s')
    have d: "drop_bit 1 (push_bit s 1) = (push_bit s' 1 :: byte)"
    proof (rule bit_word_eqI)
      fix n
      show "bit (drop_bit 1 (push_bit s 1) :: byte) n = bit (push_bit s' 1 :: byte) n"
        unfolding bit_drop_bit_eq o_def bit_push_bit_iff bit_1_iff possible_bit_word using Suc Cons.prems(2) by auto
    qed
    have "bit (pc2_group x k' (push_bit s' 1) qs) b \<longleftrightarrow> bit k' b \<or> b \<le> s' \<and> bit x (qs ! (s' - b))"
      using Cons.prems Suc by (intro Cons.IH) simp_all
    moreover have "b \<le> s' \<Longrightarrow> (p # qs) ! (s - b) = qs ! (s' - b)" using Suc by (simp add: Suc_diff_le)
    moreover have "b \<le> s \<longleftrightarrow> b = s \<or> b \<le> s'" using Suc by auto
    ultimately show ?thesis unfolding step d k' by auto
  qed
qed

lemma bit_pc2_groups:
  assumes "length p = 24" and "j < 4" and "b < 6"
  shows "bit (pc2_groups x p ! j) b \<longleftrightarrow> bit x (p ! (6 * j + 5 - b))"
proof -
  have e: "(0x20 :: byte) = push_bit 5 1" by simp
  have l: "length (take 6 (drop (6 * j) p)) = Suc 5" using assms by simp
  have "bit (pc2_groups x p ! j) b \<longleftrightarrow> bit (pc2_group x 0 0x20 (take 6 (drop (6 * j) p))) b"
    using assms(2) by (simp add: pc2_groups_def)
  also have "\<dots> \<longleftrightarrow> bit x (take 6 (drop (6 * j) p) ! (5 - b))"
    unfolding e using bit_pc2_group [OF l, of x 0 b] assms(3) by (simp del: push_bit_of_1)
  also have "take 6 (drop (6 * j) p) ! (5 - b) = p ! (6 * j + 5 - b)"
    using assms by simp
  finally show ?thesis .
qed

lemma key_bit_round_key:
  assumes "i < 8" and "b < 6"
  shows "key_bit (round_key c d) i b \<longleftrightarrow> bit (if i < 4 then c else d) ((if i < 4 then pc2_c else pc2_d) ! (6 * (i mod 4) + 5 - b))"
proof -
  let ?w = "pc2_groups c pc2_c @ pc2_groups d pc2_d"
  have l: "length (pc2_groups c pc2_c) = 4" "length pc2_c = 24" "length pc2_d = 24"
    by (simp_all add: pc2_groups_def pc2_c_def pc2_d_def)
  have i: "i = 0 \<or> i = 1 \<or> i = 2 \<or> i = 3 \<or> i = 4 \<or> i = 5 \<or> i = 6 \<or> i = 7" using assms(1) by presburger
  have "key_bit (round_key c d) i b \<longleftrightarrow> bit (?w ! i) b"
    using i assms(2) bit_byte_high
    by (elim disjE) (simp_all add: key_bit_def round_key_def Let_def bit_or_iff bit_push_bit_iff bit_unsigned_iff)
  also have "\<dots> \<longleftrightarrow> bit ((if i < 4 then pc2_groups c pc2_c else pc2_groups d pc2_d) ! (i mod 4)) b"
    using assms(1) l by (auto simp: nth_append mod_if)
  also have "\<dots> \<longleftrightarrow> bit (if i < 4 then c else d) ((if i < 4 then pc2_c else pc2_d) ! (6 * (i mod 4) + 5 - b))"
    using l assms(2) by (simp add: bit_pc2_groups)
  finally show ?thesis .
qed

lemma compression_table:
  "\<forall>u<24. key_compression ! u \<le> 27 \<and> pc2_c ! u = 27 - key_compression ! u \<and>
     28 \<le> key_compression ! (24 + u) \<and> key_compression ! (24 + u) \<le> 55 \<and> pc2_d ! u = 27 - (key_compression ! (24 + u) - 28)"
  unfolding all_less_list by code_simp

lemma length_subkey: "length (subkey C D) = 6"
  by (simp add: subkey_def Let_def del: upt_rec_numeral)

lemma key_rel_round_key:
  "key_rel (round_key c d) (subkey (push_bit 4 c) (push_bit 4 d))"
  unfolding key_rel_def
proof (intro conjI allI impI)
  show "length (subkey (push_bit 4 c) (push_bit 4 d)) = 6" by (rule length_subkey)
  fix i b :: nat assume i: "i < 8" and b: "b < 6"
  let ?u = "6 * i + 5 - b"
  have u: "?u < 48" using i by simp
  show "key_bit (round_key c d) i b = bit (subkey (push_bit 4 c) (push_bit 4 d) ! (?u div 8)) (7 - ?u mod 8)"
  proof (cases "i < 4")
    case True
    then have u24: "?u < 24" by simp
    note t = compression_table [rule_format, OF u24]
    have "i mod 4 = i" using True by simp
    then have "key_bit (round_key c d) i b = bit c (27 - key_compression ! ?u)"
      using key_bit_round_key [OF i b, of c d] True t by simp
    moreover have "4 \<le> 31 - key_compression ! ?u" "31 - key_compression ! ?u - 4 = 27 - key_compression ! ?u" "31 - key_compression ! ?u < 32"
      using t by linarith+
    ultimately show ?thesis unfolding bit_subkey [OF u] bit_shift_4 using u24 by simp
  next
    case False
    define v where "v = 6 * (i mod 4) + 5 - b"
    have im: "i mod 4 = i - 4" using False i by (simp add: mod_if)
    then have v: "v < 24" "?u = 24 + v" using False i b by (simp_all add: v_def)
    note t = compression_table [rule_format, OF v(1)]
    have "key_bit (round_key c d) i b = bit d (27 - (key_compression ! ?u - 28))"
      using key_bit_round_key [OF i b, of c d] False t by (simp add: v(2) flip: v_def)
    moreover have "4 \<le> 31 - (key_compression ! ?u - 28)" "31 - (key_compression ! ?u - 28) < 32" "31 - (key_compression ! ?u - 28) - 4 = 27 - (key_compression ! ?u - 28)"
      using t unfolding v(2) by linarith+
    ultimately show ?thesis unfolding bit_subkey [OF u] bit_shift_4 using v(2) by simp
  qed
qed

section \<open>The schedules\<close>

lemma keys_related:
  "low28 c \<Longrightarrow> low28 d \<Longrightarrow> \<forall>n \<in> set ns. 0 < n \<and> n \<le> 2 \<Longrightarrow>
   list_all2 key_rel (key_rounds ns c d) (std_subkeys ns (push_bit 4 c, push_bit 4 d))"
proof (induction ns arbitrary: c d)
  case Nil
  then show ?case by simp
next
  case (Cons n ns)
  then show ?case
    by (simp add: Let_def rotate_half_eq key_rel_round_key low28_rot28)
qed

lemma schedules_agree:
  assumes "length key = 8"
  obtains keys where "des_setkey key = Inr keys" and "list_all2 key_rel keys (std_keys key)"
proof -
  obtain c d where cd: "pc1_loop key pc1 (0, 0) = (c, d)" by (cases "pc1_loop key pc1 (0, 0)")
  note pc = permuted_choice_1_eq [OF assms cd]
  have "low28 c" "low28 d" using pc(3) by (simp_all add: low28_def)
  moreover have "\<forall>n \<in> set nshifts. 0 < n \<and> n \<le> 2" by (simp add: nshifts_def)
  ultimately have "list_all2 key_rel (key_rounds nshifts c d) (std_subkeys nshifts (push_bit 4 c, push_bit 4 d))"
    by (rule keys_related)
  moreover have "key_rnd_shift = nshifts" by (simp add: key_rnd_shift_def nshifts_def)
  ultimately show ?thesis
    using assms cd by (intro that [of "key_rounds nshifts c d"]) (simp_all add: des_setkey_def std_keys_def pc(1,2))
qed

end
