(* ===== verification/Des_Equiv.thy ===== *)
theory Des_Equiv
  imports Des_Schedule
begin

text \<open>
  The two DES implementations of LeoNet compute the same cipher: the table-driven one of
  \<open>src/leo_des_crypto.c\<close> and the bit-by-bit one of \<open>src/leo_standard_des_crypto.c\<close>. The proof goes
  component by component: permutations of the block, round function, key schedule.
\<close>

section \<open>The permutations of a block\<close>

lemma input_block_IP: "length s = 8 \<Longrightarrow> input_block s = IP s"
  by (rule prod_eqI; rule bit_word_eqI) (simp_all add: bit_input_block bit_IP)

lemma output_block_InvIP: "output_block st = InvIP (prod.swap st)"
proof (cases st)
  case st: (Pair l r)
  show ?thesis
  proof (rule nth_equalityI)
    show "length (output_block st) = length (InvIP (prod.swap st))" by simp
    fix j assume "j < length (output_block st)"
    then have j: "j < 8" by simp
    show "output_block st ! j = InvIP (prod.swap st) ! j"
      by (rule bit_word_eqI) (simp add: st bit_output_block [OF j] bit_InvIP [OF j])
  qed
qed

section \<open>The expansion\<close>

text \<open>Bit \<open>m\<close> from the left of the 48 expanded bits.\<close>

definition expanded :: "u32 \<Rightarrow> nat \<Rightarrow> bool" where
  "expanded r m = bit r ((59 - 4 * (m div 6) + (5 - m mod 6)) mod 32)"

lemmas bit_expand = bit_or_all bit_BITNUMINTL bit_drop_bit_eq bit_push_bit_iff bit_and_iff

lemma bit_expand_1:
  assumes "m < 24"
  shows "bit (expand_1 r) (31 - m) = expanded r m"
proof -
  have "m = 0 \<or> m = 1 \<or> m = 2 \<or> m = 3 \<or> m = 4 \<or> m = 5 \<or> m = 6 \<or> m = 7 \<or> m = 8 \<or> m = 9 \<or> m = 10 \<or> m = 11 \<or> m = 12 \<or> m = 13 \<or> m = 14 \<or> m = 15 \<or> m = 16 \<or> m = 17 \<or> m = 18 \<or> m = 19 \<or> m = 20 \<or> m = 21 \<or> m = 22 \<or> m = 23" using assms by presburger
  then show ?thesis by (elim disjE; simp add: expand_1_def expanded_def bit_expand)
qed

lemma bit_expand_2:
  assumes "m < 24"
  shows "bit (expand_2 r) (31 - m) = expanded r (24 + m)"
proof -
  have "m = 0 \<or> m = 1 \<or> m = 2 \<or> m = 3 \<or> m = 4 \<or> m = 5 \<or> m = 6 \<or> m = 7 \<or> m = 8 \<or> m = 9 \<or> m = 10 \<or> m = 11 \<or> m = 12 \<or> m = 13 \<or> m = 14 \<or> m = 15 \<or> m = 16 \<or> m = 17 \<or> m = 18 \<or> m = 19 \<or> m = 20 \<or> m = 21 \<or> m = 22 \<or> m = 23" using assms by presburger
  then show ?thesis by (elim disjE; simp add: expand_2_def expanded_def bit_expand)
qed

section \<open>The arguments of the S-boxes\<close>

lemma bit_lrgstate:
  assumes "m < 48" and "length key = 6"
  shows "bit (lrgstate r key ! (m div 8)) (7 - m mod 8) \<longleftrightarrow> expanded r m \<noteq> bit (key ! (m div 8)) (7 - m mod 8)"
proof -
  obtain k0 k1 k2 k3 k4 k5 where key: "key = [k0, k1, k2, k3, k4, k5]"
    using assms(2) by (auto simp: eval_nat_numeral length_Suc_conv)
  define j x where "j = m div 8" and "x = 7 - m mod 8"
  have x: "x < 8" and m: "m = 8 * j + (7 - x)" and j: "j = 0 \<or> j = 1 \<or> j = 2 \<or> j = 3 \<or> j = 4 \<or> j = 5"
    using assms(1) by (auto simp: j_def x_def)
  have ff: "bit (0xff :: u32) n \<longleftrightarrow> n < 8" for n
  proof -
    have e: "(0xff :: u32) = Bit_Operations.mask 8" by (simp add: mask_eq_exp_minus_1)
    show ?thesis unfolding e bit_mask_iff by auto
  qed
  have b: "bit (lrgstate r key ! j) x \<longleftrightarrow>
      (if j < 3 then bit (expand_1 r) (24 - 8 * j + x) else bit (expand_2 r) (24 - 8 * (j - 3) + x)) \<noteq> bit (key ! j) x"
    using j x by (elim disjE)
      (simp_all add: lrgstate_def key Let_def bit_xor_iff bit_unsigned_iff bit_and_iff bit_drop_bit_eq ff del: bit_numeral_word_iff)
  show ?thesis
  proof (cases "j < 3")
    case True
    then have "m < 24" and e: "24 - 8 * j + x = 31 - m" using x m by simp_all
    then show ?thesis using b bit_expand_1 [of m r] True by (simp flip: j_def x_def)
  next
    case False
    then have "m - 24 < 24" and e: "24 - 8 * (j - 3) + x = 31 - (m - 24)" and "24 + (m - 24) = m" using x m assms(1) by simp_all
    then show ?thesis using b bit_expand_2 [of "m - 24" r] False by (simp flip: j_def x_def)
  qed
qed

lemma low_masks:
  "bit (0x03 :: u32) n \<longleftrightarrow> n < 2" "bit (0x0f :: u32) n \<longleftrightarrow> n < 4" "bit (0x3f :: u32) n \<longleftrightarrow> n < 6"
proof -
  have e: "(0x03 :: u32) = Bit_Operations.mask 2" "(0x0f :: u32) = Bit_Operations.mask 4" "(0x3f :: u32) = Bit_Operations.mask 6"
    by (simp_all add: mask_eq_exp_minus_1)
  show "bit (0x03 :: u32) n \<longleftrightarrow> n < 2" "bit (0x0f :: u32) n \<longleftrightarrow> n < 4" "bit (0x3f :: u32) n \<longleftrightarrow> n < 6"
    unfolding e bit_mask_iff by auto
qed

lemma shifted_masks: "bit (48 :: u32) n \<longleftrightarrow> 4 \<le> n \<and> n < 6" "bit (60 :: u32) n \<longleftrightarrow> 2 \<le> n \<and> n < 6"
proof -
  have e: "(48 :: u32) = push_bit 4 (Bit_Operations.mask 2)" "(60 :: u32) = push_bit 2 (Bit_Operations.mask 4)"
    by (simp_all add: mask_eq_exp_minus_1)
  show "bit (48 :: u32) n \<longleftrightarrow> 4 \<le> n \<and> n < 6" "bit (60 :: u32) n \<longleftrightarrow> 2 \<le> n \<and> n < 6"
    unfolding e bit_push_bit_iff bit_mask_iff by auto
qed

lemma sbox_args_high:
  assumes "i < 8" and "6 \<le> b"
  shows "\<not> bit (sbox_args g ! i) b"
proof -
  have l: "length (sbox_args g) = 8" by (simp add: sbox_args_def Let_def)
  have "\<forall>w \<in> set (sbox_args g). \<not> bit w b"
    using assms(2) bit_byte_high
    by (simp add: sbox_args_def Let_def bit_or_iff bit_and_iff bit_push_bit_iff bit_drop_bit_eq bit_unsigned_iff low_masks
        shifted_masks del: bit_numeral_word_iff)
  then show ?thesis using l assms(1) by simp
qed

lemma bit_sbox_args:
  assumes "i < 8"
  shows "bit (sbox_args g ! i) b \<longleftrightarrow> b < 6 \<and> bit (g ! ((6 * i + 5 - b) div 8)) (7 - (6 * i + 5 - b) mod 8)"
proof (cases "b < 6")
  case True
  have i: "i = 0 \<or> i = 1 \<or> i = 2 \<or> i = 3 \<or> i = 4 \<or> i = 5 \<or> i = 6 \<or> i = 7" using assms by presburger
  have "b = 0 \<or> b = 1 \<or> b = 2 \<or> b = 3 \<or> b = 4 \<or> b = 5" using True by presburger
  then show ?thesis
    using i
    by (elim disjE; simp add: sbox_args_def Let_def bit_or_iff bit_and_iff bit_push_bit_iff bit_drop_bit_eq bit_unsigned_iff
        bit_byte_high)
next
  case False
  then show ?thesis using sbox_args_high [OF assms, of b g] by simp
qed

text \<open>The index the table-driven round uses.\<close>

definition leo_arg :: "u32 \<times> u32 \<Rightarrow> u32 \<Rightarrow> nat \<Rightarrow> u32" where
  "leo_arg k r i =
     (let x1 = rol1 r; x2 = ror4 x1 XOR fst k; x1 = x1 XOR snd k in
      drop_bit (24 - 8 * (i div 2)) (if even i then x2 else x1) AND 0x3f)"

lemma round_f_args:
  "round_f k r = ps 7 (leo_arg k r 7) XOR ps 5 (leo_arg k r 5) XOR ps 3 (leo_arg k r 3) XOR ps 1 (leo_arg k r 1) XOR
     ps 6 (leo_arg k r 6) XOR ps 4 (leo_arg k r 4) XOR ps 2 (leo_arg k r 2) XOR ps 0 (leo_arg k r 0)"
  by (simp add: round_f_def leo_arg_def Let_def)

lemma bit_rol1:
  assumes "n < 32"
  shows "bit (rol1 r) n \<longleftrightarrow> bit r ((n + 31) mod 32)"
proof (cases "n = 0")
  case True
  then show ?thesis unfolding rol1_def bit_or_iff bit_push_bit_iff bit_drop_bit_eq by simp
next
  case False
  then have "(n + 31) mod 32 = n - 1" using assms by (simp add: le_mod_geq)
  moreover have "\<not> bit r (31 + n)" using False bit_imp_le_length [of r "31 + n"] by auto
  ultimately show ?thesis
    using False assms unfolding rol1_def bit_or_iff bit_push_bit_iff bit_drop_bit_eq o_def possible_bit_word by simp
qed

lemma bit_ror4:
  assumes "n < 32"
  shows "bit (ror4 r) n \<longleftrightarrow> bit r ((n + 4) mod 32)"
proof (cases "n < 28")
  case True
  then show ?thesis unfolding ror4_def bit_or_iff bit_push_bit_iff bit_drop_bit_eq o_def by (simp add: add.commute)
next
  case False
  then have "(n + 4) mod 32 = n - 28" using assms by (simp add: le_mod_geq)
  moreover have "\<not> bit r (4 + n)" using False bit_imp_le_length [of r "4 + n"] by auto
  ultimately show ?thesis
    using False assms unfolding ror4_def bit_or_iff bit_push_bit_iff bit_drop_bit_eq o_def possible_bit_word by simp
qed

lemma bit_leo_arg:
  assumes "i < 8"
  shows "bit (leo_arg k r i) b \<longleftrightarrow> b < 6 \<and> (expanded r (6 * i + 5 - b) \<noteq> key_bit k i b)"
proof (cases "b < 6")
  case False
  then show ?thesis by (simp add: leo_arg_def Let_def bit_and_iff low_masks del: bit_numeral_word_iff)
next
  case b: True
  define n where "n = 24 - 8 * (i div 2) + b"
  have n: "n < 32" using b by (simp add: n_def)
  have "bit (leo_arg k r i) b \<longleftrightarrow> bit (if even i then ror4 (rol1 r) XOR fst k else rol1 r XOR snd k) n"
    using b by (simp add: leo_arg_def Let_def bit_and_iff low_masks bit_drop_bit_eq n_def del: bit_numeral_word_iff)
  also have "\<dots> \<longleftrightarrow> bit r ((if even i then n + 35 else n + 31) mod 32) \<noteq> key_bit k i b"
  proof -
    have "((n + 4) mod 32 + 31) mod 32 = (n + 35) mod 32" by presburger
    then show ?thesis using n by (simp add: bit_xor_iff bit_rol1 bit_ror4 key_bit_def n_def [symmetric])
  qed
  also have "(if even i then n + 35 else n + 31) mod 32 = (59 - 4 * ((6 * i + 5 - b) div 6) + (5 - (6 * i + 5 - b) mod 6)) mod 32"
  proof -
    have "6 * i + 5 - b = 6 * i + (5 - b)" using b by simp
    then have "(6 * i + 5 - b) div 6 = i" "(6 * i + 5 - b) mod 6 = 5 - b" by simp_all
    moreover have "even i \<Longrightarrow> n + 35 = 59 - 4 * i + b" "odd i \<Longrightarrow> n + 31 = 59 - 4 * i + b"
      using assms by (auto simp: n_def elim!: evenE oddE)
    ultimately show ?thesis using b by auto
  qed
  finally show ?thesis using b by (simp add: expanded_def)
qed

lemma sbox_args_leo:
  assumes "key_rel k row" and "i < 8"
  shows "sbox_args (lrgstate r row) ! i = leo_arg k r i"
proof (rule bit_word_eqI)
  fix b
  have l: "length row = 6" using assms(1) by (simp add: key_rel_def)
  show "bit (sbox_args (lrgstate r row) ! i) b = bit (leo_arg k r i) b"
  proof (cases "b < 6")
    case True
    then have "6 * i + 5 - b < 48" using assms(2) by simp
    with True show ?thesis
      using assms by (simp add: bit_sbox_args bit_leo_arg bit_lrgstate [OF _ l] key_rel_def)
  qed (simp add: bit_sbox_args bit_leo_arg assms(2))
qed

section \<open>S-boxes and P-box\<close>

lemma P_bits_less: "length P_bits = 32" "b \<in> set P_bits \<Longrightarrow> b < 32"
  by (auto simp: P_bits_def)

lemma bit_p_box: "bit (p_box x) n \<longleftrightarrow> n < 32 \<and> bit x (31 - P_bits ! (31 - n))"
  unfolding p_box_def
  by (rule bit_or_ascending [where P = "\<lambda>b. bit x (31 - b)"]) (simp_all add: P_bits_less bit_BITNUMINTL)

lemma p_box_xor: "p_box (x XOR y) = p_box x XOR p_box y"
  by (rule bit_word_eqI) (simp add: bit_p_box bit_xor_iff)

text \<open>\<open>SBOXBIT\<close> turns the order of the combined tables into that of the single ones.\<close>

lemma Sboxes_order: "\<forall>i<8. \<forall>j<64. unat (sboxes ! i ! unat (SBOXBIT (of_nat j))) = Sboxes ! i ! j"
  unfolding all_less_list by code_simp

lemma Ptbl_p_box: "\<forall>i<8. \<forall>v<16. p_box (push_bit (28 - 4 * i) (of_nat v)) = Ptbl ! i ! v"
  unfolding all_less_list by code_simp

lemma Sboxes_small: "\<forall>i<8. \<forall>j<64. Sboxes ! i ! j < 16"
  unfolding all_less_list by code_simp

lemma Sboxes_lengths: "length Sboxes = 8" "length Ptbl = 8" "\<forall>i<8. length (Sboxes ! i) = 64"
  unfolding all_less_list by code_simp+

lemma ps_p_box:
  assumes "i < 8" and "unat a < 64"
  shows "ps i a = p_box (sbox_out i a)"
proof -
  let ?j = "unat a"
  have a: "a = of_nat ?j" by simp
  have "ps i a = Psboxes ! i ! ?j" by (simp add: ps_def)
  also have "\<dots> = Ptbl ! i ! (Sboxes ! i ! ?j)"
    using assms Sboxes_lengths by (simp add: Psboxes_eq)
  also have "\<dots> = p_box (push_bit (28 - 4 * i) (of_nat (Sboxes ! i ! ?j)))"
    using assms Ptbl_p_box Sboxes_small by simp
  also have "of_nat (Sboxes ! i ! ?j) = (ucast (sboxes ! i ! unat (SBOXBIT a)) :: u32)"
  proof -
    have "Sboxes ! i ! ?j = unat (sboxes ! i ! unat (SBOXBIT a))"
      using Sboxes_order [rule_format, OF assms] a by simp
    then show ?thesis by simp
  qed
  finally show ?thesis by (simp add: sbox_out_def)
qed

lemma unat_leo_arg:
  assumes "i < 8"
  shows "unat (leo_arg k r i) < 64"
proof -
  have "leo_arg k r i = take_bit 6 (leo_arg k r i)"
    by (rule bit_word_eqI) (auto simp: bit_leo_arg [OF assms] bit_take_bit_iff)
  then have "unat (leo_arg k r i) = take_bit 6 (unat (leo_arg k r i))"
    by (metis unsigned_take_bit_eq)
  then show ?thesis using take_bit_nat_less_exp [of 6 "unat (leo_arg k r i)"] by simp
qed

text \<open>The eight nibbles do not overlap, so that \<open>|\<close> and \<open>^\<close> agree on them.\<close>

lemma bit_sbox_out:
  assumes "i < 8" and "unat a < 64" and "bit (sbox_out i a) n"
  shows "n div 4 = 7 - i"
proof -
  let ?v = "sboxes ! i ! unat (SBOXBIT a)"
  have "unat ?v < 16"
    using Sboxes_order [rule_format, OF assms(1,2)] Sboxes_small [rule_format, OF assms(1,2)] by simp
  then have "take_bit 4 (unat ?v) = unat ?v" by (simp add: take_bit_nat_eq_self)
  then have "\<not> bit (unat ?v) m" if "4 \<le> m" for m using that bit_take_bit_iff [of 4 "unat ?v" m] by simp
  then have v: "\<not> bit ?v m" if "4 \<le> m" for m using that by (simp add: bit_unsigned_iff)
  have b: "28 - 4 * i \<le> n" "bit ?v (n - (28 - 4 * i))"
    using assms(3) by (auto simp: sbox_out_def bit_push_bit_iff bit_unsigned_iff)
  then have "n - (28 - 4 * i) < 4" using v by (metis not_less)
  then show ?thesis using b(1) assms(1) by auto
qed

lemma or_all_eight:
  fixes w :: "nat \<Rightarrow> u32"
  assumes "\<forall>i<8. bit (w i) n \<longrightarrow> n div 4 = 7 - i"
  shows "bit (or_all (map w [0..<8])) n =
    bit (w 7 XOR w 5 XOR w 3 XOR w 1 XOR w 6 XOR w 4 XOR w 2 XOR w 0) n"
proof -
  have a: "bit (w i) n \<Longrightarrow> n div 4 = 7 - i" if "i < 8" for i using assms that by blast
  have u: "[0..<8] = [0, 1, 2, 3, 4, 5, 6, 7 :: nat]" by (simp add: upt_rec)
  show ?thesis
    unfolding bit_or_all u list.map list.set bit_xor_iff
    using a [of 0] a [of 1] a [of 2] a [of 3] a [of 4] a [of 5] a [of 6] a [of 7] by auto
qed

lemma des_f_round_f:
  assumes "key_rel k row"
  shows "des_f r row = round_f k r"
proof -
  let ?a = "leo_arg k r" and ?w = "\<lambda>i. sbox_out i (leo_arg k r i)"
  have la: "length (sbox_args (lrgstate r row)) = 8" by (simp add: sbox_args_def Let_def)
  have "map2 sbox_out [0..<8] (sbox_args (lrgstate r row)) = map ?w [0..<8]"
    using la sbox_args_leo [OF assms, of _ r] by (intro nth_equalityI) (simp_all del: upt_rec_numeral)
  then have s: "sbox_step (lrgstate r row) = or_all (map ?w [0..<8])" by (simp only: sbox_step_def)
  have "or_all (map ?w [0..<8]) = ?w 7 XOR ?w 5 XOR ?w 3 XOR ?w 1 XOR ?w 6 XOR ?w 4 XOR ?w 2 XOR ?w 0"
  proof (rule bit_word_eqI)
    fix n
    have "\<forall>i<8. bit (?w i) n \<longrightarrow> n div 4 = 7 - i" using bit_sbox_out unat_leo_arg by blast
    then show "bit (or_all (map ?w [0..<8])) n = bit (?w 7 XOR ?w 5 XOR ?w 3 XOR ?w 1 XOR ?w 6 XOR ?w 4 XOR ?w 2 XOR ?w 0) n"
      by (rule or_all_eight)
  qed
  then have "des_f r row = p_box (?w 7 XOR ?w 5 XOR ?w 3 XOR ?w 1 XOR ?w 6 XOR ?w 4 XOR ?w 2 XOR ?w 0)"
    by (simp only: des_f_def s)
  also have "\<dots> = round_f k r"
    unfolding p_box_xor round_f_args by (simp add: ps_p_box unat_leo_arg)
  finally show ?thesis .
qed

lemma std_round_des_round: "key_rel k row \<Longrightarrow> std_round row st = des_round k st"
  by (simp add: std_round_def des_round_def des_f_round_f xor.commute split: prod.split)

lemma fold_rounds: "list_all2 key_rel ks rows \<Longrightarrow> fold std_round rows st = fold des_round ks st"
  by (induction ks rows arbitrary: st rule: list_all2_induct) (simp_all add: std_round_des_round)

section \<open>The block functions agree\<close>

lemma std_block_des_block:
  assumes "list_all2 key_rel keys rows" and "length b = 8"
  shows "std_block rows b = des_block keys 0 b" and "std_block (rev rows) b = des_block keys 1 b"
proof -
  have "list_all2 key_rel (rev keys) (rev rows)" using assms(1) by (simp only: list_all2_rev)
  note fr = fold_rounds [OF assms(1)] fold_rounds [OF this]
  show "std_block rows b = des_block keys 0 b" and "std_block (rev rows) b = des_block keys 1 b"
    using assms(2) by (simp_all add: std_block_def des_block_eq output_block_InvIP input_block_IP fr)
qed

text \<open>C23. The two DES implementations are the same cipher: for every key and block, \<open>des_crypt\<close> of
  \<open>leo_standard_des_crypto.c\<close> on the schedule of either direction computes what \<open>des_crypt\<close> of
  \<open>leo_des_crypto.c\<close> computes under \<open>des_setkey\<close> with the flag of that direction.\<close>

theorem des_implementations_agree:
  assumes "length key = 8" and "length block = 8" and "16 \<le> length sch" and "8 \<le> length out"
  shows "\<exists>keys es ds. des_setkey key = Inr keys \<and>
    des_key_setup key 0 sch Mode_Encrypt = Inr es \<and> des_key_setup key 0 sch Mode_Decrypt = Inr ds \<and>
    (\<exists>c. des_crypt keys block 0 0 = Inr c \<and> std_des_crypt block out es = Inr (c @ drop 8 out)) \<and>
    (\<exists>p. des_crypt keys block 0 1 = Inr p \<and> std_des_crypt block out ds = Inr (p @ drop 8 out))"
proof -
  obtain keys where k: "des_setkey key = Inr keys" and rel: "list_all2 key_rel keys (std_keys key)"
    using assms(1) by (rule schedules_agree)
  have "0 + 8 \<le> length key" using assms(1) by simp
  note ks = des_key_setup_eq [OF this assms(3)]
  have c: "des_crypt keys block 0 flag = Inr (des_block keys flag block)" for flag
    using assms(2) by (simp add: des_crypt_eq overwrite_0)
  have "std_des_crypt block out (std_keys key @ drop 16 sch) = Inr (des_block keys 0 block @ drop 8 out)"
    "std_des_crypt block out (rev (std_keys key) @ drop 16 sch) = Inr (des_block keys 1 block @ drop 8 out)"
    using assms std_block_des_block [OF rel assms(2)] by (simp_all add: std_des_crypt_eq)
  with k c ks assms(1) show ?thesis by simp
qed

theorem des_implementations_agree_witness:
  "\<exists>keys es c. des_setkey [1, 2, 3, 4, 5, 6, 7, 8] = Inr keys \<and>
    des_key_setup [1, 2, 3, 4, 5, 6, 7, 8] 0 empty_schedule Mode_Encrypt = Inr es \<and>
    des_crypt keys [9, 8, 7, 6, 5, 4, 3, 2] 0 0 = Inr c \<and>
    std_des_crypt [9, 8, 7, 6, 5, 4, 3, 2] (replicate 9 1) es = Inr (c @ [1])"
proof -
  have "16 \<le> length empty_schedule" by (simp add: empty_schedule_def)
  moreover have "drop 8 (replicate 9 (1 :: byte)) = [1]" by (simp add: eval_nat_numeral)
  ultimately show ?thesis
    using des_implementations_agree [of "[1, 2, 3, 4, 5, 6, 7, 8]" "[9, 8, 7, 6, 5, 4, 3, 2]" empty_schedule "replicate 9 1"]
    by auto
qed

end
