(* ===== verification/Dof_Crypto.thy ===== *)
theory Dof_Crypto
  imports Prelude
begin

text \<open>
  The light ciphers of \<open>src/leo_dof_crypto.c\<close>: the table of random XOR keys, the XOR
  stream over a buffer, bit reflection, the CRC table and the checksum. The theory holds
  every function of the file, the closed form of the XOR stream, the linearity of the
  checksum and the errors it detects.
\<close>

section \<open>XOR keys\<close>

definition SWAP_KEY_LEN :: nat where "SWAP_KEY_LEN = 4"
definition XOR_KEY_LEN :: nat where "XOR_KEY_LEN = 16"
definition MAX_XOR_NUM :: nat where "MAX_XOR_NUM = 256"

text \<open>
  \<open>rand()\<close> is the C library's generator: a function from its hidden state to a value and the
  next state. Its result is between 0 and \<open>RAND_MAX\<close>, so \<open>%\<close> on it is \<open>mod\<close>.
\<close>

type_synonym 'r rand = "'r \<Rightarrow> nat \<times> 'r"

definition rand_between :: "'r rand \<Rightarrow> int \<Rightarrow> int \<Rightarrow> 'r \<Rightarrow> int \<times> 'r" where
  "rand_between rand a b r = (let (v, r') = rand r in (a + int v mod (b - a + 1), r'))"

fun xor_key_row :: "'r rand \<Rightarrow> nat \<Rightarrow> 'r \<Rightarrow> byte list \<times> 'r" where
  "xor_key_row rand 0 r = ([0], r)"
| "xor_key_row rand (Suc n) r =
     (let (v, r1) = rand_between rand 1 255 r; (row, r2) = xor_key_row rand n r1
      in (word_of_int v # row, r2))"

fun xor_key_rows :: "'r rand \<Rightarrow> nat \<Rightarrow> 'r \<Rightarrow> byte list list \<times> 'r" where
  "xor_key_rows rand 0 r = ([], r)"
| "xor_key_rows rand (Suc n) r =
     (let (row, r1) = xor_key_row rand XOR_KEY_LEN r; (rows, r2) = xor_key_rows rand n r1
      in (row # rows, r2))"

definition initial_xor_keys :: "'r rand \<Rightarrow> 'r \<Rightarrow> byte list list \<times> 'r" where
  "initial_xor_keys rand r = xor_key_rows rand MAX_XOR_NUM r"

definition rand_xor_key :: "'r rand \<Rightarrow> byte list list \<Rightarrow> 'r \<Rightarrow> byte list \<times> 'r" where
  "rand_xor_key rand keys r =
     (let (v, r') = rand r in (keys ! (unat (of_nat v :: u32) mod MAX_XOR_NUM), r'))"

section \<open>The XOR stream\<close>

text \<open>
  The buffer is an object and an offset into it. The first loop takes 32-bit words and the
  word \<open>j\<close> of the key, \<open>j\<close> modulo \<open>sizeof(int)\<close>; the second the bytes that remain,
  against the key from its start.
\<close>

fun xor_words :: "byte list \<Rightarrow> byte list \<Rightarrow> nat \<Rightarrow> nat \<Rightarrow> nat \<Rightarrow> byte list result" where
  "xor_words key obj p j 0 = Inr obj"
| "xor_words key obj p j (Suc n) =
     chain (load_u32 obj p) (\<lambda>v.
     chain (load_u32 key (4 * j)) (\<lambda>k.
     chain (store_u32 obj p (v XOR k)) (\<lambda>obj'.
     xor_words key obj' (p + 4) ((j + 1) mod 4) n)))"

fun xor_bytes :: "byte list \<Rightarrow> byte list \<Rightarrow> nat \<Rightarrow> nat \<Rightarrow> nat \<Rightarrow> byte list result" where
  "xor_bytes key obj p k 0 = Inr obj"
| "xor_bytes key obj p k (Suc n) =
     chain (load_u8 obj p) (\<lambda>v.
     chain (load_u8 key k) (\<lambda>b.
     chain (store_u8 obj p (v XOR b)) (\<lambda>obj'.
     xor_bytes key obj' (p + 1) (k + 1) n)))"

definition xor_crypt :: "byte list \<Rightarrow> nat \<Rightarrow> u32 \<Rightarrow> byte list \<Rightarrow> (int \<times> byte list) result" where
  "xor_crypt obj off len key =
     (let sections = unat (len div 4); remains = unat (len mod 4) in
      chain (xor_words key obj off 0 sections) (\<lambda>obj1.
      chain (if 0 < remains then xor_bytes key obj1 (off + (unat len - remains)) 0 remains else Inr obj1)
        (\<lambda>obj2. Inr (1, obj2))))"

definition xor_decrypt :: "byte list \<Rightarrow> nat \<Rightarrow> u32 \<Rightarrow> byte list \<Rightarrow> (int \<times> byte list) result" where
  "xor_decrypt obj off len key = xor_crypt obj off len key"

section \<open>The checksum\<close>

definition multinomial :: u32 where "multinomial = 0x04c11db7"

definition reflect_step :: "nat \<Rightarrow> nat \<Rightarrow> u32 \<times> u32 \<Rightarrow> u32 \<times> u32" where
  "reflect_step c i s =
     (case s of (l, val) \<Rightarrow>
       (drop_bit 1 l, if l AND 1 \<noteq> 0 then val OR push_bit (c - i) 1 else val))"

definition reflect :: "u32 \<Rightarrow> byte \<Rightarrow> u32" where
  "reflect l c =
     snd (fold (reflect_step (nat (sint c))) [1..<nat (sint c + 1)] (l, 0))"

text \<open>
  A table is the list of words its storage holds: the declared array has 0xFF of them. A
  store past the end is a fault.
\<close>

definition CRC32_TABLE_LEN :: nat where "CRC32_TABLE_LEN = 0xFF"

definition table_load :: "u32 list \<Rightarrow> nat \<Rightarrow> u32 result" where
  "table_load tab i = (if i < length tab then Inr (tab ! i) else Inl Out_Of_Bounds)"

definition table_store :: "u32 list \<Rightarrow> nat \<Rightarrow> u32 \<Rightarrow> u32 list result" where
  "table_store tab i v = (if i < length tab then Inr (tab[i := v]) else Inl Out_Of_Bounds)"

definition crc_shift :: "u32 \<Rightarrow> u32" where
  "crc_shift x =
     (let t1 = push_bit 1 x; flag = x AND 0x80000000; t2 = (if flag = 0 then 0 else multinomial)
      in t1 XOR t2)"

fun crc_shifts :: "nat \<Rightarrow> u32 list \<Rightarrow> nat \<Rightarrow> u32 list result" where
  "crc_shifts 0 tab i = Inr tab"
| "crc_shifts (Suc j) tab i =
     chain (table_load tab i) (\<lambda>x. chain (table_store tab i (crc_shift x)) (\<lambda>tab'. crc_shifts j tab' i))"

definition crc_init_entry :: "u32 list \<Rightarrow> nat \<Rightarrow> u32 list result" where
  "crc_init_entry tab i =
     (let t = reflect (of_nat i) 8 in
      chain (table_store tab i (push_bit 24 t)) (\<lambda>tab1.
      chain (crc_shifts 8 tab1 i) (\<lambda>tab2.
      chain (table_load tab2 i) (\<lambda>x.
      table_store tab2 i (reflect x 32)))))"

fun crc_init_loop :: "nat \<Rightarrow> nat \<Rightarrow> u32 list \<Rightarrow> u32 list result" where
  "crc_init_loop 0 i tab = Inr tab"
| "crc_init_loop (Suc n) i tab = chain (crc_init_entry tab i) (\<lambda>tab'. crc_init_loop n (i + 1) tab')"

definition initial_crc32_table :: "u32 list \<Rightarrow> u32 list result" where
  "initial_crc32_table tab = crc_init_loop (0xFF + 1) 0 tab"

fun crc_loop :: "u32 list \<Rightarrow> byte list \<Rightarrow> nat \<Rightarrow> nat \<Rightarrow> u32 \<Rightarrow> u32 result" where
  "crc_loop tab obj p 0 crc = Inr crc"
| "crc_loop tab obj p (Suc n) crc =
     (let t = unat (ucast (drop_bit 24 crc AND 0xFF) :: byte) in
      chain (table_load tab t) (\<lambda>old.
      chain (load_u8 obj p) (\<lambda>c.
      crc_loop tab obj (p + 1) n ((push_bit 8 crc OR (ucast c AND 0xFF)) XOR old))))"

definition generate_crc32 :: "u32 list \<Rightarrow> byte list \<Rightarrow> nat \<Rightarrow> u32 \<Rightarrow> u32 result" where
  "generate_crc32 tab obj off len = crc_loop tab obj off (unat len) 0"

definition check_crc32 :: "u32 list \<Rightarrow> byte list \<Rightarrow> nat \<Rightarrow> u32 \<Rightarrow> int result" where
  "check_crc32 tab obj off len =
     chain (load_u32 obj (off + unat (len - 4))) (\<lambda>crc.
     chain (generate_crc32 tab obj off (len - 4)) (\<lambda>new_crc.
     Inr (if crc = new_crc then 1 else 0)))"

section \<open>The XOR stream in closed form\<close>

text \<open>The key byte the code applies to byte \<open>i\<close> of a buffer of \<open>len\<close> bytes.\<close>

definition key_index :: "nat \<Rightarrow> nat \<Rightarrow> nat" where
  "key_index len i = (if i < 4 * (len div 4) then i mod 16 else i - 4 * (len div 4))"

definition xor_stream :: "byte list \<Rightarrow> byte list \<Rightarrow> byte list" where
  "xor_stream key bs = map (\<lambda>i. bs ! i XOR key ! key_index (length bs) i) [0..<length bs]"

lemma length_xor_stream [simp]: "length (xor_stream key bs) = length bs"
  by (simp add: xor_stream_def)

lemma xor_stream_involution: "xor_stream key (xor_stream key bs) = bs"
  by (rule nth_equalityI) (simp_all add: xor_stream_def xor.assoc)

lemma xor_words_eq:
  assumes "p + 4 * n \<le> length obj" and "16 \<le> length key" and "j < 4"
  shows "xor_words key obj p j n =
    Inr (overwrite obj p (map (\<lambda>i. obj ! (p + i) XOR key ! ((4 * j + i) mod 16)) [0..<4 * n]))"
  using assms
proof (induction n arbitrary: obj p j)
  case 0
  then show ?case by simp
next
  case (Suc n)
  let ?v = "take 4 (drop p obj)" and ?k = "take 4 (drop (4 * j) key)"
  let ?f = "\<lambda>i. obj ! (p + i) XOR key ! ((4 * j + i) mod 16)"
  let ?w = "map ?f [0..<4]"
  let ?obj = "overwrite obj p ?w"
  have kj: "4 * j + 4 \<le> length key" and pj: "p + 4 \<le> length obj" using Suc.prems by auto
  have "le_word ?v XOR le_word ?k = (le_word (map2 (XOR) ?v ?k) :: u32)"
    using kj pj by (intro le_word_xor) simp
  also have "map2 (XOR) ?v ?k = ?w"
    using kj pj Suc.prems by (intro nth_equalityI) simp_all
  finally have x: "le_word ?v XOR le_word ?k = (le_word ?w :: u32)" .
  have b: "le_bytes 4 (le_word ?w :: u32) = ?w"
    using le_bytes_le_word [of ?w, where ?'a = 32] by simp
  have "xor_words key obj p j (Suc n) = xor_words key ?obj (p + 4) ((j + 1) mod 4) n"
    using kj pj by (simp add: mem_simps x b)
  also have "\<dots> = Inr (overwrite ?obj (p + 4)
      (map (\<lambda>i. ?obj ! (p + 4 + i) XOR key ! ((4 * ((j + 1) mod 4) + i) mod 16)) [0..<4 * n]))"
    using Suc.prems by (intro Suc.IH) (simp_all add: overwrite_def)
  also have "map (\<lambda>i. ?obj ! (p + 4 + i) XOR key ! ((4 * ((j + 1) mod 4) + i) mod 16)) [0..<4 * n] =
      map ?f [4..<4 + 4 * n]"
  proof (rule nth_equalityI)
    fix i assume "i < length (map (\<lambda>i. ?obj ! (p + 4 + i) XOR key ! ((4 * ((j + 1) mod 4) + i) mod 16)) [0..<4 * n])"
    then have i: "i < 4 * n" by simp
    have "(4 * ((j + 1) mod 4) + i) mod 16 = (4 * (j + 1) + i) mod 16"
      by (simp add: mult_mod_right mod_add_left_eq)
    moreover have "?obj ! (p + 4 + i) = obj ! (p + (4 + i))"
      using i Suc.prems by (simp add: nth_overwrite add.assoc)
    ultimately show "map (\<lambda>i. ?obj ! (p + 4 + i) XOR key ! ((4 * ((j + 1) mod 4) + i) mod 16)) [0..<4 * n] ! i =
        map ?f [4..<4 + 4 * n] ! i"
      using i by (simp add: algebra_simps)
  qed simp
  also have "overwrite ?obj (p + 4) (map ?f [4..<4 + 4 * n]) = overwrite obj p (?w @ map ?f [4..<4 + 4 * n])"
    using overwrite_append [of ?w "map ?f [4..<4 + 4 * n]" obj p] Suc.prems by simp
  also have "?w @ map ?f [4..<4 + 4 * n] = map ?f [0..<4 * Suc n]"
    using upt_add_eq_append [of 0 4 "4 * n"] by (simp flip: map_append)
  finally show ?case .
qed

lemma overwrite_update:
  "p < length obj \<Longrightarrow> obj[p := b] = overwrite obj p [b]"
  by (simp add: overwrite_def upd_conv_take_nth_drop)

lemma xor_bytes_eq:
  assumes "p + n \<le> length obj" and "k + n \<le> length key"
  shows "xor_bytes key obj p k n =
    Inr (overwrite obj p (map (\<lambda>i. obj ! (p + i) XOR key ! (k + i)) [0..<n]))"
  using assms
proof (induction n arbitrary: obj p k)
  case 0
  then show ?case by simp
next
  case (Suc n)
  let ?f = "\<lambda>i. obj ! (p + i) XOR key ! (k + i)"
  let ?obj = "overwrite obj p [?f 0]"
  have "xor_bytes key obj p k (Suc n) = xor_bytes key ?obj (p + 1) (k + 1) n"
    using Suc.prems by (simp add: mem_simps overwrite_update)
  also have "\<dots> = Inr (overwrite ?obj (p + 1) (map (\<lambda>i. ?obj ! (p + 1 + i) XOR key ! (k + 1 + i)) [0..<n]))"
    using Suc.prems by (intro Suc.IH) (simp_all add: overwrite_def)
  also have "map (\<lambda>i. ?obj ! (p + 1 + i) XOR key ! (k + 1 + i)) [0..<n] = map ?f [1..<1 + n]"
    using Suc.prems by (intro nth_equalityI) (simp_all add: nth_overwrite del: upt_Suc)
  also have "overwrite ?obj (p + 1) (map ?f [1..<1 + n]) = overwrite obj p ([?f 0] @ map ?f [1..<1 + n])"
    using overwrite_append [of "[?f 0]" "map ?f [1..<1 + n]" obj p] Suc.prems by (simp del: upt_Suc)
  also have "[?f 0] @ map ?f [1..<1 + n] = map ?f [0..<Suc n]"
    by (simp add: upt_conv_Cons del: upt_Suc)
  finally show ?case .
qed

lemma xor_crypt_eq:
  assumes len: "off + unat len \<le> length obj" and key: "16 \<le> length key"
  shows "xor_crypt obj off len key =
    Inr (1, overwrite obj off (xor_stream key (take (unat len) (drop off obj))))"
proof -
  define n where "n = unat len"
  define s where "s = 4 * (n div 4)"
  define m where "m = n mod 4"
  have sm: "s + m = n" and m4: "m < 16" by (simp_all add: s_def m_def mod_less_divisor less_le_trans)
  let ?bs = "take n (drop off obj)"
  let ?f = "\<lambda>i. obj ! (off + i) XOR key ! (i mod 16)"
  let ?obj = "overwrite obj off (map ?f [0..<s])"
  let ?g = "\<lambda>i. obj ! (off + s + i) XOR key ! i"
  have len': "off + s + m \<le> length obj" using len sm by (simp add: n_def)
  have lb: "length ?bs = n" using len by (simp add: n_def)
  have d: "unat (len div 4) = n div 4" "unat (len mod 4) = m"
    by (simp_all add: unat_div unat_mod n_def m_def)
  have w: "xor_words key obj off 0 (n div 4) = Inr ?obj"
    using xor_words_eq [of off "n div 4" obj key 0] len' key by (simp add: s_def)
  have e: "n - m = s" using sm by simp
  have "xor_bytes key ?obj (off + s) 0 m =
      Inr (overwrite ?obj (off + s) (map (\<lambda>i. ?obj ! (off + s + i) XOR key ! (0 + i)) [0..<m]))"
    using len' key m4 by (intro xor_bytes_eq) simp_all
  also have "map (\<lambda>i. ?obj ! (off + s + i) XOR key ! (0 + i)) [0..<m] = map ?g [0..<m]"
    using len' by (intro nth_equalityI) (simp_all add: nth_overwrite)
  also have "overwrite ?obj (off + s) (map ?g [0..<m]) = overwrite obj off (map ?f [0..<s] @ map ?g [0..<m])"
    using overwrite_append [of "map ?f [0..<s]" "map ?g [0..<m]" obj off] len' by simp
  also have "map ?f [0..<s] @ map ?g [0..<m] = xor_stream key ?bs"
  proof (rule nth_equalityI)
    show "length (map ?f [0..<s] @ map ?g [0..<m]) = length (xor_stream key ?bs)"
      using sm lb by simp
    fix i assume "i < length (map ?f [0..<s] @ map ?g [0..<m])"
    then have i: "i < n" using sm by simp
    show "(map ?f [0..<s] @ map ?g [0..<m]) ! i = xor_stream key ?bs ! i"
    proof (cases "i < s")
      case True
      then show ?thesis using i lb len' sm
        by (simp add: xor_stream_def nth_append key_index_def s_def [symmetric])
    next
      case False
      then have "off + s + (i - s) = off + i" and "i - s < m" using i sm by simp_all
      then show ?thesis using False i lb len' sm
        by (simp add: xor_stream_def nth_append key_index_def s_def [symmetric])
    qed
  qed
  finally have b: "xor_bytes key ?obj (off + s) 0 m = Inr (overwrite obj off (xor_stream key ?bs))" .
  have "(if 0 < m then xor_bytes key ?obj (off + (n - m)) 0 m else Inr ?obj) =
      Inr (overwrite obj off (xor_stream key ?bs))"
    using b by (cases "m = 0") (simp_all add: e)
  then show ?thesis
    unfolding xor_crypt_def Let_def d n_def [symmetric] w chain_simps by (simp only: chain_simps)
qed

section \<open>Faults of the XOR stream\<close>

lemma xor_words_Inr:
  "xor_words key obj p j n = Inr obj' \<Longrightarrow> length obj' = length obj \<and> (0 < n \<longrightarrow> p + 4 * n \<le> length obj)"
proof (induction n arbitrary: obj p j)
  case 0
  then show ?case by simp
next
  case (Suc n)
  from Suc.prems obtain obj1 where st: "\<exists>v. store_u32 obj p v = Inr obj1"
    and r: "xor_words key obj1 (p + 4) ((j + 1) mod 4) n = Inr obj'" by (auto simp: chain_eq_Inr)
  from st have "length obj1 = length obj" "p + 4 \<le> length obj" by (auto dest: store_Inr)
  with Suc.IH [OF r] show ?case by auto
qed

lemma xor_bytes_Inr:
  "xor_bytes key obj p k n = Inr obj' \<Longrightarrow> length obj' = length obj \<and> (0 < n \<longrightarrow> p + n \<le> length obj)"
proof (induction n arbitrary: obj p k)
  case 0
  then show ?case by simp
next
  case (Suc n)
  from Suc.prems obtain obj1 where st: "\<exists>v. store_u8 obj p v = Inr obj1"
    and r: "xor_bytes key obj1 (p + 1) (k + 1) n = Inr obj'" by (auto simp: chain_eq_Inr)
  from st have "length obj1 = length obj" "p + 1 \<le> length obj" by (auto dest: store_Inr)
  with Suc.IH [OF r] show ?case by auto
qed

lemma xor_words_Inl: "xor_words key obj p j n = Inl e \<Longrightarrow> e = Out_Of_Bounds"
  by (induction n arbitrary: obj p j) (auto simp: chain_eq_Inl dest: load_Inl store_Inl)

lemma xor_bytes_Inl: "xor_bytes key obj p k n = Inl e \<Longrightarrow> e = Out_Of_Bounds"
  by (induction n arbitrary: obj p k) (auto simp: chain_eq_Inl dest: load_Inl store_Inl)

lemma xor_crypt_Inr:
  assumes "xor_crypt obj off len key = Inr (v, obj')"
  shows "length obj' = length obj" and "0 < unat len \<Longrightarrow> off + unat len \<le> length obj"
proof -
  let ?n = "unat len div 4" and ?m = "unat len mod 4"
  have u: "unat (len div 4) = ?n" "unat (len mod 4) = ?m" by (simp_all add: unat_div unat_mod)
  have nm: "4 * ?n + ?m = unat len" by simp
  obtain obj1 where w: "xor_words key obj off 0 ?n = Inr obj1"
    and b: "(if 0 < ?m then xor_bytes key obj1 (off + (unat len - ?m)) 0 ?m else Inr obj1) = Inr obj'"
    using assms by (auto simp: xor_crypt_def Let_def u chain_eq_Inr)
  note w' = xor_words_Inr [OF w]
  have b': "length obj' = length obj1" "0 < ?m \<Longrightarrow> off + (unat len - ?m) + ?m \<le> length obj1"
    using b xor_bytes_Inr [of key obj1 "off + (unat len - ?m)" 0 ?m obj'] by (auto split: if_splits)
  show "length obj' = length obj" using w' b' by simp
  assume "0 < unat len"
  show "off + unat len \<le> length obj"
  proof (cases "0 < ?m")
    case True
    then show ?thesis using b'(2) w' nm by linarith
  next
    case False
    then have "0 < ?n" using nm \<open>0 < unat len\<close> by linarith
    then show ?thesis using w' False nm by linarith
  qed
qed

lemma xor_crypt_Inl: "xor_crypt obj off len key = Inl e \<Longrightarrow> e = Out_Of_Bounds"
  by (auto simp: xor_crypt_def Let_def chain_eq_Inl split: if_splits dest: xor_words_Inl xor_bytes_Inl)

section \<open>Reflection reverses bits\<close>

lemma reflect_fold:
  assumes c32: "c \<le> 32"
  shows "n \<le> c \<Longrightarrow> fst (fold (reflect_step c) [Suc 0..<Suc n] (l, 0)) = drop_bit n l \<and>
    (\<forall>j. bit (snd (fold (reflect_step c) [Suc 0..<Suc n] (l, 0))) j \<longleftrightarrow>
      c - n \<le> j \<and> j < c \<and> bit l (c - 1 - j))"
proof (induction n)
  case 0
  then show ?case by auto
next
  case (Suc n)
  obtain l' v where s: "fold (reflect_step c) [Suc 0..<Suc n] (l, 0) = (l', v)"
    by (cases "fold (reflect_step c) [Suc 0..<Suc n] (l, 0)")
  from Suc have l': "l' = drop_bit n l"
    and v: "bit v j \<longleftrightarrow> c - n \<le> j \<and> j < c \<and> bit l (c - 1 - j)" for j
    by (simp_all add: s del: upt_Suc)
  have st: "fold (reflect_step c) [Suc 0..<Suc (Suc n)] (l, 0) = reflect_step c (Suc n) (l', v)"
    by (subst upt_Suc_append) (simp_all add: s del: upt_Suc)
  have odd: "drop_bit n l AND 1 \<noteq> 0 \<longleftrightarrow> bit l n" by (simp add: and_one_eq bit_iff_odd_drop_bit odd_iff_mod_2_eq_one)
  have c: "Suc n \<le> c" "c - Suc n < 32" using Suc.prems c32 by simp_all
  have "bit (snd (reflect_step c (Suc n) (l', v))) j \<longleftrightarrow> c - Suc n \<le> j \<and> j < c \<and> bit l (c - 1 - j)" for j
  proof (cases "j = c - Suc n")
    case True
    then have "c - 1 - j = n" and "\<not> c - n \<le> j" using c by simp_all
    then show ?thesis using True c v odd by (simp add: reflect_step_def l' bit_simps)
  next
    case False
    then have "c - n \<le> j \<longleftrightarrow> c - Suc n \<le> j" using c by auto
    then show ?thesis using False c v odd by (auto simp add: reflect_step_def l' bit_simps)
  qed
  then show ?case unfolding st by (simp add: reflect_step_def l')
qed

lemma bit_reflect_8 [bits_simps]: "bit (reflect x 8) j \<longleftrightarrow> j < 8 \<and> bit x (7 - j)"
  using reflect_fold [of 8 8 x] by (simp add: reflect_def)

lemma bit_reflect_32 [bits_simps]: "bit (reflect x 32) j \<longleftrightarrow> j < 32 \<and> bit x (31 - j)"
  using reflect_fold [of 32 32 x] by (simp add: reflect_def)

lemma reflect_xor:
  "reflect (x XOR y) 8 = reflect x 8 XOR reflect y 8"
  "reflect (x XOR y) 32 = reflect x 32 XOR reflect y 32"
  by (auto intro!: bit_word_eqI simp: bits_simps bit_xor_iff)

section \<open>The table\<close>

text \<open>The entry for \<open>t\<close>: reflect, eight polynomial shifts, reflect.\<close>

definition crc_entry :: "byte \<Rightarrow> u32" where
  "crc_entry t = reflect ((crc_shift ^^ 8) (push_bit 24 (reflect (ucast t) 8))) 32"

lemma crc_shift_bit: "crc_shift x = push_bit 1 x XOR (if bit x 31 then multinomial else 0)"
proof -
  have "x AND 0x80000000 = 0 \<longleftrightarrow> \<not> bit x 31"
  proof -
    have e: "(0x80000000 :: u32) = push_bit 31 1" by simp
    have b: "bit (0x80000000 :: u32) n \<longleftrightarrow> n = 31" for n
      unfolding e bit_push_bit_iff by (auto simp: bit_1_iff)
    have "x AND 0x80000000 = (if bit x 31 then 0x80000000 else 0)"
      by (rule bit_word_eqI) (simp only: bit_and_iff b split: if_split, auto)
    moreover have "(0x80000000 :: u32) \<noteq> 0" by simp
    ultimately show ?thesis by metis
  qed
  then show ?thesis by (auto simp: crc_shift_def Let_def)
qed

lemma crc_shift_xor: "crc_shift (x XOR y) = crc_shift x XOR crc_shift y"
  by (auto simp: crc_shift_bit push_bit_xor bit_xor_iff ac_simps)

lemma crc_shifts_xor: "(crc_shift ^^ n) (x XOR y) = (crc_shift ^^ n) x XOR (crc_shift ^^ n) y"
  by (induction n) (simp_all add: crc_shift_xor)

lemma crc_entry_xor: "crc_entry (s XOR t) = crc_entry s XOR crc_entry t"
  by (simp add: crc_entry_def unsigned_xor_eq reflect_xor push_bit_xor crc_shifts_xor)

lemma crc_entry_0: "crc_entry 0 = 0"
  using crc_entry_xor [of 0 0] by simp

text \<open>The usual right-shifting form of the table.\<close>

definition r_shift :: "u32 \<Rightarrow> u32" where
  "r_shift x = drop_bit 1 x XOR (if bit x 0 then 0xEDB88320 else 0)"

lemma reflect_multinomial: "reflect multinomial 32 = 0xEDB88320"
  by code_simp

lemma reflect_crc_shift: "reflect (crc_shift x) 32 = r_shift (reflect x 32)"
proof -
  have "reflect (push_bit 1 x) 32 = drop_bit 1 (reflect x 32)"
  proof (rule bit_word_eqI)
    fix n assume "n < LENGTH(32)"
    then have "1 \<le> 31 - n \<longleftrightarrow> n + 1 < 32" and "31 - n - 1 = 31 - (n + 1)" by auto
    then show "bit (reflect (push_bit 1 x) 32) n = bit (drop_bit 1 (reflect x 32)) n"
      using \<open>n < LENGTH(32)\<close>
      by (simp only: bit_drop_bit_eq bit_reflect_32 bit_push_bit_iff possible_bit_word o_def) auto
  qed
  moreover have "reflect 0 32 = 0" by (rule bit_word_eqI) (simp add: bits_simps)
  ultimately show ?thesis
    by (simp add: crc_shift_bit r_shift_def reflect_xor reflect_multinomial bit_reflect_32)
qed

lemma crc_entry_r_shift: "crc_entry t = (r_shift ^^ 8) (ucast t)"
proof -
  have "reflect ((crc_shift ^^ n) x) 32 = (r_shift ^^ n) (reflect x 32)" for n x
    by (induction n) (simp_all add: reflect_crc_shift)
  moreover have "reflect (push_bit 24 (reflect (ucast t) 8)) 32 = ucast t"
  proof (rule bit_word_eqI)
    fix n assume n: "n < LENGTH(32)"
    show "bit (reflect (push_bit 24 (reflect (ucast t) 8)) 32) n = bit (ucast t :: u32) n"
    proof (cases "n < 8")
      case True
      then have "31 - n - 24 = 7 - n" "7 - (7 - n) = n" "24 \<le> 31 - n" by auto
      then show ?thesis using True by (auto simp: bits_simps bit_simps)
    next
      case False
      then show ?thesis by (auto simp: bits_simps bit_simps dest: bit_imp_le_length)
    qed
  qed
  ultimately show ?thesis by (simp add: crc_entry_def)
qed

lemma funpow_8: "(f ^^ 8) x = f (f (f (f (f (f (f (f x)))))))"
  by (simp add: eval_nat_numeral)

lemma crc_entry_basis:
  "crc_entry 1 = 0x77073096" "crc_entry 2 = 0xEE0E612C" "crc_entry 4 = 0x076DC419"
  "crc_entry 8 = 0x0EDB8832" "crc_entry 16 = 0x1DB71064" "crc_entry 32 = 0x3B6E20C8"
  "crc_entry 64 = 0x76DC4190" "crc_entry 128 = 0xEDB88320"
  by (simp_all add: crc_entry_r_shift funpow_8 r_shift_def)

definition bit_part :: "byte \<Rightarrow> nat \<Rightarrow> byte" where
  "bit_part t k = (if bit t k then push_bit k 1 else 0)"


lemma bit_bit_part: "bit (bit_part t k) n \<longleftrightarrow> n = k \<and> bit t k"
  by (auto simp: bit_part_def bit_push_bit_iff bit_1_iff dest: bit_imp_le_length simp del: push_bit_of_1)

lemma byte_basis:
  "t = bit_part t 0 XOR bit_part t 1 XOR bit_part t 2 XOR bit_part t 3 XOR
       bit_part t 4 XOR bit_part t 5 XOR bit_part t 6 XOR bit_part t 7"
proof (rule bit_word_eqI)
  fix n assume "n < LENGTH(8)"
  then have "n = 0 \<or> n = 1 \<or> n = 2 \<or> n = 3 \<or> n = 4 \<or> n = 5 \<or> n = 6 \<or> n = 7" by auto
  then show "bit t n = bit (bit_part t 0 XOR bit_part t 1 XOR bit_part t 2 XOR bit_part t 3 XOR
       bit_part t 4 XOR bit_part t 5 XOR bit_part t 6 XOR bit_part t 7) n"
    unfolding bit_xor_iff bit_bit_part by (elim disjE) simp_all
qed

lemma crc_entry_low:
  assumes "t \<noteq> 0"
  shows "crc_entry t AND 0xFF \<noteq> 0"
proof -
  let ?e = "\<lambda>k. if bit t k then crc_entry (push_bit k 1) else 0"
  have e: "crc_entry (bit_part t k) = ?e k" for k by (simp add: bit_part_def crc_entry_0)
  have eq: "crc_entry t = ?e 0 XOR ?e 1 XOR ?e 2 XOR ?e 3 XOR ?e 4 XOR ?e 5 XOR ?e 6 XOR ?e 7"
    by (subst byte_basis [of t]) (simp only: crc_entry_xor e)
  have z: "t = 0" if "\<not> bit t 0" "\<not> bit t (Suc 0)" "\<not> bit t 2" "\<not> bit t 3" "\<not> bit t 4" "\<not> bit t 5"
    "\<not> bit t 6" "\<not> bit t 7"
    by (subst byte_basis [of t]) (simp add: bit_part_def that)
  have c: "bit (?e k) j \<longleftrightarrow> bit t k \<and> bit (crc_entry (push_bit k 1)) j" for k j by simp
  have b: "bit (crc_entry t) j \<longleftrightarrow>
      (bit t 0 \<and> bit (0x77073096 :: u32) j) \<noteq> ((bit t 1 \<and> bit (0xEE0E612C :: u32) j) \<noteq>
      ((bit t 2 \<and> bit (0x076DC419 :: u32) j) \<noteq> ((bit t 3 \<and> bit (0x0EDB8832 :: u32) j) \<noteq>
      ((bit t 4 \<and> bit (0x1DB71064 :: u32) j) \<noteq> ((bit t 5 \<and> bit (0x3B6E20C8 :: u32) j) \<noteq>
      ((bit t 6 \<and> bit (0x76DC4190 :: u32) j) \<noteq> (bit t 7 \<and> bit (0xEDB88320 :: u32) j)))))))" for j
    unfolding eq bit_xor_iff c by (simp add: crc_entry_basis)
  show ?thesis
  proof
    assume "crc_entry t AND 0xFF = 0"
    then have "\<not> bit (crc_entry t) j" if "j < 8" for j
      using that bit_take_bit_iff [of 8 "crc_entry t" j] by (simp add: and_0xFF)
    from this [of 0] this [of 1] this [of 2] this [of 3] this [of 4] this [of 5] this [of 6] this [of 7]
    have "\<not> bit t 0 \<and> \<not> bit t (Suc 0) \<and> \<not> bit t 2 \<and> \<not> bit t 3 \<and> \<not> bit t 4 \<and> \<not> bit t 5 \<and> \<not> bit t 6 \<and> \<not> bit t 7"
      unfolding b by simp
    with z assms show False by blast
  qed
qed

lemma crc_shifts_eq:
  "i < length tab \<Longrightarrow> crc_shifts n tab i = Inr (tab[i := (crc_shift ^^ n) (tab ! i)])"
  by (induction n arbitrary: tab) (simp_all add: table_load_def table_store_def funpow_swap1)

lemma crc_init_entry_eq:
  assumes "i < length tab" and "i < 256"
  shows "crc_init_entry tab i = Inr (tab[i := crc_entry (of_nat i)])"
proof -
  have "(ucast (of_nat i :: byte) :: u32) = of_nat i"
    using assms(2) by (simp add: unsigned_of_nat take_bit_nat_eq_self)
  then show ?thesis
    using assms(1) by (simp add: crc_init_entry_def Let_def table_load_def table_store_def crc_shifts_eq crc_entry_def)
qed

lemma crc_init_loop_eq:
  "i + n \<le> length tab \<Longrightarrow> i + n \<le> 256 \<Longrightarrow>
   crc_init_loop n i tab = Inr (take i tab @ map (\<lambda>k. crc_entry (of_nat k)) [i..<i + n] @ drop (i + n) tab)"
proof (induction n arbitrary: i tab)
  case 0
  then show ?case by simp
next
  case (Suc n)
  let ?tab = "tab[i := crc_entry (of_nat i)]"
  have "crc_init_loop (Suc n) i tab = crc_init_loop n (i + 1) ?tab"
    using Suc.prems by (simp add: crc_init_entry_eq)
  also have "\<dots> = Inr (take (i + 1) ?tab @ map (\<lambda>k. crc_entry (of_nat k)) [i + 1..<i + 1 + n] @ drop (i + 1 + n) ?tab)"
    using Suc.prems by (intro Suc.IH) simp_all
  also have "take (i + 1) ?tab = take i tab @ [crc_entry (of_nat i)]"
    using Suc.prems by (simp add: take_Suc_conv_app_nth)
  finally show ?case using Suc.prems by (simp add: upt_conv_Cons del: upt_Suc)
qed

lemma crc_init_loop_add:
  "crc_init_loop (m + n) i tab = chain (crc_init_loop m i tab) (crc_init_loop n (i + m))"
proof (induction m arbitrary: i tab)
  case (Suc m)
  then show ?case by (cases "crc_init_entry tab i") simp_all
qed simp

text \<open>The 256 entries the code means the table to have.\<close>

definition crc_table :: "u32 list" where
  "crc_table = map (\<lambda>k. crc_entry (of_nat k)) [0..<256]"

lemma length_crc_table [simp]: "length crc_table = 256"
  by (simp add: crc_table_def)

lemma nth_crc_table: "crc_table ! unat (t :: byte) = crc_entry t"
  using unsigned_less [of t, where ?'a = nat] by (simp add: crc_table_def)

lemma initial_crc32_table_eq:
  "256 \<le> length tab \<Longrightarrow> initial_crc32_table tab = Inr (crc_table @ drop 256 tab)"
  using crc_init_loop_eq [of 0 256 tab] by (simp add: initial_crc32_table_def crc_table_def del: upt_Suc)

lemma initial_crc32_table_short:
  assumes "length tab = CRC32_TABLE_LEN"
  shows "initial_crc32_table tab = Inl Out_Of_Bounds"
proof -
  have "initial_crc32_table tab = chain (crc_init_loop 255 0 tab) (crc_init_loop 1 255)"
    using crc_init_loop_add [of 255 1 0 tab] by (simp add: initial_crc32_table_def)
  also have "crc_init_loop 255 0 tab = Inr (map (\<lambda>k. crc_entry (of_nat k)) [0..<255])"
    using crc_init_loop_eq [of 0 255 tab] assms by (simp add: CRC32_TABLE_LEN_def del: upt_Suc)
  finally show ?thesis by (simp add: crc_init_entry_def Let_def table_store_def)
qed

section \<open>The checksum as a fold\<close>

definition crc_step :: "byte \<Rightarrow> u32 \<Rightarrow> u32" where
  "crc_step c crc = (push_bit 8 crc OR ucast c) XOR crc_entry (ucast (drop_bit 24 crc))"

definition crc32 :: "byte list \<Rightarrow> u32" where
  "crc32 bs = fold crc_step bs 0"

lemma crc_loop_eq:
  "p + n \<le> length obj \<Longrightarrow>
   crc_loop crc_table obj p n crc = Inr (fold crc_step (take n (drop p obj)) crc)"
proof (induction n arbitrary: p crc)
  case 0
  then show ?case by simp
next
  case (Suc n)
  let ?c = "obj ! p" and ?t = "ucast (drop_bit 24 crc) :: byte"
  have "crc_loop crc_table obj p (Suc n) crc = crc_loop crc_table obj (p + 1) n (crc_step ?c crc)"
    using Suc.prems unsigned_less [of ?t, where ?'a = nat]
    by (simp add: mem_simps table_load_def nth_crc_table crc_step_def Let_def)
  also have "\<dots> = Inr (fold crc_step (take n (drop (p + 1) obj)) (crc_step ?c crc))"
    using Suc.prems by (intro Suc.IH) simp
  also have "fold crc_step (take n (drop (p + 1) obj)) (crc_step ?c crc) = fold crc_step (take (Suc n) (drop p obj)) crc"
    using Suc.prems by (simp add: Cons_nth_drop_Suc [symmetric])
  finally show ?case .
qed

lemma generate_crc32_eq:
  "off + unat len \<le> length obj \<Longrightarrow>
   generate_crc32 crc_table obj off len = Inr (crc32 (take (unat len) (drop off obj)))"
  by (simp add: generate_crc32_def crc32_def crc_loop_eq)

lemma crc_step_xor: "crc_step (c XOR d) (x XOR y) = crc_step c x XOR crc_step d y"
proof -
  have or: "push_bit 8 z OR ucast b = push_bit 8 z XOR (ucast b :: u32)" for z and b :: byte
    by (rule bit_word_eqI) (auto simp: bit_simps dest: bit_imp_le_length)
  show ?thesis
    unfolding crc_step_def or by (simp add: push_bit_xor drop_bit_xor unsigned_xor_eq crc_entry_xor ac_simps)
qed

lemma crc_fold_xor:
  "length as = length bs \<Longrightarrow>
   fold crc_step (map2 (XOR) as bs) (x XOR y) = fold crc_step as x XOR fold crc_step bs y"
  by (induction as bs arbitrary: x y rule: list_induct2) (simp_all add: crc_step_xor)

lemma crc32_xor: "length as = length bs \<Longrightarrow> crc32 (map2 (XOR) as bs) = crc32 as XOR crc32 bs"
  using crc_fold_xor [of as bs 0 0] by (simp add: crc32_def)

section \<open>Burst errors\<close>

lemma crc_step_0_0: "crc_step 0 0 = 0"
  by (simp add: crc_step_def crc_entry_0)

lemma crc_fold_zeros: "fold crc_step (replicate n 0) 0 = 0"
  by (induction n) (simp_all add: crc_step_0_0)

text \<open>A step over a zero byte never loses a difference.\<close>

lemma crc_step_0_nonzero:
  assumes "d \<noteq> 0"
  shows "crc_step 0 d \<noteq> 0"
proof (cases "(ucast (drop_bit 24 d) :: byte) = 0")
  case True
  have "push_bit 8 d \<noteq> 0"
  proof
    assume z: "push_bit 8 d = 0"
    have "d = 0"
    proof (rule bit_word_eqI)
      fix n assume n: "n < LENGTH(32)"
      show "bit d n = bit 0 n"
      proof (cases "n < 24")
        case True
        have "bit (push_bit 8 d) (n + 8) = bit d n" using True by (simp only: bit_push_bit_iff possible_bit_word) simp
        with z show ?thesis by simp
      next
        case False
        have "bit (ucast (drop_bit 24 d) :: byte) (n - 24) = bit d n" using False n by (auto simp: bit_simps)
        with True show ?thesis by simp
      qed
    qed
    with assms show False by simp
  qed
  then show ?thesis by (simp only: crc_step_def True crc_entry_0) simp
next
  case False
  have "(push_bit 8 d) AND 0xFF = 0"
    unfolding and_0xFF by (rule bit_word_eqI) (simp only: bit_take_bit_iff bit_push_bit_iff, simp)
  then have "crc_step 0 d AND 0xFF = crc_entry (ucast (drop_bit 24 d)) AND 0xFF"
    unfolding crc_step_def and_0xFF take_bit_xor take_bit_or by simp
  with crc_entry_low [OF False] show ?thesis by auto
qed

lemma crc_fold_zeros_nonzero: "d \<noteq> 0 \<Longrightarrow> fold crc_step (replicate n 0) d \<noteq> 0"
  by (induction n arbitrary: d) (simp_all add: crc_step_0_nonzero)

text \<open>Up to four bytes enter the register before any leaves it.\<close>

lemma crc_fold_short:
  assumes "length bs \<le> 4"
  shows "bit (fold crc_step bs 0) k \<longleftrightarrow>
    k div 8 < length bs \<and> bit (rev bs ! (k div 8)) (k mod 8)"
  using assms
proof (induction bs arbitrary: k rule: rev_induct)
  case Nil
  then show ?case by (simp add: crc_fold_zeros)
next
  case (snoc b bs)
  let ?d = "fold crc_step bs 0"
  have IH: "bit ?d k \<longleftrightarrow> k div 8 < length bs \<and> bit (rev bs ! (k div 8)) (k mod 8)" for k
    using snoc by simp
  have "(ucast (drop_bit 24 ?d) :: byte) = 0"
  proof (rule bit_word_eqI)
    fix n :: nat
    have "3 \<le> (24 + n) div 8" by simp
    then have "\<not> (24 + n) div 8 < length bs" using snoc.prems by simp
    then show "bit (ucast (drop_bit 24 ?d) :: byte) n = bit 0 n" by (simp add: bit_simps IH)
  qed
  then have st: "fold crc_step (bs @ [b]) 0 = push_bit 8 ?d OR ucast b"
    by (simp add: crc_step_def crc_entry_0)
  show ?case
  proof (cases "k < 8")
    case True
    then show ?thesis unfolding st bit_or_iff bit_push_bit_iff by (simp add: bit_simps)
  next
    case False
    then have "k div 8 = Suc ((k - 8) div 8)" and "k mod 8 = (k - 8) mod 8"
      by (simp_all add: le_div_geq le_mod_geq)
    moreover have "bit (ucast b :: u32) k = False" using False by (auto simp: bit_simps dest: bit_imp_le_length)
    moreover have "k < 32" if "(k - 8) div 8 < length bs"
      using that snoc.prems False by simp
    ultimately show ?thesis unfolding st bit_or_iff bit_push_bit_iff
      using False by (auto simp: IH possible_bit_word)
  qed
qed

lemma crc_fold_short_nonzero:
  assumes "length bs \<le> 4" and "b \<in> set bs" and "b \<noteq> 0"
  shows "fold crc_step bs 0 \<noteq> 0"
proof -
  obtain i where i: "i < length bs" "rev bs ! i = b"
    using assms(2) by (metis in_set_conv_nth length_rev set_rev)
  obtain j where j: "bit b j"
    using assms(3) bit_word_eqI [of b 0] by auto
  then have "j < 8" by (auto dest: bit_imp_le_length)
  then have "bit (fold crc_step bs 0) (8 * i + j)"
    using crc_fold_short [OF assms(1), of "8 * i + j"] i j by simp
  then show ?thesis by auto
qed

lemma crc32_burst:
  assumes len: "length bs' = length bs" "length bs \<le> 4" and ne: "bs' \<noteq> bs"
  shows "crc32 (pre @ bs' @ post) \<noteq> crc32 (pre @ bs @ post)"
proof -
  let ?d = "map2 (XOR) bs' bs"
  have z: "map2 (XOR) xs xs = replicate (length xs) 0" for xs :: "byte list"
    by (induction xs) simp_all
  have "crc32 (pre @ bs' @ post) XOR crc32 (pre @ bs @ post) =
      crc32 (map2 (XOR) (pre @ bs' @ post) (pre @ bs @ post))"
    using len by (subst crc32_xor) simp_all
  also have "\<dots> = fold crc_step (replicate (length post) 0) (fold crc_step ?d 0)"
    using len by (simp add: crc32_def z crc_fold_zeros del: fold_replicate)
  also have "\<dots> \<noteq> 0"
  proof (rule crc_fold_zeros_nonzero)
    obtain i where i: "i < length bs" "bs' ! i \<noteq> bs ! i"
      using ne len nth_equalityI [of bs' bs] by auto
    then have "bs' ! i XOR bs ! i \<noteq> 0" by (simp add: xor_eq_0_iff)
    moreover have "bs' ! i XOR bs ! i \<in> set ?d"
      using nth_mem [of i ?d] i len by simp
    ultimately show "fold crc_step ?d 0 \<noteq> 0"
      using len by (intro crc_fold_short_nonzero) auto
  qed
  finally show ?thesis by auto
qed

section \<open>The check\<close>

lemma check_crc32_eq:
  assumes "4 \<le> unat len" and "off + unat len \<le> length obj"
  shows "check_crc32 crc_table obj off len =
    Inr (if le_word (take 4 (drop (off + (unat len - 4)) obj)) = crc32 (take (unat len - 4) (drop off obj))
         then 1 else 0)"
proof -
  have "(4 :: u32) \<le> len" using assms(1) by (simp add: word_le_nat_alt)
  then have "unat (len - 4) = unat len - 4" by (simp add: unat_sub)
  then show ?thesis
    using assms by (simp add: check_crc32_def mem_simps generate_crc32_eq)
qed

lemma check_crc32_underflow:
  assumes "unat len < 4" and "length obj < 2 ^ 31"
  shows "check_crc32 tab obj off len = Inl Out_Of_Bounds"
proof -
  have "len \<in> {0, 1, 2, 3}"
    using assms(1) by (auto simp: word_unat_eq_iff)
  then have "2 ^ 31 \<le> unat (len - 4)" by (elim insertE emptyE) (simp_all add: unsigned_minus_1_eq_mask mask_eq_exp_minus_1)
  then show ?thesis using assms(2) by (simp add: check_crc32_def load_fault)
qed

lemma crc_loop_Inl: "crc_loop tab obj p n crc = Inl e \<Longrightarrow> e = Out_Of_Bounds"
  by (induction n arbitrary: p crc)
    (auto simp: chain_eq_Inl Let_def table_load_def split: if_splits dest: load_Inl)

lemma check_crc32_Inl: "check_crc32 tab obj off len = Inl e \<Longrightarrow> e = Out_Of_Bounds"
  by (auto simp: check_crc32_def generate_crc32_def chain_eq_Inl dest: load_Inl crc_loop_Inl)

section \<open>What the file promises\<close>

text \<open>The rows of the key table: sixteen non-zero bytes and a terminating zero.\<close>

definition key_row_ok :: "byte list \<Rightarrow> bool" where
  "key_row_ok row \<longleftrightarrow> length row = XOR_KEY_LEN + 1 \<and> (\<forall>b \<in> set (take XOR_KEY_LEN row). b \<noteq> 0) \<and> last row = 0"

lemma rand_between_range:
  assumes "a \<le> b"
  shows "fst (rand_between rand a b r) \<in> {a..b}"
proof -
  obtain v r' where "rand r = (v, r')" by (cases "rand r")
  moreover have "0 \<le> int v mod (b - a + 1)" using assms by simp
  moreover have "int v mod (b - a + 1) < b - a + 1" using assms by (intro pos_mod_bound) simp
  ultimately show ?thesis by (auto simp: rand_between_def)
qed

lemma byte_of_1_255: "v \<in> {1..255} \<Longrightarrow> (word_of_int v :: byte) \<noteq> 0"
proof
  assume v: "v \<in> {1..255}" and z: "(word_of_int v :: byte) = 0"
  from z have "uint (word_of_int v :: byte) = 0" by simp
  then have "v mod 256 = 0" by (simp add: uint_word_of_int)
  with v show False by simp
qed

lemma xor_key_row_ok:
  "length (fst (xor_key_row rand n r)) = n + 1 \<and> (\<forall>b \<in> set (take n (fst (xor_key_row rand n r))). b \<noteq> 0) \<and>
   last (fst (xor_key_row rand n r)) = 0"
proof (induction n arbitrary: r)
  case 0
  then show ?case by simp
next
  case (Suc n)
  obtain v r1 where v: "rand_between rand 1 255 r = (v, r1)" by (cases "rand_between rand 1 255 r")
  obtain row r2 where row: "xor_key_row rand n r1 = (row, r2)" by (cases "xor_key_row rand n r1")
  have "(word_of_int v :: byte) \<noteq> 0" using rand_between_range [of 1 255 rand r] by (intro byte_of_1_255) (simp add: v)
  moreover have "length row = n + 1" "\<forall>b \<in> set (take n row). b \<noteq> 0" "last row = 0"
    using Suc [of r1] by (simp_all add: row)
  ultimately show ?case by (auto simp: v row)
qed

lemma xor_key_rows_ok:
  "length (fst (xor_key_rows rand n r)) = n \<and> (\<forall>row \<in> set (fst (xor_key_rows rand n r)). key_row_ok row)"
proof (induction n arbitrary: r)
  case 0
  then show ?case by simp
next
  case (Suc n)
  obtain row r1 where row: "xor_key_row rand XOR_KEY_LEN r = (row, r1)" by (cases "xor_key_row rand XOR_KEY_LEN r")
  obtain rows r2 where rows: "xor_key_rows rand n r1 = (rows, r2)" by (cases "xor_key_rows rand n r1")
  have "key_row_ok row" using xor_key_row_ok [of rand XOR_KEY_LEN r] by (simp add: row key_row_ok_def)
  then show ?case using Suc [of r1] by (simp add: row rows)
qed

text \<open>After \<open>initial_xor_keys\<close>, whatever the generator delivers, the key \<open>rand_xor_key\<close> picks is one
  of the 256 rows: sixteen bytes, none of them zero, and a terminating zero.\<close>

theorem rand_xor_key_ok:
  "case initial_xor_keys rand r of (keys, r1) \<Rightarrow>
     length keys = MAX_XOR_NUM \<and>
     fst (rand_xor_key rand keys r1) \<in> set keys \<and> key_row_ok (fst (rand_xor_key rand keys r1))"
proof -
  obtain keys r1 where i: "initial_xor_keys rand r = (keys, r1)" by (cases "initial_xor_keys rand r")
  obtain v r2 where v: "rand r1 = (v, r2)" by (cases "rand r1")
  have k: "length keys = MAX_XOR_NUM" "\<forall>row \<in> set keys. key_row_ok row"
    using xor_key_rows_ok [of rand MAX_XOR_NUM r] i by (simp_all add: initial_xor_keys_def)
  have "fst (rand_xor_key rand keys r1) \<in> set keys"
    using k(1) by (auto simp: rand_xor_key_def v MAX_XOR_NUM_def intro!: nth_mem)
  with k show ?thesis by (simp add: i)
qed

lemma xor_crypt_inverse:
  assumes "off + unat len \<le> length obj" and "16 \<le> length key"
  shows "\<exists>obj'. xor_crypt obj off len key = Inr (1, obj') \<and> xor_decrypt obj' off len key = Inr (1, obj) \<and>
    length obj' = length obj \<and> take off obj' = take off obj \<and>
    drop (off + unat len) obj' = drop (off + unat len) obj"
proof -
  let ?bs = "take (unat len) (drop off obj)"
  let ?obj = "overwrite obj off (xor_stream key ?bs)"
  have lb: "length ?bs = unat len" using assms(1) by simp
  have l: "length ?obj = length obj" using assms(1) lb by (intro length_overwrite) simp
  have td: "take (unat len) (drop off ?obj) = xor_stream key ?bs"
    using assms(1) lb by (simp add: overwrite_def)
  have "xor_crypt ?obj off len key = Inr (1, overwrite ?obj off (xor_stream key (xor_stream key ?bs)))"
    using xor_crypt_eq [of off len ?obj key] assms l by (simp add: td)
  also have "overwrite ?obj off (xor_stream key (xor_stream key ?bs)) = overwrite obj off ?bs"
    using assms(1) lb by (simp add: xor_stream_involution overwrite_overwrite_same)
  also have "\<dots> = obj" using assms(1)
    by (simp add: overwrite_def) (metis add.commute append_take_drop_id drop_drop)
  finally have "xor_decrypt ?obj off len key = Inr (1, obj)" by (simp add: xor_decrypt_def)
  moreover have "take off ?obj = take off obj" "drop (off + unat len) ?obj = drop (off + unat len) obj"
    using assms(1) lb by (simp_all add: overwrite_def)
  ultimately show ?thesis using xor_crypt_eq [OF assms] l by (intro exI [of _ ?obj]) simp
qed

text \<open>C27. Inside a buffer that holds the range, and with a key of sixteen bytes, \<open>xor_crypt\<close> succeeds,
  changes only the range and is undone by \<open>xor_decrypt\<close> with the same length and key.\<close>

theorem xor_round_trip:
  assumes "off + unat len \<le> length obj" and "16 \<le> length key"
  shows "\<exists>obj'. xor_crypt obj off len key = Inr (1, obj') \<and> xor_decrypt obj' off len key = Inr (1, obj) \<and>
    length obj' = length obj \<and> take off obj' = take off obj \<and>
    drop (off + unat len) obj' = drop (off + unat len) obj"
  by (rule xor_crypt_inverse [OF assms])

theorem xor_round_trip_witness:
  "\<exists>obj'. xor_crypt [0, 1, 2, 3, 4, 5, 6, 7] 1 6 [1, 2, 3, 4, 5, 6, 7, 8, 9, 10, 11, 12, 13, 14, 15, 16] = Inr (1, obj') \<and>
     xor_decrypt obj' 1 6 [1, 2, 3, 4, 5, 6, 7, 8, 9, 10, 11, 12, 13, 14, 15, 16] = Inr (1, [0, 1, 2, 3, 4, 5, 6, 7])"
  using xor_round_trip [of 1 6 "[0, 1, 2, 3, 4, 5, 6, 7]" "[1, 2, 3, 4, 5, 6, 7, 8, 9, 10, 11, 12, 13, 14, 15, 16]"]
  by auto

text \<open>C28. On storage for 256 words \<open>initial_crc32_table\<close> computes the standard table of the reflected
  polynomial 0xEDB88320, without touching the words beyond; on the 0xFF words the file declares
  its last store is out of bounds.\<close>

theorem crc32_table_correct:
  "(256 \<le> length tab \<longrightarrow> initial_crc32_table tab =
      Inr (map (\<lambda>k. (r_shift ^^ 8) (of_nat k)) [0..<256] @ drop 256 tab)) \<and>
   (length tab = CRC32_TABLE_LEN \<longrightarrow> initial_crc32_table tab = Inl Out_Of_Bounds)"
proof -
  have "crc_table = map (\<lambda>k. (r_shift ^^ 8) (of_nat k)) [0..<256]"
    unfolding crc_table_def
    by (rule map_cong) (simp_all add: crc_entry_r_shift unsigned_of_nat take_bit_nat_eq_self del: upt_Suc)
  then show ?thesis using initial_crc32_table_eq [of tab] initial_crc32_table_short [of tab] by simp
qed

theorem crc32_table_correct_witness:
  "initial_crc32_table (replicate 256 0) = Inr (map (\<lambda>k. (r_shift ^^ 8) (of_nat k)) [0..<256]) \<and>
   initial_crc32_table (replicate 0xFF 0) = Inl Out_Of_Bounds"
  using crc32_table_correct [of "replicate 256 0"] crc32_table_correct [of "replicate 0xFF 0"]
  by (simp add: CRC32_TABLE_LEN_def del: upt_Suc upt_rec_numeral)

text \<open>A checksum stored little-endian after the bytes it was generated from passes \<open>check_crc32\<close>.\<close>

theorem crc_appended_checks:
  assumes "n + 4 < 2 ^ 32" and "off + n + 4 \<le> length obj"
  shows "chain (generate_crc32 crc_table obj off (of_nat n)) (\<lambda>c. chain (store_u32 obj (off + n) c)
    (\<lambda>obj'. check_crc32 crc_table obj' off (of_nat (n + 4)))) = Inr 1"
proof -
  let ?c = "crc32 (take n (drop off obj))"
  let ?obj = "overwrite obj (off + n) (le_bytes 4 ?c)"
  have n: "unat (of_nat n :: u32) = n" "unat (of_nat (n + 4) :: u32) = n + 4"
    using assms(1) by (simp_all only: unat_of_nat) simp_all
  have l: "length ?obj = length obj" using assms(2) by (intro length_overwrite) simp
  have g: "generate_crc32 crc_table obj off (of_nat n) = Inr ?c"
    using assms n by (simp add: generate_crc32_eq)
  have s: "store_u32 obj (off + n) ?c = Inr ?obj" using assms by (simp add: mem_simps)
  have t1: "take 4 (drop (off + n) ?obj) = le_bytes 4 ?c" using assms(2) by (simp add: overwrite_def)
  have t2: "take n (drop off ?obj) = take n (drop off obj)"
    using assms(2) by (simp add: overwrite_def drop_take)
  have e: "le_word (le_bytes 4 ?c) = ?c" by (rule le_word_le_bytes) simp
  have "check_crc32 crc_table ?obj off (of_nat (n + 4)) = Inr 1"
    using check_crc32_eq [of "of_nat (n + 4)" off ?obj] assms l by (simp only: n) (simp add: t1 t2 e)
  then show ?thesis by (simp only: g s chain_simps)
qed

theorem crc_appended_checks_witness:
  "chain (generate_crc32 crc_table [1, 2, 3, 0, 0, 0, 0] 0 (of_nat 3)) (\<lambda>c.
   chain (store_u32 [1, 2, 3, 0, 0, 0, 0] (0 + 3) c)
     (\<lambda>obj'. check_crc32 crc_table obj' 0 (of_nat (3 + 4)))) = Inr 1"
  by (rule crc_appended_checks) simp_all

text \<open>C29. Corrupting up to four consecutive bytes of the data under a valid checksum is always detected.\<close>

theorem crc_detects_burst:
  assumes "4 \<le> unat len" and "off + unat len \<le> length obj"
    and "check_crc32 crc_table obj off len = Inr 1"
    and "length bs \<le> 4" and "i + length bs \<le> unat len - 4"
    and "bs \<noteq> take (length bs) (drop (off + i) obj)"
  shows "check_crc32 crc_table (overwrite obj (off + i) bs) off len = Inr 0"
proof -
  let ?n = "unat len - 4" and ?obj = "overwrite obj (off + i) bs"
  let ?pre = "take i (drop off obj)" and ?old = "take (length bs) (drop (off + i) obj)"
    and ?post = "take (?n - (i + length bs)) (drop (off + i + length bs) obj)"
  have l: "length ?obj = length obj" using assms by (intro length_overwrite) simp
  have old: "take ?n (drop off obj) = ?pre @ ?old @ ?post"
  proof -
    have "take ?n (drop off obj) = ?pre @ take (?n - i) (drop (off + i) obj)"
      using assms(5) take_add [of i "?n - i" "drop off obj"] add_diff_inverse_nat [of ?n i]
      by (simp add: add.commute del: diff_diff_left)
    also have "take (?n - i) (drop (off + i) obj) = ?old @ ?post"
      using assms(5) take_add [of "length bs" "?n - (i + length bs)" "drop (off + i) obj"]
      by (simp add: add.commute add.left_commute del: diff_diff_left)
    finally show ?thesis .
  qed
  have "?obj = take off obj @ ?pre @ bs @ drop (off + i + length bs) obj"
    by (simp add: overwrite_def take_add)
  moreover have "off \<le> length obj" "length ?pre = i" using assms by simp_all
  ultimately have new: "take ?n (drop off ?obj) = ?pre @ bs @ ?post"
    using assms(5) by (simp add: add.assoc)
  have crc: "take 4 (drop (off + ?n) ?obj) = take 4 (drop (off + ?n) obj)"
    using assms(5) assms(2) assms(1) by (simp add: overwrite_def add.commute)
  have "crc32 (?pre @ bs @ ?post) \<noteq> crc32 (?pre @ ?old @ ?post)"
    using assms by (intro crc32_burst) simp_all
  moreover have "le_word (take 4 (drop (off + ?n) obj)) = crc32 (?pre @ ?old @ ?post)"
    using check_crc32_eq [OF assms(1,2)] assms(3) by (simp only: old) (simp split: if_splits)
  ultimately show ?thesis
    using check_crc32_eq [of len off ?obj] assms(1,2) l by (simp only: new crc) simp
qed

theorem crc_detects_burst_witness:
  "check_crc32 crc_table (overwrite [1, 2, 3, 3, 2, 1, 0] (0 + 1) [2, 7]) 0 7 = Inr 0"
proof -
  have "crc32 [1, 2, 3] = 0x010203" by (simp add: crc32_def crc_step_def crc_entry_0)
  then have "check_crc32 crc_table [1, 2, 3, 3, 2, 1, 0] 0 7 = Inr 1"
    by (simp add: check_crc32_eq)
  then show ?thesis by (intro crc_detects_burst) simp_all
qed

text \<open>A length below four, which no caller excludes, wraps around: the check reads far outside the buffer.\<close>

theorem check_crc32_short:
  assumes "unat len < 4" and "length obj < 2 ^ 31"
  shows "check_crc32 tab obj off len = Inl Out_Of_Bounds"
  by (rule check_crc32_underflow [OF assms])

theorem check_crc32_short_witness:
  "check_crc32 crc_table [1, 2, 3] 0 3 = Inl Out_Of_Bounds"
  by (rule check_crc32_short) simp_all

end
