(* ===== verification/Net_Message.thy ===== *)
theory Net_Message
  imports Prelude
begin

text \<open>
  The message object of \<open>src/leo_net_message.h\<close>: an id, the number of bytes in use and a
  buffer of 1024 bytes out of which fields are reserved one after the other. A pointer or
  reference into the buffer is the offset it points to.
\<close>

section \<open>The class\<close>

definition BUFFER_SIZE :: u32 where "BUFFER_SIZE = 1024"

record net_message =
  nm_id :: u16
  nm_real_size :: u16
  nm_buffer :: "byte list"

definition net_message_new :: net_message where
  "net_message_new = \<lparr>nm_id = 0, nm_real_size = 0, nm_buffer = replicate (unat BUFFER_SIZE) 0\<rparr>"

definition get_id :: "net_message \<Rightarrow> u16" where
  "get_id nm = nm_id nm"

definition set_id :: "u16 \<Rightarrow> net_message \<Rightarrow> net_message" where
  "set_id i nm = nm\<lparr>nm_id := i\<rparr>"

definition get_real_size :: "net_message \<Rightarrow> u16" where
  "get_real_size nm = nm_real_size nm"

definition set_real_size :: "u16 \<Rightarrow> net_message \<Rightarrow> net_message" where
  "set_real_size n nm = nm\<lparr>nm_real_size := n\<rparr>"

definition get_data :: "net_message \<Rightarrow> byte list" where
  "get_data nm = nm_buffer nm"

text \<open>
  \<open>pop_ptr\<close> and \<open>pop_ref\<close> take \<open>sizeof(t)\<close> as \<open>sz\<close>. The sum is computed in 32
  bits, the new size stored in 16. Without room \<open>pop_ptr\<close> returns the null pointer;
  \<open>pop_ref\<close> has no return statement on that path, so its result is indeterminate.
\<close>

definition pop_ptr :: "u32 \<Rightarrow> net_message \<Rightarrow> nat option \<times> net_message" where
  "pop_ptr sz nm =
     (if ucast (nm_real_size nm) + sz < BUFFER_SIZE
      then (Some (unat (nm_real_size nm)), nm\<lparr>nm_real_size := ucast (ucast (nm_real_size nm) + sz)\<rparr>)
      else (None, nm))"

definition pop_ref :: "u32 \<Rightarrow> net_message \<Rightarrow> (nat \<times> net_message) result" where
  "pop_ref sz nm =
     (if ucast (nm_real_size nm) + sz < BUFFER_SIZE
      then Inr (unat (nm_real_size nm), nm\<lparr>nm_real_size := ucast (ucast (nm_real_size nm) + sz)\<rparr>)
      else Inl Uninitialised)"

section \<open>The invariant\<close>

definition nm_wf :: "net_message \<Rightarrow> bool" where
  "nm_wf nm \<longleftrightarrow> length (nm_buffer nm) = 1024 \<and> unat (nm_real_size nm) < 1024"

lemma nm_wf_new: "nm_wf net_message_new"
  by (simp add: nm_wf_def net_message_new_def BUFFER_SIZE_def)

text \<open>\<open>sizeof\<close> is at most \<open>2\<^sup>31\<close> for any object, so the sum does not wrap.\<close>

lemma pop_sum:
  fixes sz :: u32
  assumes "unat sz \<le> 2 ^ 31"
  shows "unat (ucast (s :: u16) + sz) = unat s + unat sz"
proof -
  have "unat s < 2 ^ 16" using unsigned_less [of s, where ?'a = nat] by simp
  then have "unat s + unat sz < 2 ^ 32" using assms by simp
  then show ?thesis by (simp add: unat_word_ariths unsigned_ucast_eq take_bit_nat_eq_self)
qed

lemma pop_ptr_cases:
  assumes "unat sz \<le> 2 ^ 31"
  obtains (room) nm' where "unat (nm_real_size nm) + unat sz < 1024"
      "pop_ptr sz nm = (Some (unat (nm_real_size nm)), nm')"
      "unat (nm_real_size nm') = unat (nm_real_size nm) + unat sz"
      "nm_buffer nm' = nm_buffer nm" "nm_id nm' = nm_id nm"
  | (full) "1024 \<le> unat (nm_real_size nm) + unat sz" "pop_ptr sz nm = (None, nm)"
proof (cases "unat (nm_real_size nm) + unat sz < 1024")
  case True
  let ?s = "ucast (nm_real_size nm) + sz"
  have s: "unat ?s = unat (nm_real_size nm) + unat sz" by (rule pop_sum [OF assms])
  then have "unat (ucast ?s :: u16) = unat ?s"
    using True by (simp add: unsigned_ucast_eq take_bit_nat_eq_self)
  with s True that(1) show ?thesis
    by (simp add: pop_ptr_def BUFFER_SIZE_def word_less_nat_alt)
next
  case False
  then show ?thesis
    using that(2) pop_sum [OF assms, of "nm_real_size nm"]
    by (simp add: pop_ptr_def BUFFER_SIZE_def word_less_nat_alt)
qed

section \<open>Reserving fields one after the other\<close>

text \<open>The regions a sequence of \<open>pop_ptr\<close> calls reserves, offset and size of each successful call.\<close>

fun pop_all :: "u32 list \<Rightarrow> net_message \<Rightarrow> (nat \<times> nat) list \<times> net_message" where
  "pop_all [] nm = ([], nm)"
| "pop_all (sz # szs) nm =
     (let (p, nm1) = pop_ptr sz nm; (rs, nm2) = pop_all szs nm1
      in (case p of None \<Rightarrow> rs | Some off \<Rightarrow> (off, unat sz) # rs, nm2))"

lemma pop_all_regions:
  "\<forall>sz \<in> set szs. unat sz \<le> 2 ^ 31 \<Longrightarrow> pop_all szs nm = (rs, nm') \<Longrightarrow>
     sorted_wrt (\<lambda>(o1, s1) (o2, s2). o1 + s1 \<le> o2) rs \<and>
     (\<forall>(off, sz) \<in> set rs. unat (nm_real_size nm) \<le> off \<and> off + sz < 1024) \<and>
     nm_buffer nm' = nm_buffer nm \<and> (nm_wf nm \<longrightarrow> nm_wf nm')"
proof (induction szs arbitrary: nm rs nm')
  case Nil
  then show ?case by simp
next
  case (Cons sz szs)
  then have "unat sz \<le> 2 ^ 31" and rest: "\<forall>sz \<in> set szs. unat sz \<le> 2 ^ 31" by simp_all
  from this(1) show ?case
  proof (cases rule: pop_ptr_cases [of sz nm])
    case (room nm1)
    obtain rs1 nm2 where r: "pop_all szs nm1 = (rs1, nm2)" by (cases "pop_all szs nm1")
    with Cons.prems room have eq: "rs = (unat (nm_real_size nm), unat sz) # rs1" "nm' = nm2" by auto
    from Cons.IH [OF rest r] room show ?thesis unfolding eq by (fastforce simp: nm_wf_def)
  next
    case full
    obtain rs1 nm2 where r: "pop_all szs nm = (rs1, nm2)" by (cases "pop_all szs nm")
    with Cons.prems full have eq: "rs = rs1" "nm' = nm2" by auto
    from Cons.IH [OF rest r] show ?thesis unfolding eq .
  qed
qed

text \<open>C30. However many fields are reserved in a well-formed message, and however many requests are refused in
  between, the regions handed out follow each other without overlapping and end inside the buffer.\<close>

theorem pop_ptr_disjoint:
  assumes "nm_wf nm" and "\<forall>sz \<in> set szs. unat sz \<le> 2 ^ 31"
    and "pop_all szs nm = (regions, nm')"
  shows "sorted_wrt (\<lambda>(o1, s1) (o2, s2). o1 + s1 \<le> o2) regions \<and>
    (\<forall>(off, sz) \<in> set regions. off + sz < length (nm_buffer nm')) \<and> nm_wf nm'"
  using pop_all_regions [OF assms(2,3)] assms(1) by (auto simp: nm_wf_def)

theorem pop_ptr_disjoint_witness:
  "(let (regions, nm') = pop_all [4, 1000, 30, 8] net_message_new in
     regions = [(0, 4), (4, 1000), (1004, 8)] \<and> sorted_wrt (\<lambda>(o1, s1) (o2, s2). o1 + s1 \<le> o2) regions \<and> nm_wf nm')"
proof -
  let ?szs = "[4, 1000, 30, 8] :: u32 list"
  obtain rs nm' where r: "pop_all ?szs net_message_new = (rs, nm')" by (cases "pop_all ?szs net_message_new")
  have "rs = fst (pop_all ?szs net_message_new)" by (simp only: r fst_conv)
  also have "\<dots> = [(0, 4), (4, 1000), (1004, 8)]"
    by (simp add: pop_ptr_def BUFFER_SIZE_def net_message_new_def)
  finally have rs: "rs = [(0, 4), (4, 1000), (1004, 8)]" .
  have "nm_wf nm'" using pop_ptr_disjoint [OF nm_wf_new _ r] by simp
  then show ?thesis unfolding r Let_def prod.case rs by simp
qed

text \<open>The reservation is refused exactly when the field would reach the last byte: a field that exactly
  fills the buffer does not fit, and where \<open>pop_ptr\<close> returns null, \<open>pop_ref\<close> returns an
  indeterminate reference.\<close>

theorem pop_refused_iff:
  assumes "unat sz \<le> 2 ^ 31"
  shows "(fst (pop_ptr sz nm) = None) = (1023 < unat (nm_real_size nm) + unat sz) \<and>
    (pop_ref sz nm = Inl Uninitialised) = (fst (pop_ptr sz nm) = None) \<and>
    (fst (pop_ptr sz nm) \<noteq> None \<longrightarrow> pop_ref sz nm = Inr (the (fst (pop_ptr sz nm)), snd (pop_ptr sz nm)))"
  using pop_sum [OF assms, of "nm_real_size nm"]
  by (simp add: pop_ptr_def pop_ref_def BUFFER_SIZE_def word_less_nat_alt not_less)

theorem pop_refused_iff_witness:
  "fst (pop_ptr 1024 net_message_new) = None \<and> fst (pop_ptr 1023 net_message_new) \<noteq> None"
  using pop_refused_iff [of 1024 net_message_new] pop_refused_iff [of 1023 net_message_new]
  by (simp add: net_message_new_def)

end
