(* ===== verification/Game_Protocol.thy ===== *)
theory Game_Protocol
  imports Leo_Des Dof_Crypto Net_Message
begin

text \<open>
  The wire protocol of \<open>src/leo_tcp_game_protocol.c\<close>: the key packet a new connection is
  meant to receive, the encoding of an outgoing message and the acceptance of an incoming one.
  Buffers are an object and an offset into it; every store and load is bounds checked.
\<close>

section \<open>State\<close>

text \<open>\<open>DEFAULT_ECB\<close> is the string \<open>1Z2X3C0\<close> with its terminating zero.\<close>

definition DEFAULT_ECB :: "byte list" where
  "DEFAULT_ECB = [0x31, 0x5A, 0x32, 0x58, 0x33, 0x43, 0x30, 0]"

record secret_key =
  sk_session_key :: u32
  sk_xor_key :: "byte list"
  sk_swap_key :: "byte list"

record about_crypt =
  ac_sequence_id :: u32
  ac_session_key :: u32
  ac_xor_key :: "byte list"
  ac_swap_key :: "byte list"

definition ac_wf :: "about_crypt \<Rightarrow> bool" where
  "ac_wf ac \<longleftrightarrow> length (ac_xor_key ac) = XOR_KEY_LEN + 1 \<and> length (ac_swap_key ac) = SWAP_KEY_LEN + 1"

text \<open>The packed layout of \<open>secret_key\<close>.\<close>

definition secret_key_bytes :: "secret_key \<Rightarrow> byte list" where
  "secret_key_bytes sk = le_bytes 4 (sk_session_key sk) @ sk_xor_key sk @ sk_swap_key sk"

definition sizeof_secret_key :: nat where
  "sizeof_secret_key = 4 + (XOR_KEY_LEN + 1) + (SWAP_KEY_LEN + 1)"

section \<open>The key packet\<close>

text \<open>
  \<open>send_key\<close> draws the session key and the XOR key and writes the packet: its length, the id
  0xffff and the packed keys, encrypted under \<open>DEFAULT_ECB\<close>. The argument \<open>buf_len\<close> is not
  used. The result is the returned length, the crypt state, the buffer and the generator.
\<close>

definition send_key :: "'r rand \<Rightarrow> byte list list \<Rightarrow> about_crypt \<Rightarrow> byte list \<Rightarrow> u32 \<Rightarrow> 'r
    \<Rightarrow> (u32 \<times> about_crypt \<times> byte list \<times> 'r) result" where
  "send_key rand keys ac buf buf_len r =
     (let (v, r1) = rand r; (row, r2) = rand_xor_key rand keys r1 in
      chain (memcpy (ac_xor_key ac) 0 row 0 XOR_KEY_LEN) (\<lambda>xor1.
      chain (store_u8 xor1 XOR_KEY_LEN 0) (\<lambda>xor2.
      chain (store_u8 (ac_swap_key ac) SWAP_KEY_LEN 0) (\<lambda>swap.
      let ac' = \<lparr>ac_sequence_id = 0, ac_session_key = of_nat v, ac_xor_key = xor2, ac_swap_key = swap\<rparr> in
      chain (mem_read (ac_xor_key ac') 0 (XOR_KEY_LEN + 1)) (\<lambda>sx.
      chain (mem_read (ac_swap_key ac') 0 (SWAP_KEY_LEN + 1)) (\<lambda>ss.
      let sk = \<lparr>sk_session_key = ac_session_key ac', sk_xor_key = sx, sk_swap_key = ss\<rparr> in
      chain (store_u16 buf 0 (of_nat sizeof_secret_key)) (\<lambda>buf1.
      chain (store_u16 buf1 2 0xffff) (\<lambda>buf2.
      chain (memcpy buf2 4 (secret_key_bytes sk) 0 sizeof_secret_key) (\<lambda>buf3.
      chain (ecb_crypt DEFAULT_ECB buf3 0 (4 + of_nat sizeof_secret_key) DES_ENCRYPT) (\<lambda>(_, buf4).
      Inr (4 + of_nat sizeof_secret_key + 2, ac', buf4, r2)))))))))))"

section \<open>Outgoing messages\<close>

text \<open>\<open>len:id:size:data\<close>: the length field is skipped, never written, and not encrypted.\<close>

definition transform_message_to_buffer ::
  "about_crypt \<Rightarrow> net_message \<Rightarrow> byte list \<Rightarrow> nat \<Rightarrow> u32 \<Rightarrow> (u32 \<times> byte list) result" where
  "transform_message_to_buffer ac nm buf off buf_len =
     (let data_size = ucast (get_real_size nm) :: u32 in
      if buf_len < 3 * 2 + data_size then Inr (0, buf)
      else
        chain (store_u16 buf (off + 2) (get_id nm)) (\<lambda>buf1.
        chain (store_u16 buf1 (off + 4) (ucast data_size)) (\<lambda>buf2.
        chain (memcpy buf2 (off + 6) (get_data nm) 0 (unat data_size)) (\<lambda>buf3.
        let len = 6 + data_size in
        chain (xor_crypt buf3 (off + 2) (len - 2) (ac_xor_key ac)) (\<lambda>(_, buf4).
        Inr (len, buf4))))))"

section \<open>Incoming messages\<close>

text \<open>
  The buffer is decrypted in place and its checksum tested; the sequence number must be the
  one expected. Every path returns 0, and the message object is never touched.
\<close>

definition transform_buffer_to_message ::
  "u32 list \<Rightarrow> about_crypt \<Rightarrow> net_message \<Rightarrow> byte list \<Rightarrow> nat \<Rightarrow> u32
     \<Rightarrow> (u32 \<times> about_crypt \<times> net_message \<times> byte list) result" where
  "transform_buffer_to_message tab ac nm buf off msg_len =
     chain (xor_decrypt buf (off + 2) msg_len (ac_xor_key ac)) (\<lambda>(_, buf1).
     chain (check_crc32 tab buf1 off (2 + msg_len)) (\<lambda>ok.
     if ok = 0 then Inr (0, ac, nm, buf1)
     else
       chain (load_u32 buf1 (off + 2)) (\<lambda>sequence_id.
       if sequence_id XOR ac_session_key ac \<noteq> ac_sequence_id ac then Inr (0, ac, nm, buf1)
       else Inr (0, ac\<lparr>ac_sequence_id := ac_sequence_id ac + 1\<rparr>, nm, buf1))))"

section \<open>The key packet can be read back\<close>

lemma length_secret_key_bytes [simp]:
  "length (secret_key_bytes sk) = 4 + length (sk_xor_key sk) + length (sk_swap_key sk)"
  by (simp add: secret_key_bytes_def)

definition key_packet :: "about_crypt \<Rightarrow> byte list" where
  "key_packet ac = [26, 0, 0xff, 0xff] @ le_bytes 4 (ac_session_key ac) @ ac_xor_key ac @ ac_swap_key ac"

lemma length_key_packet: "ac_wf ac \<Longrightarrow> length (key_packet ac) = 30"
  by (simp add: key_packet_def ac_wf_def XOR_KEY_LEN_def SWAP_KEY_LEN_def)

lemma le_bytes_2: "le_bytes 2 w = [ucast w, ucast (drop_bit 8 w)]"
  by (simp add: numeral_2_eq_2)

lemma packet_stores:
  assumes "32 \<le> length buf" and "ac_wf ac"
  obtains buf1 buf2 where "store_u16 buf 0 (of_nat sizeof_secret_key) = Inr buf1"
    and "store_u16 buf1 2 0xffff = Inr buf2"
    and "memcpy buf2 4 (secret_key_bytes \<lparr>sk_session_key = ac_session_key ac, sk_xor_key = ac_xor_key ac,
        sk_swap_key = ac_swap_key ac\<rparr>) 0 sizeof_secret_key = Inr (key_packet ac @ drop 30 buf)"
proof -
  let ?sk = "secret_key_bytes \<lparr>sk_session_key = ac_session_key ac, sk_xor_key = ac_xor_key ac,
        sk_swap_key = ac_swap_key ac\<rparr>"
  have l: "length ?sk = 26" using assms(2) by (simp add: ac_wf_def XOR_KEY_LEN_def SWAP_KEY_LEN_def)
  have n: "sizeof_secret_key = 26" by (simp add: sizeof_secret_key_def XOR_KEY_LEN_def SWAP_KEY_LEN_def)
  have b: "le_bytes 2 (26 :: u16) = [26, 0]" "le_bytes 2 (0xffff :: u16) = [0xff, 0xff]"
    by (simp_all add: le_bytes_2)
  let ?b1 = "overwrite buf 0 [26, 0]" and ?b2 = "overwrite buf 0 [26, 0, 0xff, 0xff]"
  have l2: "length ?b2 = length buf" using assms(1) by (intro length_overwrite) simp
  have s1: "store_u16 buf 0 (of_nat sizeof_secret_key) = Inr ?b1"
    using assms(1) by (simp add: n store_ok b)
  have "overwrite ?b1 2 [0xff, 0xff] = ?b2"
    using overwrite_append [of "[26, 0]" "[0xff, 0xff]" buf 0] assms(1) by (simp add: numeral_2_eq_2)
  then have s2: "store_u16 ?b1 2 0xffff = Inr ?b2"
    using assms(1) by (simp add: store_ok b)
  have "memcpy ?b2 4 ?sk 0 26 = Inr (overwrite ?b2 4 ?sk)"
    using memcpy_ok [where dst = ?b2 and doff = 4 and src = ?sk and soff = 0 and n = 26] assms(1) l l2
    by (simp del: length_secret_key_bytes)
  also have "overwrite ?b2 4 ?sk = overwrite buf 0 ([26, 0, 0xff, 0xff] @ ?sk)"
    using overwrite_append [of "[26, 0, 0xff, 0xff]" ?sk buf 0] assms(1) l by (simp add: eval_nat_numeral)
  also have "[26, 0, 0xff, 0xff] @ ?sk = key_packet ac" by (simp add: key_packet_def secret_key_bytes_def)
  also have "overwrite buf 0 (key_packet ac) = key_packet ac @ drop 30 buf"
    by (simp only: overwrite_0 length_key_packet [OF assms(2)])
  finally show ?thesis by (intro that [OF s1 s2]) (simp only: n)
qed

text \<open>The stores that put a row of the key table into the crypt state: the row ends up there whole.\<close>

lemma key_stores:
  assumes ac: "ac_wf ac" and row: "key_row_ok row"
  defines "swap \<equiv> (ac_swap_key ac)[4 := 0]"
  shows "memcpy (ac_xor_key ac) 0 row 0 XOR_KEY_LEN = Inr (overwrite (ac_xor_key ac) 0 (take 16 row))"
    and "store_u8 (overwrite (ac_xor_key ac) 0 (take 16 row)) XOR_KEY_LEN 0 = Inr row"
    and "store_u8 (ac_swap_key ac) SWAP_KEY_LEN 0 = Inr swap"
    and "mem_read row 0 (XOR_KEY_LEN + 1) = Inr row" and "mem_read swap 0 (SWAP_KEY_LEN + 1) = Inr swap"
    and "ac_wf \<lparr>ac_sequence_id = 0, ac_session_key = v, ac_xor_key = row, ac_swap_key = swap\<rparr>"
proof -
  have "length row = 17" "last row = 0" using row by (auto simp: key_row_ok_def XOR_KEY_LEN_def)
  moreover from this have "row \<noteq> []" by auto
  ultimately have row_ok: "length row = 17" "row ! 16 = 0" by (simp_all add: last_conv_nth)
  have l: "length (ac_xor_key ac) = 17" "length (ac_swap_key ac) = 5"
    using ac by (simp_all add: ac_wf_def XOR_KEY_LEN_def SWAP_KEY_LEN_def)
  have "row = take 16 row @ [0]" using row_ok take_Suc_conv_app_nth [of 16 row] by simp
  moreover have "(overwrite (ac_xor_key ac) 0 (take 16 row))[16 := 0] = take 16 row @ [0]"
    using row_ok l by (simp add: overwrite_0 list_update_append Suc_diff_Suc flip: Cons_nth_drop_Suc)
  ultimately have x: "(overwrite (ac_xor_key ac) 0 (take 16 row))[16 := 0] = row" by simp
  show "memcpy (ac_xor_key ac) 0 row 0 XOR_KEY_LEN = Inr (overwrite (ac_xor_key ac) 0 (take 16 row))"
    and "store_u8 (overwrite (ac_xor_key ac) 0 (take 16 row)) XOR_KEY_LEN 0 = Inr row"
    and "store_u8 (ac_swap_key ac) SWAP_KEY_LEN 0 = Inr swap"
    and "mem_read row 0 (XOR_KEY_LEN + 1) = Inr row" and "mem_read swap 0 (SWAP_KEY_LEN + 1) = Inr swap"
    and "ac_wf \<lparr>ac_sequence_id = 0, ac_session_key = v, ac_xor_key = row, ac_swap_key = swap\<rparr>"
    using row_ok l x by (simp_all add: mem_simps XOR_KEY_LEN_def SWAP_KEY_LEN_def swap_def ac_wf_def)
qed

text \<open>The packet in the buffer is encrypted up to the end of its last block.\<close>

lemma packet_encrypted:
  assumes "ac_wf ac" and "32 \<le> length buf"
  obtains buf' where "ecb_crypt DEFAULT_ECB (key_packet ac @ drop 30 buf) 0 30 DES_ENCRYPT = Inr (DESERR_NOHWDEVICE, buf')"
    and "ecb_crypt DEFAULT_ECB buf' 0 30 DES_DECRYPT = Inr (DESERR_NOHWDEVICE, key_packet ac @ drop 30 buf)"
    and "length buf' = length buf" and "drop 32 buf' = drop 32 buf"
proof -
  define pkt where "pkt = key_packet ac @ drop 30 buf"
  have bc: "block_count 30 = 4" by (simp add: block_count_eq)
  have lp: "length pkt = length buf" "drop 32 pkt = drop 32 buf" using assms(2) length_key_packet [OF assms(1)] by (simp_all add: pkt_def)
  obtain buf' where e: "ecb_crypt DEFAULT_ECB pkt 0 30 DES_ENCRYPT = Inr (DESERR_NOHWDEVICE, buf')"
    and d: "ecb_crypt DEFAULT_ECB buf' 0 30 DES_DECRYPT = Inr (DESERR_NOHWDEVICE, pkt)"
    and l: "length buf' = length buf" and r: "drop 32 buf' = drop 32 pkt"
    using ecb_crypt_inverse [of DEFAULT_ECB 0 30 pkt DES_ENCRYPT DES_DECRYPT] assms(2)
    unfolding bc lp(1) by (auto simp: DEFAULT_ECB_def mode_defs)
  show ?thesis by (rule that [OF e [unfolded pkt_def] d [unfolded pkt_def] l r [unfolded lp(2)]])
qed

lemma send_key_spec:
  assumes "ac_wf ac" and "32 \<le> length buf"
    and keys: "length keys = MAX_XOR_NUM" "\<forall>row \<in> set keys. key_row_ok row"
  obtains ac' buf' r' where "send_key rand keys ac buf n r = Inr (32, ac', buf', r')"
    and "ac_wf ac'" and "ac_sequence_id ac' = 0" and "ac_xor_key ac' \<in> set keys"
    and "take SWAP_KEY_LEN (ac_swap_key ac') = take SWAP_KEY_LEN (ac_swap_key ac)"
    and "ecb_crypt DEFAULT_ECB buf' 0 30 DES_DECRYPT = Inr (DESERR_NOHWDEVICE, key_packet ac' @ drop 30 buf)"
    and "length buf' = length buf" and "drop 32 buf' = drop 32 buf"
proof -
  obtain v r1 where v: "rand r = (v, r1)" by (cases "rand r")
  obtain row r2 where row: "rand_xor_key rand keys r1 = (row, r2)" by (cases "rand_xor_key rand keys r1")
  have mem: "row \<in> set keys"
    using row keys(1) by (auto simp: rand_xor_key_def MAX_XOR_NUM_def split: prod.splits intro!: nth_mem)
  let ?swap = "(ac_swap_key ac)[4 := 0]"
  define ac' where "ac' = \<lparr>ac_sequence_id = 0, ac_session_key = of_nat v, ac_xor_key = row, ac_swap_key = ?swap\<rparr>"
  have "key_row_ok row" using keys(2) mem by blast
  note f = key_stores [OF assms(1) this]
  have wf': "ac_wf ac'" unfolding ac'_def by (rule f(6))
  obtain buf1 buf2 where st: "store_u16 buf 0 (of_nat sizeof_secret_key) = Inr buf1"
    "store_u16 buf1 2 0xffff = Inr buf2"
    "memcpy buf2 4 (secret_key_bytes \<lparr>sk_session_key = ac_session_key ac', sk_xor_key = ac_xor_key ac',
        sk_swap_key = ac_swap_key ac'\<rparr>) 0 sizeof_secret_key = Inr (key_packet ac' @ drop 30 buf)"
    using assms(2) wf' by (rule packet_stores)
  obtain buf' where e: "ecb_crypt DEFAULT_ECB (key_packet ac' @ drop 30 buf) 0 30 DES_ENCRYPT = Inr (DESERR_NOHWDEVICE, buf')"
    and d: "ecb_crypt DEFAULT_ECB buf' 0 30 DES_DECRYPT = Inr (DESERR_NOHWDEVICE, key_packet ac' @ drop 30 buf)"
    and lb: "length buf' = length buf" "drop 32 buf' = drop 32 buf"
    using wf' assms(2) by (rule packet_encrypted)
  have n: "4 + of_nat sizeof_secret_key = (30 :: u32)"
    by (simp add: sizeof_secret_key_def XOR_KEY_LEN_def SWAP_KEY_LEN_def)
  have send: "send_key rand keys ac buf n r = Inr (32, ac', buf', r2)"
    unfolding send_key_def Let_def v prod.case row f(1-5) chain_simps about_crypt.select_convs
    using st e unfolding ac'_def n about_crypt.select_convs by simp
  have "take SWAP_KEY_LEN (ac_swap_key ac') = take SWAP_KEY_LEN (ac_swap_key ac)"
    by (simp add: ac'_def SWAP_KEY_LEN_def)
  with send wf' d lb mem show ?thesis by (intro that [of ac' buf' r2]) (simp_all add: ac'_def)
qed

section \<open>An outgoing message\<close>

definition message_plain :: "net_message \<Rightarrow> byte list" where
  "message_plain nm = le_bytes 2 (nm_id nm) @ le_bytes 2 (nm_real_size nm) @
     take (unat (nm_real_size nm)) (nm_buffer nm)"

lemma length_message_plain:
  "unat (nm_real_size nm) \<le> length (nm_buffer nm) \<Longrightarrow>
   length (message_plain nm) = 4 + unat (nm_real_size nm)"
  by (simp add: message_plain_def)

lemma unat_message_size:
  "unat (6 + ucast (s :: u16) :: u32) = 6 + unat s"
  "unat (6 + ucast (s :: u16) - 2 :: u32) = 4 + unat s"
proof -
  have "unat s < 2 ^ 16" using unsigned_less [of s, where ?'a = nat] by simp
  then have "6 + unat s < 2 ^ 32" "4 + unat s < 2 ^ 32" by simp_all
  then show "unat (6 + ucast s :: u32) = 6 + unat s" "unat (6 + ucast s - 2 :: u32) = 4 + unat s"
    by (simp_all add: unat_word_ariths unsigned_ucast_eq take_bit_nat_eq_self diff_add_eq [symmetric])
qed

lemma ucast_u32_u16: "ucast (ucast s :: u32) = (s :: u16)"
  by (rule bit_word_eqI) (auto simp: bit_simps)

lemma transform_out_spec:
  assumes ac: "ac_wf ac" and size: "unat (nm_real_size nm) \<le> length (nm_buffer nm)"
    and room: "off + 6 + unat (nm_real_size nm) \<le> length buf" and fits: "6 + unat (nm_real_size nm) \<le> unat buf_len"
  shows "transform_message_to_buffer ac nm buf off buf_len =
    Inr (6 + ucast (nm_real_size nm), overwrite buf (off + 2) (xor_stream (ac_xor_key ac) (message_plain nm)))"
proof -
  let ?n = "unat (nm_real_size nm)" and ?p = "message_plain nm"
  let ?a = "le_bytes 2 (nm_id nm)" and ?b = "le_bytes 2 (nm_real_size nm)" and ?d = "take ?n (nm_buffer nm)"
  have small: "?n < 2 ^ 32" using unsigned_less [of "nm_real_size nm", where ?'a = nat] by simp
  have u: "unat (ucast (nm_real_size nm) :: u32) = ?n"
    using small by (simp add: unsigned_ucast_eq take_bit_nat_eq_self)
  have guard: "\<not> buf_len < 3 * 2 + ucast (nm_real_size nm)"
    using fits unat_message_size(1) [of "nm_real_size nm"] by (simp add: word_less_nat_alt)
  let ?b1 = "overwrite buf (off + 2) ?a" and ?b2 = "overwrite buf (off + 2) (?a @ ?b)"
  let ?b3 = "overwrite buf (off + 2) ?p"
  have l: "length ?b1 = length buf" "length ?b2 = length buf" "length ?b3 = length buf"
    using room length_message_plain [OF size] by (simp_all add: length_overwrite)
  have s1: "store_u16 buf (off + 2) (get_id nm) = Inr ?b1"
    using room by (simp add: store_ok get_id_def)
  have "overwrite ?b1 (off + 4) ?b = ?b2"
    using room by (intro overwrite_next) simp_all
  then have s2: "store_u16 ?b1 (off + 4) (ucast (ucast (nm_real_size nm) :: u32)) = Inr ?b2"
    using room l by (simp add: store_ok ucast_u32_u16)
  have "overwrite ?b2 (off + 6) ?d = ?b3"
    using overwrite_next [of "off + 6" "off + 2" "?a @ ?b" ?d buf] room size by (simp add: message_plain_def)
  then have s3: "memcpy ?b2 (off + 6) (get_data nm) 0 ?n = Inr ?b3"
    using room size l by (simp add: mem_simps get_data_def)
  have td: "take (4 + ?n) (drop (off + 2) ?b3) = ?p"
    using room length_message_plain [OF size] by (simp add: overwrite_def)
  have "xor_crypt ?b3 (off + 2) (6 + ucast (nm_real_size nm) - 2) (ac_xor_key ac) =
      Inr (1, overwrite ?b3 (off + 2) (xor_stream (ac_xor_key ac) ?p))"
    using xor_crypt_eq [of "off + 2" "6 + ucast (nm_real_size nm) - 2" ?b3 "ac_xor_key ac"]
      room l ac unfolding unat_message_size td by (simp add: ac_wf_def XOR_KEY_LEN_def)
  also have "overwrite ?b3 (off + 2) (xor_stream (ac_xor_key ac) ?p) =
      overwrite buf (off + 2) (xor_stream (ac_xor_key ac) ?p)"
    using room length_message_plain [OF size] by (intro overwrite_overwrite_same) simp_all
  finally have x: "xor_crypt ?b3 (off + 2) (6 + ucast (nm_real_size nm) - 2) (ac_xor_key ac) =
      Inr (1, overwrite buf (off + 2) (xor_stream (ac_xor_key ac) ?p))" .
  show ?thesis
    unfolding transform_message_to_buffer_def Let_def get_real_size_def
    using guard x by (simp only: if_False s1 s2 chain_simps u s3 prod.case)
qed

lemma transform_out_refused:
  "unat buf_len < 6 + unat (nm_real_size nm) \<Longrightarrow> transform_message_to_buffer ac nm buf off buf_len = Inr (0, buf)"
  using unat_message_size(1) [of "nm_real_size nm"]
  by (simp add: transform_message_to_buffer_def get_real_size_def word_less_nat_alt)

section \<open>An incoming frame\<close>

text \<open>
  The plain text of a frame whose first two bytes are the unencrypted length, and when it is
  accepted: the last four bytes are the checksum of the ones before, and the bytes 2 to 5 are the
  expected sequence number under the session key.
\<close>

definition frame_plain :: "byte list \<Rightarrow> byte list \<Rightarrow> byte list" where
  "frame_plain key frame = take 2 frame @ xor_stream key (drop 2 frame)"

definition frame_checks :: "byte list \<Rightarrow> byte list \<Rightarrow> bool" where
  "frame_checks key frame \<longleftrightarrow>
     (let p = frame_plain key frame; n = length p - 4 in le_word (drop n p) = crc32 (take n p))"

definition frame_accepted :: "about_crypt \<Rightarrow> byte list \<Rightarrow> bool" where
  "frame_accepted ac frame \<longleftrightarrow> frame_checks (ac_xor_key ac) frame \<and>
     le_word (take 4 (drop 2 (frame_plain (ac_xor_key ac) frame))) XOR ac_session_key ac = ac_sequence_id ac"

lemma length_frame_plain [simp]: "length (frame_plain key frame) = length frame"
  by (simp add: frame_plain_def)

lemma transform_in_spec:
  assumes key: "16 \<le> length (ac_xor_key ac)" and room: "off + 2 + unat msg_len \<le> length buf"
    and len: "4 \<le> unat msg_len" "unat msg_len + 2 < 2 ^ 32"
  defines "frame \<equiv> take (2 + unat msg_len) (drop off buf)"
  shows "transform_buffer_to_message crc_table ac nm buf off msg_len =
    Inr (0, if frame_accepted ac frame then ac\<lparr>ac_sequence_id := ac_sequence_id ac + 1\<rparr> else ac, nm,
      overwrite buf off (frame_plain (ac_xor_key ac) frame))"
proof -
  let ?k = "ac_xor_key ac" and ?m = "unat msg_len"
  let ?p = "frame_plain ?k frame" and ?c = "xor_stream ?k (take ?m (drop (off + 2) buf))"
  let ?b = "overwrite buf off ?p"
  have lf: "length frame = 2 + ?m" using room by (simp add: frame_def)
  have p: "?p = take 2 (drop off buf) @ ?c"
    by (simp add: frame_plain_def frame_def drop_take add.commute min_def)
  have "overwrite buf (off + 2) ?c = ?b"
  proof -
    have "overwrite (overwrite buf off (take 2 (drop off buf))) (off + 2) ?c = overwrite buf off (take 2 (drop off buf) @ ?c)"
      using room by (intro overwrite_next) simp_all
    then show ?thesis by (simp only: overwrite_self p)
  qed
  then have x: "xor_decrypt buf (off + 2) msg_len ?k = Inr (1, ?b)"
    using xor_crypt_eq [of "off + 2" msg_len buf ?k] room key by (simp add: xor_decrypt_def)
  have lb: "length ?b = length buf" using room lf by (intro length_overwrite) simp
  have tb: "take (2 + ?m) (drop off ?b) = ?p" using room lf by (simp add: overwrite_def)
  have u: "unat (2 + msg_len) = 2 + ?m" using len(2) by (simp add: unat_word_ariths)
  have "take (?m - 2) (drop off ?b) = take (?m - 2) ?p" "take 4 (drop (off + (?m - 2)) ?b) = drop (?m - 2) ?p"
    "take 4 (drop (off + 2) ?b) = take 4 (drop 2 ?p)"
    using room lf len(1) by (simp_all add: overwrite_def)
  note td = this
  have m: "2 + ?m - 4 = ?m - 2" by simp
  have c: "check_crc32 crc_table ?b off (2 + msg_len) = Inr (if frame_checks ?k frame then 1 else 0)"
    using check_crc32_eq [of "2 + msg_len" off ?b] room len lb
    unfolding u m td frame_checks_def Let_def length_frame_plain lf by simp
  have s: "load_u32 ?b (off + 2) = Inr (le_word (take 4 (drop 2 ?p)))"
    using room len(1) lb td(3) by (simp add: load_ok)
  show ?thesis
    unfolding transform_buffer_to_message_def x chain_simps prod.case c s
    by (simp add: frame_accepted_def)
qed

section \<open>Altered frames\<close>

text \<open>Decryption adds a mask that depends on the position and on the length of the frame only.\<close>

definition frame_mask :: "byte list \<Rightarrow> nat \<Rightarrow> nat \<Rightarrow> byte" where
  "frame_mask key len j = (if j < 2 then 0 else key ! key_index (len - 2) (j - 2))"

lemma nth_frame_plain:
  "j < length frame \<Longrightarrow> frame_plain key frame ! j = frame ! j XOR frame_mask key (length frame) j"
  using le_add_diff_inverse [of 2 j]
  by (cases "j < 2") (simp_all add: frame_plain_def frame_mask_def nth_append xor_stream_def min_def)

lemma frame_plain_overwrite:
  assumes "i + length bs \<le> length frame"
    and ds_def: "ds = map (\<lambda>j. bs ! j XOR frame_mask key (length frame) (i + j)) [0..<length bs]"
  shows "frame_plain key (overwrite frame i bs) = overwrite (frame_plain key frame) i ds"
proof (rule nth_equalityI)
  show "length (frame_plain key (overwrite frame i bs)) = length (overwrite (frame_plain key frame) i ds)"
    using assms by (simp add: length_overwrite)
  fix j assume "j < length (frame_plain key (overwrite frame i bs))"
  then show "frame_plain key (overwrite frame i bs) ! j = overwrite (frame_plain key frame) i ds ! j"
    using assms(1) by (auto simp: nth_frame_plain nth_overwrite ds_def)
qed

lemma frame_plain_changed:
  assumes "i + length bs \<le> length frame" and "bs \<noteq> take (length bs) (drop i frame)"
    and ds_def: "ds = map (\<lambda>j. bs ! j XOR frame_mask key (length frame) (i + j)) [0..<length bs]"
  shows "ds \<noteq> take (length bs) (drop i (frame_plain key frame))"
proof
  let ?p = "frame_plain key frame" and ?m = "\<lambda>j. frame_mask key (length frame) (i + j)"
  assume eq: "ds = take (length bs) (drop i ?p)"
  have "bs ! j = frame ! (i + j)" if "j < length bs" for j
  proof -
    have "ds ! j = ?p ! (i + j)" using that eq assms(1) by simp
    moreover have "?p ! (i + j) = frame ! (i + j) XOR ?m j"
      using that assms(1) by (intro nth_frame_plain) simp
    ultimately have "bs ! j XOR ?m j = frame ! (i + j) XOR ?m j" using that by (simp add: ds_def)
    then have "(bs ! j XOR ?m j) XOR ?m j = (frame ! (i + j) XOR ?m j) XOR ?m j" by simp
    then show ?thesis unfolding xor.assoc xor_self_eq xor.right_neutral .
  qed
  then have "bs = take (length bs) (drop i frame)" using assms(1) by (intro nth_equalityI) simp_all
  with assms(2) show False by simp
qed

lemma frame_checks_burst:
  assumes checks: "frame_checks key frame"
    and bs: "length bs \<le> 4" "i + length bs \<le> length frame - 4" "4 \<le> length frame"
    and ne: "bs \<noteq> take (length bs) (drop i frame)"
  shows "\<not> frame_checks key (overwrite frame i bs)"
proof -
  let ?p = "frame_plain key frame" and ?n = "length frame - 4"
  define ds where "ds = map (\<lambda>j. bs ! j XOR frame_mask key (length frame) (i + j)) [0..<length bs]"
  have p': "frame_plain key (overwrite frame i bs) = overwrite ?p i ds"
    using bs by (intro frame_plain_overwrite [OF _ ds_def]) simp
  have ld: "length ds = length bs" by (simp add: ds_def)
  let ?old = "take (length bs) (drop i ?p)" and ?pre = "take i ?p"
    and ?post = "take (?n - (i + length bs)) (drop (i + length bs) ?p)"
  have lo: "length ?old = length bs" using bs by simp
  have "ds \<noteq> ?old" using bs ne by (intro frame_plain_changed [OF _ _ ds_def]) simp_all
  then have "crc32 (?pre @ ds @ ?post) \<noteq> crc32 (?pre @ ?old @ ?post)"
    using ld lo bs(1) by (intro crc32_burst) simp_all
  moreover have "?pre @ ?old @ ?post = take ?n ?p"
  proof -
    have "?pre @ ?old = take (i + length bs) ?p" by (simp only: take_add)
    then have "?pre @ ?old @ ?post = take (i + length bs) ?p @ ?post" by (metis append_assoc)
    also have "\<dots> = take (i + length bs + (?n - (i + length bs))) ?p" by (simp only: take_add)
    also have "i + length bs + (?n - (i + length bs)) = ?n" by (rule le_add_diff_inverse [OF bs(2)])
    finally show ?thesis .
  qed
  moreover have "take ?n (overwrite ?p i ds) = ?pre @ ds @ ?post" "drop ?n (overwrite ?p i ds) = drop ?n ?p"
    using bs ld by (simp_all add: overwrite_def add.assoc)
  moreover have "length (overwrite ?p i ds) = length frame" using bs ld by (subst length_overwrite) simp_all
  moreover have "le_word (drop ?n ?p) = crc32 (take ?n ?p)"
    using checks by (simp add: frame_checks_def Let_def)
  ultimately show ?thesis by (simp add: frame_checks_def Let_def p')
qed

text \<open>The checksum bytes alone: what they are compared with stays the same.\<close>

lemma frame_checks_sum:
  assumes checks: "frame_checks key frame"
    and bs: "length frame - 4 \<le> i" "i + length bs \<le> length frame" "4 \<le> length frame"
    and ne: "bs \<noteq> take (length bs) (drop i frame)"
  shows "\<not> frame_checks key (overwrite frame i bs)"
proof
  let ?p = "frame_plain key frame" and ?n = "length frame - 4"
  define ds where "ds = map (\<lambda>j. bs ! j XOR frame_mask key (length frame) (i + j)) [0..<length bs]"
  define q where "q = overwrite ?p i ds"
  assume altered: "frame_checks key (overwrite frame i bs)"
  have p': "frame_plain key (overwrite frame i bs) = q"
    using bs unfolding q_def by (intro frame_plain_overwrite [OF _ ds_def]) simp
  have ld: "length ds = length bs" by (simp add: ds_def)
  have lq: "length q = length frame" using bs ld unfolding q_def by (subst length_overwrite) simp_all
  have t: "take ?n q = take ?n ?p" using bs by (simp add: q_def overwrite_def)
  have "le_word (drop ?n q) = (le_word (drop ?n ?p) :: u32)"
    using checks altered by (simp add: frame_checks_def Let_def p' lq t)
  moreover have "le_bytes 4 (le_word (drop ?n r) :: u32) = drop ?n r" if "length r = length frame" for r :: "byte list"
    using le_bytes_le_word [of "drop ?n r", where ?'a = 32] that bs(3) by simp
  ultimately have "drop ?n q = drop ?n ?p" using lq by (metis length_frame_plain)
  with t have "q = ?p" by (metis append_take_drop_id)
  moreover have "take (length bs) (drop i q) = ds" using bs ld by (simp add: q_def overwrite_def)
  moreover have "ds \<noteq> take (length bs) (drop i ?p)" by (rule frame_plain_changed [OF bs(2) ne ds_def])
  ultimately show False by simp
qed

section \<open>Faults of an incoming frame\<close>

lemma transform_in_Inl:
  "transform_buffer_to_message tab ac nm buf off msg_len = Inl e \<Longrightarrow> e = Out_Of_Bounds"
  by (auto simp: transform_buffer_to_message_def xor_decrypt_def chain_eq_Inl split: if_splits
      dest: xor_crypt_Inl check_crc32_Inl load_Inl)

lemma transform_in_Inr:
  assumes "transform_buffer_to_message tab ac nm buf off msg_len = Inr (n, ac', nm', buf')"
  shows "length buf' = length buf" and "ac_wf ac \<Longrightarrow> ac_wf ac'" and "nm' = nm"
    and "0 < unat msg_len \<Longrightarrow> off + 2 + unat msg_len \<le> length buf"
    and "ac_session_key ac' = ac_session_key ac"
    and "ac' = ac \<or> ac' = ac\<lparr>ac_sequence_id := ac_sequence_id ac + 1\<rparr>"
proof -
  obtain v where x: "xor_crypt buf (off + 2) msg_len (ac_xor_key ac) = Inr (v, buf')"
    and ac': "ac' = ac \<or> ac' = ac\<lparr>ac_sequence_id := ac_sequence_id ac + 1\<rparr>" and nm: "nm' = nm"
    using assms by (auto simp: transform_buffer_to_message_def xor_decrypt_def chain_eq_Inr split: if_splits)
  show "length buf' = length buf" by (rule xor_crypt_Inr(1) [OF x])
  show "ac_wf ac \<Longrightarrow> ac_wf ac'" "ac_session_key ac' = ac_session_key ac" using ac' by (auto simp: ac_wf_def)
  show "ac' = ac \<or> ac' = ac\<lparr>ac_sequence_id := ac_sequence_id ac + 1\<rparr>" by (rule ac')
  show "nm' = nm" by (rule nm)
  show "0 < unat msg_len \<Longrightarrow> off + 2 + unat msg_len \<le> length buf" by (rule xor_crypt_Inr(2) [OF x])
qed

lemma transform_in_short:
  assumes "unat msg_len < 2" and "length buf < 2 ^ 31"
  shows "transform_buffer_to_message tab ac nm buf off msg_len = Inl Out_Of_Bounds"
proof (cases "xor_crypt buf (off + 2) msg_len (ac_xor_key ac)")
  case (Inl e)
  then show ?thesis using xor_crypt_Inl [OF Inl] by (simp add: transform_buffer_to_message_def xor_decrypt_def)
next
  case (Inr r)
  obtain v buf1 where r: "r = (v, buf1)" by (cases r)
  have "length buf1 = length buf" using xor_crypt_Inr(1) Inr r by blast
  moreover have "unat (2 + msg_len) < 4" using assms(1) by (simp add: unat_word_ariths)
  ultimately have "check_crc32 tab buf1 off (2 + msg_len) = Inl Out_Of_Bounds"
    using assms(2) by (intro check_crc32_underflow) simp_all
  then show ?thesis by (simp only: transform_buffer_to_message_def xor_decrypt_def Inr r chain_simps prod.case)
qed

lemma transform_in_beyond:
  assumes "0 < unat msg_len" and "length buf < off + 2 + unat msg_len"
  shows "transform_buffer_to_message tab ac nm buf off msg_len = Inl Out_Of_Bounds"
proof (cases "transform_buffer_to_message tab ac nm buf off msg_len")
  case (Inl e)
  then show ?thesis using transform_in_Inl [OF Inl] by simp
next
  case (Inr r)
  obtain n ac' nm' buf' where "r = (n, ac', nm', buf')" by (cases r)
  with Inr transform_in_Inr(4) [of tab ac nm buf off msg_len n ac' nm' buf'] assms show ?thesis by simp
qed

section \<open>What the protocol promises\<close>

definition example_crypt :: about_crypt where
  "example_crypt = \<lparr>ac_sequence_id = 5, ac_session_key = 0x01020304,
     ac_xor_key = [1, 2, 3, 4, 5, 6, 7, 8, 9, 10, 11, 12, 13, 14, 15, 16, 0], ac_swap_key = [0, 0, 0, 0, 0]\<rparr>"

lemma example_crypt_wf [simp]: "ac_wf example_crypt"
  by (simp add: example_crypt_def ac_wf_def XOR_KEY_LEN_def SWAP_KEY_LEN_def)

text \<open>C13. The key packet: \<open>send_key\<close> starts the sequence at 0, takes a row of the key table and fills 32 bytes
  which, decrypted under \<open>DEFAULT_ECB\<close>, are the length, the id 0xffff and the very keys the server keeps; the
  two bytes that fill the last block come from the uninitialised buffer, as do the four swap-key bytes.\<close>

theorem key_packet_readable:
  assumes "ac_wf ac" and "32 \<le> length buf"
  shows "case initial_xor_keys rand r0 of (keys, r) \<Rightarrow>
    \<exists>ac' buf' r'. send_key rand keys ac buf n r = Inr (32, ac', buf', r') \<and>
      ecb_crypt DEFAULT_ECB buf' 0 30 DES_DECRYPT = Inr (DESERR_NOHWDEVICE, key_packet ac' @ drop 30 buf) \<and>
      ac_wf ac' \<and> ac_sequence_id ac' = 0 \<and> ac_xor_key ac' \<in> set keys \<and>
      take SWAP_KEY_LEN (ac_swap_key ac') = take SWAP_KEY_LEN (ac_swap_key ac)"
proof -
  obtain keys r where i: "initial_xor_keys rand r0 = (keys, r)" by (cases "initial_xor_keys rand r0")
  have keys: "length keys = MAX_XOR_NUM" "\<forall>row \<in> set keys. key_row_ok row"
    using xor_key_rows_ok [of rand MAX_XOR_NUM r0] i by (simp_all add: initial_xor_keys_def)
  obtain ac' buf' r' where "send_key rand keys ac buf n r = Inr (32, ac', buf', r')"
    "ac_wf ac'" "ac_sequence_id ac' = 0" "ac_xor_key ac' \<in> set keys"
    "take SWAP_KEY_LEN (ac_swap_key ac') = take SWAP_KEY_LEN (ac_swap_key ac)"
    "ecb_crypt DEFAULT_ECB buf' 0 30 DES_DECRYPT = Inr (DESERR_NOHWDEVICE, key_packet ac' @ drop 30 buf)"
    by (rule send_key_spec [OF assms keys])
  then show ?thesis unfolding i prod.case by blast
qed

theorem key_packet_readable_witness:
  "case initial_xor_keys (\<lambda>n. (n * 7 mod 32768, n + 1)) 3 of (keys, r) \<Rightarrow>
    \<exists>ac' buf' r'. send_key (\<lambda>n. (n * 7 mod 32768, n + 1)) keys example_crypt (replicate 32 9) 32 r = Inr (32, ac', buf', r') \<and>
      ecb_crypt DEFAULT_ECB buf' 0 30 DES_DECRYPT = Inr (DESERR_NOHWDEVICE, key_packet ac' @ [9, 9])"
proof -
  have "drop 30 (replicate 32 (9 :: byte)) = [9, 9]" by (simp add: eval_nat_numeral)
  then show ?thesis
    using key_packet_readable [of example_crypt "replicate 32 9" "\<lambda>n. (n * 7 mod 32768, n + 1)" 32 3]
    by (auto split: prod.splits)
qed

text \<open>C12. A message that fits is encoded completely: decrypting the range \<open>transform_message_to_buffer\<close>
  wrote gives the id, the size and the data, and nothing else has changed, the two bytes reserved for
  the length included; a message that does not fit is refused without touching the buffer.\<close>

theorem transform_message_correct:
  assumes "ac_wf ac" and "unat (nm_real_size nm) \<le> length (nm_buffer nm)"
    and "off + 6 + unat (nm_real_size nm) \<le> length buf"
  shows "if unat buf_len < 6 + unat (nm_real_size nm) then transform_message_to_buffer ac nm buf off buf_len = Inr (0, buf)
    else \<exists>buf'. transform_message_to_buffer ac nm buf off buf_len = Inr (6 + ucast (nm_real_size nm), buf') \<and>
      xor_decrypt buf' (off + 2) (6 + ucast (nm_real_size nm) - 2) (ac_xor_key ac) =
        Inr (1, overwrite buf (off + 2) (message_plain nm)) \<and>
      take (off + 2) buf' = take (off + 2) buf \<and>
      drop (off + 6 + unat (nm_real_size nm)) buf' = drop (off + 6 + unat (nm_real_size nm)) buf"
proof (cases "unat buf_len < 6 + unat (nm_real_size nm)")
  case True
  then show ?thesis by (simp add: transform_out_refused)
next
  case False
  let ?p = "message_plain nm" and ?k = "ac_xor_key ac"
  let ?b = "overwrite buf (off + 2) (xor_stream ?k ?p)"
  have lp: "length ?p = 4 + unat (nm_real_size nm)" by (rule length_message_plain [OF assms(2)])
  have lb: "length ?b = length buf" using assms(3) lp by (intro length_overwrite) simp
  have t: "take (4 + unat (nm_real_size nm)) (drop (off + 2) ?b) = xor_stream ?k ?p"
    using assms(3) lp by (simp add: overwrite_def)
  have "xor_decrypt ?b (off + 2) (6 + ucast (nm_real_size nm) - 2) ?k =
      Inr (1, overwrite ?b (off + 2) (xor_stream ?k (xor_stream ?k ?p)))"
    using xor_crypt_eq [of "off + 2" "6 + ucast (nm_real_size nm) - 2" ?b ?k] assms lb
    unfolding xor_decrypt_def unat_message_size t by (simp add: ac_wf_def XOR_KEY_LEN_def)
  also have "overwrite ?b (off + 2) (xor_stream ?k (xor_stream ?k ?p)) = overwrite buf (off + 2) ?p"
    unfolding xor_stream_involution using assms(3) lp by (intro overwrite_overwrite_same) simp_all
  finally have d: "xor_decrypt ?b (off + 2) (6 + ucast (nm_real_size nm) - 2) ?k = Inr (1, overwrite buf (off + 2) ?p)" .
  have "transform_message_to_buffer ac nm buf off buf_len = Inr (6 + ucast (nm_real_size nm), ?b)"
    using False by (intro transform_out_spec [OF assms]) simp
  moreover have "take (off + 2) ?b = take (off + 2) buf"
    "drop (off + 6 + unat (nm_real_size nm)) ?b = drop (off + 6 + unat (nm_real_size nm)) buf"
    using assms(3) lp by (simp_all add: overwrite_def ac_simps)
  ultimately show ?thesis using False d by auto
qed

theorem transform_message_correct_witness:
  "transform_message_to_buffer example_crypt (set_real_size 3 net_message_new) (replicate 12 0) 1 8 = Inr (0, replicate 12 0) \<and>
   (\<exists>buf'. transform_message_to_buffer example_crypt (set_real_size 3 net_message_new) (replicate 12 0) 1 9 = Inr (9, buf'))"
  using transform_message_correct [of example_crypt "set_real_size 3 net_message_new" 1 "replicate 12 0" 8]
    transform_message_correct [of example_crypt "set_real_size 3 net_message_new" 1 "replicate 12 0" 9]
  by (auto simp: set_real_size_def net_message_new_def BUFFER_SIZE_def)

text \<open>With the message's own size as the buffer length, which is what \<open>on_write\<close> passes, every message
  is refused: the six bytes of the frame never fit.\<close>

theorem own_size_never_fits:
  "transform_message_to_buffer ac nm buf off (ucast (get_real_size nm)) = Inr (0, buf)"
proof (rule transform_out_refused)
  have "unat (get_real_size nm) < 2 ^ 32" using unsigned_less [of "get_real_size nm", where ?'a = nat] by simp
  then show "unat (ucast (get_real_size nm) :: u32) < 6 + unat (nm_real_size nm)"
    by (simp add: get_real_size_def unsigned_ucast_eq take_bit_nat_eq_self)
qed

text \<open>C9. On a frame of at least four payload bytes that lies in the buffer \<open>transform_buffer_to_message\<close> replaces the
  bytes after the length by their plain text, changes no other byte, and accepts exactly the frames whose checksum
  holds and whose sequence number is the expected one; only then does the expected number advance. A payload of
  less than two bytes makes it run out of the buffer. The key has the 16 bytes the cipher uses and the buffer less
  than \<open>2\<^sup>31\<close>; a payload of two or three bytes is not covered.\<close>

theorem frame_acceptance:
  fixes off :: nat and msg_len :: u32
  assumes "16 \<le> length (ac_xor_key ac)" and "length buf < 2 ^ 31"
  defines "frame \<equiv> take (2 + unat msg_len) (drop off buf)"
  shows "(4 \<le> unat msg_len \<longrightarrow> off + 2 + unat msg_len \<le> length buf \<longrightarrow>
      transform_buffer_to_message crc_table ac nm buf off msg_len =
        Inr (0, if frame_accepted ac frame then ac\<lparr>ac_sequence_id := ac_sequence_id ac + 1\<rparr> else ac, nm,
          take (off + 2) buf @ xor_stream (ac_xor_key ac) (drop 2 frame) @ drop (off + 2 + unat msg_len) buf)) \<and>
    (unat msg_len < 2 \<longrightarrow> transform_buffer_to_message crc_table ac nm buf off msg_len = Inl Out_Of_Bounds)"
proof (intro conjI impI)
  assume m: "4 \<le> unat msg_len" and room: "off + 2 + unat msg_len \<le> length buf"
  have l: "length frame = 2 + unat msg_len" using room by (simp add: frame_def)
  have "frame_plain (ac_xor_key ac) frame = take 2 (drop off buf) @ xor_stream (ac_xor_key ac) (drop 2 frame)"
    by (simp add: frame_plain_def frame_def take_take min_def)
  then have "overwrite buf off (frame_plain (ac_xor_key ac) frame) =
      take (off + 2) buf @ xor_stream (ac_xor_key ac) (drop 2 frame) @ drop (off + 2 + unat msg_len) buf"
    unfolding overwrite_def length_frame_plain using l take_add [of off 2 buf] by (simp add: add.assoc)
  moreover have "unat msg_len + 2 < 2 ^ 32" using room assms(2) by simp
  ultimately show "transform_buffer_to_message crc_table ac nm buf off msg_len =
        Inr (0, if frame_accepted ac frame then ac\<lparr>ac_sequence_id := ac_sequence_id ac + 1\<rparr> else ac, nm,
          take (off + 2) buf @ xor_stream (ac_xor_key ac) (drop 2 frame) @ drop (off + 2 + unat msg_len) buf)"
    using transform_in_spec [OF assms(1) room m] unfolding frame_def by simp
qed (use assms(2) transform_in_short in blast)

text \<open>A frame that \<open>example_crypt\<close> accepts: an empty message with the expected sequence number.\<close>

definition example_frame :: "byte list" where
  "example_frame = [0, 0, 0, 1, 1, 5, 4, 4, 4, 9]"

lemma example_frame_accepted: "frame_accepted example_crypt example_frame"
proof -
  have p: "frame_plain (ac_xor_key example_crypt) example_frame = [0, 0, 1, 3, 2, 1, 1, 2, 3, 1]"
    by (simp add: frame_plain_def example_crypt_def example_frame_def xor_stream_def key_index_def upt_rec)
  have "crc32 [0, 0, 1, 3, 2, 1] = 0x01030201"
    by (simp add: crc32_def crc_step_def crc_entry_0)
  then show ?thesis
    unfolding frame_accepted_def frame_checks_def p by (simp add: example_crypt_def)
qed

theorem frame_acceptance_witness:
  "\<exists>buf'. transform_buffer_to_message crc_table example_crypt net_message_new example_frame 0 8 =
    Inr (0, example_crypt\<lparr>ac_sequence_id := 6\<rparr>, net_message_new, buf')"
proof -
  have "take (2 + unat (8 :: u32)) (drop 0 example_frame) = example_frame" by (simp add: example_frame_def)
  with frame_acceptance [of example_crypt example_frame 8 0 net_message_new] example_frame_accepted
  show ?thesis by (auto simp: example_crypt_def example_frame_def)
qed

section \<open>Frames one after another\<close>

text \<open>A session is presented frames one after another, each in a buffer of its own: the crypt state goes from call
  to call.\<close>

fun present :: "about_crypt \<Rightarrow> (byte list \<times> nat \<times> u32) list \<Rightarrow> about_crypt result" where
  "present ac [] = Inr ac"
| "present ac ((buf, off, msg_len) # fs) =
     chain (transform_buffer_to_message crc_table ac net_message_new buf off msg_len) (\<lambda>(_, ac', _, _). present ac' fs)"

lemma present_advances:
  "present ac fs = Inr later \<Longrightarrow> \<exists>k \<le> length fs. later = ac\<lparr>ac_sequence_id := ac_sequence_id ac + of_nat k\<rparr>"
proof (induction fs arbitrary: ac)
  case (Cons f fs)
  obtain buf off msg_len where f: "f = (buf, off, msg_len)" by (cases f)
  obtain n ac' nm buf' where t: "transform_buffer_to_message crc_table ac net_message_new buf off msg_len = Inr (n, ac', nm, buf')"
    and p: "present ac' fs = Inr later" using Cons.prems by (auto simp: f chain_eq_Inr)
  obtain k where k: "k \<le> length fs" "later = ac'\<lparr>ac_sequence_id := ac_sequence_id ac' + of_nat k\<rparr>" using Cons.IH [OF p] by blast
  from transform_in_Inr(6) [OF t] show ?case
  proof
    assume "ac' = ac"
    then show ?thesis using k by (intro exI [of _ k]) simp
  next
    assume "ac' = ac\<lparr>ac_sequence_id := ac_sequence_id ac + 1\<rparr>"
    then show ?thesis using k by (intro exI [of _ "Suc k"]) (simp add: add.assoc)
  qed
qed simp

text \<open>C10. A session accepts a frame and is then presented any other frames, accepted or not, fewer than \<open>2\<^sup>32 - 1\<close> of
  them. In the state it has reached then the first frame is not acceptable any more, and presenting it once more
  leaves the state as it is.\<close>

theorem replay_rejected:
  assumes "16 \<le> length (ac_xor_key ac)" and "off + 2 + unat msg_len \<le> length buf"
    and "4 \<le> unat msg_len" and "unat msg_len + 2 < 2 ^ 32"
    and "frame_accepted ac (take (2 + unat msg_len) (drop off buf))"
    and "present ac ((buf, off, msg_len) # fs) = Inr later" and "length fs < 2 ^ 32 - 1"
  shows "\<not> frame_accepted later (take (2 + unat msg_len) (drop off buf)) \<and>
    present later [(buf, off, msg_len)] = Inr later"
proof -
  let ?f = "take (2 + unat msg_len) (drop off buf)"
  have "present (ac\<lparr>ac_sequence_id := ac_sequence_id ac + 1\<rparr>) fs = Inr later"
    using assms(5,6) transform_in_spec [OF assms(1-4)] by simp
  then obtain k where k: "k \<le> length fs" "later = ac\<lparr>ac_sequence_id := ac_sequence_id ac + 1 + of_nat k\<rparr>"
    using present_advances by fastforce
  have "unat (of_nat (Suc k) :: u32) = Suc k" using k(1) assms(7) by (simp add: unat_of_nat del: of_nat_Suc)
  then have "(of_nat (Suc k) :: u32) \<noteq> 0" by (metis nat.simps(3) unat_0)
  then have "ac_sequence_id later \<noteq> ac_sequence_id ac" by (simp add: k(2) add.assoc)
  then have no: "\<not> frame_accepted later ?f" using assms(5) by (simp add: frame_accepted_def k(2))
  have "16 \<le> length (ac_xor_key later)" using assms(1) by (simp add: k(2))
  from transform_in_spec [OF this assms(2-4), of net_message_new] no show ?thesis by simp
qed

theorem replay_rejected_witness:
  "\<exists>later. present example_crypt [(example_frame, 0, 8), (example_frame, 0, 8)] = Inr later \<and>
    \<not> frame_accepted later example_frame \<and> present later [(example_frame, 0, 8)] = Inr later"
proof -
  have f: "take (2 + unat (8 :: u32)) (drop 0 example_frame) = example_frame" by (simp add: example_frame_def)
  have room: "16 \<le> length (ac_xor_key ac) \<Longrightarrow> ac_xor_key ac = ac_xor_key example_crypt \<Longrightarrow>
      \<exists>ac'. present ac [(example_frame, 0, 8)] = Inr ac' \<and> ac_xor_key ac' = ac_xor_key ac" for ac
    using transform_in_spec [of ac 0 8 example_frame net_message_new] by (simp add: example_frame_def)
  have key: "16 \<le> length (ac_xor_key example_crypt)" by (simp add: example_crypt_def)
  obtain ac1 where ac1: "present example_crypt [(example_frame, 0, 8)] = Inr ac1" "ac_xor_key ac1 = ac_xor_key example_crypt"
    using room [OF key] by auto
  obtain later where "present ac1 [(example_frame, 0, 8)] = Inr later" using room [of ac1] key ac1(2) by auto
  then have run: "present example_crypt [(example_frame, 0, 8), (example_frame, 0, 8)] = Inr later"
    using ac1(1) by (auto simp: chain_eq_Inr)
  have "\<not> frame_accepted later (take (2 + unat (8 :: u32)) (drop 0 example_frame)) \<and> present later [(example_frame, 0, 8)] = Inr later"
    by (rule replay_rejected [OF key _ _ _ _ run]) (use example_frame_accepted f in \<open>simp_all add: example_frame_def\<close>)
  with run show ?thesis unfolding f by blast
qed

text \<open>C11. Altering up to four consecutive bytes of an accepted frame in transit, all of them before its checksum (the
  unencrypted length included) or all of them in it, makes the frame unacceptable, and presenting it leaves the
  state of the session as it is. An alteration of both the data and the checksum is not covered.\<close>

theorem tampering_rejected:
  assumes "16 \<le> length (ac_xor_key ac)" and "off + 2 + unat msg_len \<le> length buf"
    and "4 \<le> unat msg_len" and "unat msg_len + 2 < 2 ^ 32"
    and "frame_accepted ac (take (2 + unat msg_len) (drop off buf))"
    and "length bs \<le> 4 \<and> i + length bs \<le> unat msg_len - 2 \<or> unat msg_len - 2 \<le> i \<and> i + length bs \<le> 2 + unat msg_len"
    and "bs \<noteq> take (length bs) (drop (off + i) buf)"
  shows "\<not> frame_accepted ac (take (2 + unat msg_len) (drop off (overwrite buf (off + i) bs))) \<and>
    (\<exists>buf'. transform_buffer_to_message crc_table ac nm (overwrite buf (off + i) bs) off msg_len = Inr (0, ac, nm, buf'))"
proof -
  let ?n = "2 + unat msg_len"
  let ?f = "take ?n (drop off buf)" and ?b = "overwrite buf (off + i) bs"
  have lf: "length ?f = ?n" using assms(2) by simp
  have in_frame: "i + length bs \<le> ?n" using assms(3,6) by linarith
  then have lb: "length ?b = length buf" using assms(2) by (intro length_overwrite) simp
  have f': "take ?n (drop off ?b) = overwrite ?f i bs"
  proof (rule nth_equalityI)
    show "length (take ?n (drop off ?b)) = length (overwrite ?f i bs)"
      using assms(2) in_frame lb lf by (simp add: length_overwrite)
    fix j assume "j < length (take ?n (drop off ?b))"
    then have "j < ?n" by simp
    then show "take ?n (drop off ?b) ! j = overwrite ?f i bs ! j"
      using assms(2) in_frame lb lf by (auto simp: nth_overwrite)
  qed
  have "take (length bs) (drop i ?f) = take (length bs) (drop (off + i) buf)"
    using in_frame by (simp add: drop_take min_def add.commute)
  then have ne: "bs \<noteq> take (length bs) (drop i ?f)" using assms(7) by (simp only: not_False_eq_True)
  have checks: "frame_checks (ac_xor_key ac) ?f" using assms(5) by (simp only: frame_accepted_def)
  from assms(6) have "\<not> frame_checks (ac_xor_key ac) (overwrite ?f i bs)"
  proof
    assume "length bs \<le> 4 \<and> i + length bs \<le> unat msg_len - 2"
    then show ?thesis by (intro frame_checks_burst [OF checks _ _ _ ne]) (use assms(3) lf in linarith)+
  next
    assume "unat msg_len - 2 \<le> i \<and> i + length bs \<le> 2 + unat msg_len"
    then show ?thesis by (intro frame_checks_sum [OF checks _ _ _ ne]) (use assms(3) lf in linarith)+
  qed
  then have no: "\<not> frame_accepted ac (take ?n (drop off ?b))" unfolding f' by (simp add: frame_accepted_def)
  then show ?thesis using transform_in_spec [OF assms(1) _ assms(3,4), of off ?b nm] assms(2) lb by simp
qed

theorem tampering_rejected_witness:
  "(\<exists>buf'. transform_buffer_to_message crc_table example_crypt net_message_new (overwrite example_frame (0 + 1) [7, 7]) 0 8 =
      Inr (0, example_crypt, net_message_new, buf')) \<and>
   (\<exists>buf'. transform_buffer_to_message crc_table example_crypt net_message_new (overwrite example_frame (0 + 6) [7, 7]) 0 8 =
      Inr (0, example_crypt, net_message_new, buf'))"
proof -
  have f: "take (2 + unat (8 :: u32)) (drop 0 example_frame) = example_frame" by (simp add: example_frame_def)
  note tampered = tampering_rejected [of example_crypt 0 8 example_frame "[7, 7]" _ net_message_new, unfolded f, THEN conjunct2, OF _ _ _ _ example_frame_accepted]
  show ?thesis by (intro conjI tampered) (simp_all add: example_crypt_def example_frame_def)
qed

text \<open>Whatever arrives, \<open>transform_buffer_to_message\<close> returns 0 and leaves the message it is given as it was:
  no incoming data ever reaches the application.\<close>

theorem nothing_delivered:
  "case transform_buffer_to_message tab ac nm buf off msg_len of
     Inl _ \<Rightarrow> True | Inr (n, ac', nm', buf') \<Rightarrow> n = 0 \<and> nm' = nm"
  by (auto simp: transform_buffer_to_message_def chain_eq_Inr split: sum.splits if_splits)

end
