(* ===== verification/Event_Util.thy ===== *)
theory Event_Util
  imports Prelude
begin

text \<open>
  The macros of \<open>include/event2/util.h\<close>: the integer types picked for a platform and their limits, the
  arithmetic on \<open>struct timeval\<close>, and the error codes and flags of \<open>evutil_getaddrinfo\<close>.
  \<open>event_config\<close> is the platform \<open>include/event2/event-config.h\<close> describes.
\<close>

unbundle bit_operations_syntax

section \<open>Integer types\<close>

text \<open>What the configuration says of a platform, and the types the macros may expand to.\<close>

record platform =
  HAVE_UINT64_T :: bool
  HAVE_UINT32_T :: bool
  HAVE_UINT16_T :: bool
  HAVE_UINT8_T :: bool
  HAVE_UINTPTR_T :: bool
  WIN32 :: bool
  SIZEOF_LONG_LONG :: nat
  SIZEOF_LONG :: nat
  SIZEOF_INT :: nat
  SIZEOF_SHORT :: nat
  SIZEOF_VOID_P :: nat
  SIZEOF_SIZE_T :: nat

datatype c_type = Stdint nat | Stdint_Ptr | Int64_MSVC | C_Long_Long | C_Long | C_Int | C_Short | C_Char

text \<open>The signed and the unsigned macro pick the same type; \<open>None\<close> is \<open>#error\<close>.\<close>

definition ev_uint64_t :: "platform \<Rightarrow> c_type option" where
  "ev_uint64_t p =
     (if HAVE_UINT64_T p then Some (Stdint 64)
      else if WIN32 p then Some Int64_MSVC
      else if SIZEOF_LONG_LONG p = 8 then Some C_Long_Long
      else if SIZEOF_LONG p = 8 then Some C_Long
      else None)"

definition ev_uint32_t :: "platform \<Rightarrow> c_type option" where
  "ev_uint32_t p =
     (if HAVE_UINT32_T p then Some (Stdint 32)
      else if WIN32 p then Some C_Int
      else if SIZEOF_LONG p = 4 then Some C_Long
      else if SIZEOF_INT p = 4 then Some C_Int
      else None)"

definition ev_uint16_t :: "platform \<Rightarrow> c_type option" where
  "ev_uint16_t p =
     (if HAVE_UINT16_T p then Some (Stdint 16)
      else if WIN32 p then Some C_Short
      else if SIZEOF_INT p = 2 then Some C_Int
      else if SIZEOF_SHORT p = 2 then Some C_Short
      else None)"

definition ev_uint8_t :: "platform \<Rightarrow> c_type option" where
  "ev_uint8_t p = (if HAVE_UINT8_T p then Some (Stdint 8) else Some C_Char)"

definition ev_uintptr_t :: "platform \<Rightarrow> c_type option" where
  "ev_uintptr_t p =
     (if HAVE_UINTPTR_T p then Some Stdint_Ptr
      else if SIZEOF_VOID_P p \<le> 4 then ev_uint32_t p
      else if SIZEOF_VOID_P p \<le> 8 then ev_uint64_t p
      else None)"

definition bits_of :: "platform \<Rightarrow> c_type \<Rightarrow> nat" where
  "bits_of p t =
     (case t of
        Stdint n \<Rightarrow> n
      | Stdint_Ptr \<Rightarrow> 8 * SIZEOF_VOID_P p
      | Int64_MSVC \<Rightarrow> 64
      | C_Long_Long \<Rightarrow> 8 * SIZEOF_LONG_LONG p
      | C_Long \<Rightarrow> 8 * SIZEOF_LONG p
      | C_Int \<Rightarrow> 8 * SIZEOF_INT p
      | C_Short \<Rightarrow> 8 * SIZEOF_SHORT p
      | C_Char \<Rightarrow> 8)"

text \<open>The configuration in the repository, with and without \<open>_WIN64\<close>; the fixed-width types are
  commented out in it.\<close>

definition event_config :: "bool \<Rightarrow> platform" where
  "event_config win64 =
     \<lparr>HAVE_UINT64_T = False, HAVE_UINT32_T = False, HAVE_UINT16_T = False, HAVE_UINT8_T = False, HAVE_UINTPTR_T = False,
      WIN32 = True, SIZEOF_LONG_LONG = 8, SIZEOF_LONG = 4, SIZEOF_INT = 4, SIZEOF_SHORT = 2,
      SIZEOF_VOID_P = (if win64 then 8 else 4), SIZEOF_SIZE_T = (if win64 then 8 else 4)\<rparr>"

text \<open>A socket is a pointer-sized integer on Windows and an \<open>int\<close> elsewhere.\<close>

definition evutil_socket_t :: "platform \<Rightarrow> c_type" where
  "evutil_socket_t p = (if WIN32 p then Stdint_Ptr else C_Int)"

section \<open>Socket errors\<close>

text \<open>On Windows the last error of a socket call is kept by Winsock, elsewhere it is \<open>errno\<close>.\<close>

record last_errors =
  wsa_error :: int
  errno :: int

definition EVUTIL_CLOSESOCKET :: "('s \<Rightarrow> 'w \<Rightarrow> int \<times> 'w) \<Rightarrow> 's \<Rightarrow> 'w \<Rightarrow> int \<times> 'w" where
  "EVUTIL_CLOSESOCKET evutil_closesocket s w = evutil_closesocket s w"

definition EVUTIL_SOCKET_ERROR :: "platform \<Rightarrow> last_errors \<Rightarrow> int" where
  "EVUTIL_SOCKET_ERROR p st = (if WIN32 p then wsa_error st else errno st)"

definition EVUTIL_SET_SOCKET_ERROR :: "platform \<Rightarrow> int \<Rightarrow> last_errors \<Rightarrow> last_errors" where
  "EVUTIL_SET_SOCKET_ERROR p errcode st = (if WIN32 p then st\<lparr>wsa_error := errcode\<rparr> else st\<lparr>errno := errcode\<rparr>)"

text \<open>The error of one socket and its text are functions of the library on Windows and macros elsewhere.\<close>

definition evutil_socket_geterror :: "('s \<Rightarrow> int) \<Rightarrow> platform \<Rightarrow> 's \<Rightarrow> last_errors \<Rightarrow> int" where
  "evutil_socket_geterror library p sock st = (if WIN32 p then library sock else errno st)"

definition evutil_socket_error_to_string :: "(int \<Rightarrow> string) \<Rightarrow> (int \<Rightarrow> string) \<Rightarrow> platform \<Rightarrow> int \<Rightarrow> string" where
  "evutil_socket_error_to_string library strerror p errcode = (if WIN32 p then library errcode else strerror errcode)"

text \<open>An error that is set is the one that is reported next, on every platform; the other store is left alone.\<close>

theorem socket_error_set:
  "EVUTIL_SOCKET_ERROR p (EVUTIL_SET_SOCKET_ERROR p e st) = e"
  "WIN32 p \<noteq> WIN32 q \<Longrightarrow> EVUTIL_SOCKET_ERROR q (EVUTIL_SET_SOCKET_ERROR p e st) = EVUTIL_SOCKET_ERROR q st"
  by (auto simp: EVUTIL_SOCKET_ERROR_def EVUTIL_SET_SOCKET_ERROR_def)

section \<open>Limits\<close>

definition EV_UINT64_MAX :: "64 word" where "EV_UINT64_MAX = push_bit 32 0xffffffff OR 0xffffffff"
definition EV_INT64_MAX :: "64 word" where "EV_INT64_MAX = push_bit 32 0x7fffffff OR 0xffffffff"
definition EV_INT64_MIN :: "64 word" where "EV_INT64_MIN = - EV_INT64_MAX - 1"
definition EV_UINT32_MAX :: u32 where "EV_UINT32_MAX = 0xffffffff"
definition EV_INT32_MAX :: u32 where "EV_INT32_MAX = 0x7fffffff"
definition EV_INT32_MIN :: u32 where "EV_INT32_MIN = - EV_INT32_MAX - 1"
definition EV_UINT16_MAX :: u16 where "EV_UINT16_MAX = 0xffff"
definition EV_INT16_MAX :: u16 where "EV_INT16_MAX = 0x7fff"
definition EV_INT16_MIN :: int where "EV_INT16_MIN = - sint EV_INT16_MAX - 1"
definition EV_UINT8_MAX :: int where "EV_UINT8_MAX = 255"
definition EV_INT8_MAX :: int where "EV_INT8_MAX = 127"
definition EV_INT8_MIN :: int where "EV_INT8_MIN = - EV_INT8_MAX - 1"

text \<open>As values: the limit is that of a 64 or a 32 bit type, or there is none.\<close>

definition EV_SIZE_MAX :: "platform \<Rightarrow> nat option" where
  "EV_SIZE_MAX p =
     (if SIZEOF_SIZE_T p = 8 then Some (unat EV_UINT64_MAX)
      else if SIZEOF_SIZE_T p = 4 then Some (unat EV_UINT32_MAX)
      else None)"

definition EV_SSIZE_MAX :: "platform \<Rightarrow> int option" where
  "EV_SSIZE_MAX p =
     (if SIZEOF_SIZE_T p = 8 then Some (sint EV_INT64_MAX)
      else if SIZEOF_SIZE_T p = 4 then Some (sint EV_INT32_MAX)
      else None)"

definition EV_SSIZE_MIN :: "platform \<Rightarrow> int option" where
  "EV_SSIZE_MIN p = map_option (\<lambda>m. - m - 1) (EV_SSIZE_MAX p)"

section \<open>Times\<close>

text \<open>\<open>struct timeval\<close> belongs to the platform; its two members are signed. The macros are defined where
  the platform has none.\<close>

record timeval =
  tv_sec :: int
  tv_usec :: int

definition evutil_timeradd :: "timeval \<Rightarrow> timeval \<Rightarrow> timeval" where
  "evutil_timeradd tvp uvp =
     (let vvp = \<lparr>tv_sec = tv_sec tvp + tv_sec uvp, tv_usec = tv_usec tvp + tv_usec uvp\<rparr> in
      if 1000000 \<le> tv_usec vvp then vvp\<lparr>tv_sec := tv_sec vvp + 1, tv_usec := tv_usec vvp - 1000000\<rparr> else vvp)"

definition evutil_timersub :: "timeval \<Rightarrow> timeval \<Rightarrow> timeval" where
  "evutil_timersub tvp uvp =
     (let vvp = \<lparr>tv_sec = tv_sec tvp - tv_sec uvp, tv_usec = tv_usec tvp - tv_usec uvp\<rparr> in
      if tv_usec vvp < 0 then vvp\<lparr>tv_sec := tv_sec vvp - 1, tv_usec := tv_usec vvp + 1000000\<rparr> else vvp)"

definition evutil_timerclear :: "timeval \<Rightarrow> timeval" where
  "evutil_timerclear tvp = tvp\<lparr>tv_sec := 0, tv_usec := 0\<rparr>"

definition evutil_timercmp :: "timeval \<Rightarrow> timeval \<Rightarrow> (int \<Rightarrow> int \<Rightarrow> bool) \<Rightarrow> bool" where
  "evutil_timercmp tvp uvp cmp =
     (if tv_sec tvp = tv_sec uvp then cmp (tv_usec tvp) (tv_usec uvp) else cmp (tv_sec tvp) (tv_sec uvp))"

definition evutil_timerisset :: "timeval \<Rightarrow> bool" where
  "evutil_timerisset tvp \<longleftrightarrow> tv_sec tvp \<noteq> 0 \<or> tv_usec tvp \<noteq> 0"

section \<open>Address lookup\<close>

text \<open>The platform's own codes, those it has; each macro falls back to a code of libevent's.\<close>

record native_codes =
  EAI_ADDRFAMILY :: "int option"
  EAI_AGAIN :: "int option"
  EAI_BADFLAGS :: "int option"
  EAI_FAIL :: "int option"
  EAI_FAMILY :: "int option"
  EAI_MEMORY :: "int option"
  EAI_NODATA :: "int option"
  EAI_NONAME :: "int option"
  EAI_SERVICE :: "int option"
  EAI_SOCKTYPE :: "int option"
  EAI_SYSTEM :: "int option"

definition default_to :: "int \<Rightarrow> int option \<Rightarrow> int" where
  "default_to v x = (case x of Some c \<Rightarrow> c | None \<Rightarrow> v)"

definition EVUTIL_EAI_ADDRFAMILY :: "native_codes \<Rightarrow> int" where
  "EVUTIL_EAI_ADDRFAMILY n = default_to (- 901) (EAI_ADDRFAMILY n)"
definition EVUTIL_EAI_AGAIN :: "native_codes \<Rightarrow> int" where
  "EVUTIL_EAI_AGAIN n = default_to (- 902) (EAI_AGAIN n)"
definition EVUTIL_EAI_BADFLAGS :: "native_codes \<Rightarrow> int" where
  "EVUTIL_EAI_BADFLAGS n = default_to (- 903) (EAI_BADFLAGS n)"
definition EVUTIL_EAI_FAIL :: "native_codes \<Rightarrow> int" where
  "EVUTIL_EAI_FAIL n = default_to (- 904) (EAI_FAIL n)"
definition EVUTIL_EAI_FAMILY :: "native_codes \<Rightarrow> int" where
  "EVUTIL_EAI_FAMILY n = default_to (- 905) (EAI_FAMILY n)"
definition EVUTIL_EAI_MEMORY :: "native_codes \<Rightarrow> int" where
  "EVUTIL_EAI_MEMORY n = default_to (- 906) (EAI_MEMORY n)"
definition EVUTIL_EAI_NODATA :: "native_codes \<Rightarrow> int" where
  "EVUTIL_EAI_NODATA n =
     (case EAI_NODATA n of
        Some c \<Rightarrow> if EAI_NONAME n = None \<or> EAI_NONAME n \<noteq> Some c then c else - 907
      | None \<Rightarrow> - 907)"
definition EVUTIL_EAI_NONAME :: "native_codes \<Rightarrow> int" where
  "EVUTIL_EAI_NONAME n = default_to (- 908) (EAI_NONAME n)"
definition EVUTIL_EAI_SERVICE :: "native_codes \<Rightarrow> int" where
  "EVUTIL_EAI_SERVICE n = default_to (- 909) (EAI_SERVICE n)"
definition EVUTIL_EAI_SOCKTYPE :: "native_codes \<Rightarrow> int" where
  "EVUTIL_EAI_SOCKTYPE n = default_to (- 910) (EAI_SOCKTYPE n)"
definition EVUTIL_EAI_SYSTEM :: "native_codes \<Rightarrow> int" where
  "EVUTIL_EAI_SYSTEM n = default_to (- 911) (EAI_SYSTEM n)"
definition EVUTIL_EAI_CANCEL :: int where
  "EVUTIL_EAI_CANCEL = - 90001"

text \<open>The flags, each with the platform's value where there is one.\<close>

definition EVUTIL_AI_PASSIVE :: "int option \<Rightarrow> int" where "EVUTIL_AI_PASSIVE x = default_to 0x1000 x"
definition EVUTIL_AI_CANONNAME :: "int option \<Rightarrow> int" where "EVUTIL_AI_CANONNAME x = default_to 0x2000 x"
definition EVUTIL_AI_NUMERICHOST :: "int option \<Rightarrow> int" where "EVUTIL_AI_NUMERICHOST x = default_to 0x4000 x"
definition EVUTIL_AI_NUMERICSERV :: "int option \<Rightarrow> int" where "EVUTIL_AI_NUMERICSERV x = default_to 0x8000 x"
definition EVUTIL_AI_V4MAPPED :: "int option \<Rightarrow> int" where "EVUTIL_AI_V4MAPPED x = default_to 0x10000 x"
definition EVUTIL_AI_ALL :: "int option \<Rightarrow> int" where "EVUTIL_AI_ALL x = default_to 0x20000 x"
definition EVUTIL_AI_ADDRCONFIG :: "int option \<Rightarrow> int" where "EVUTIL_AI_ADDRCONFIG x = default_to 0x40000 x"

text \<open>The structure for systems without \<open>struct addrinfo\<close>; its pointers are addresses.\<close>

record evutil_addrinfo =
  ai_flags :: int
  ai_family :: int
  ai_socktype :: int
  ai_protocol :: int
  ai_addrlen :: nat
  ai_canonname :: "nat option"
  ai_addr :: "nat option"
  ai_next :: "nat option"

section \<open>The properties\<close>

text \<open>C40. Whenever the macros pick an integer type on a platform that is not a 16-bit Windows, it has exactly
  the documented width, and the pointer-sized one holds a pointer of up to eight bytes.\<close>

theorem ev_types_have_their_widths:
  assumes "WIN32 p \<longrightarrow> SIZEOF_INT p = 4 \<and> SIZEOF_SHORT p = 2"
  shows "(\<forall>t. ev_uint64_t p = Some t \<longrightarrow> bits_of p t = 64) \<and> (\<forall>t. ev_uint32_t p = Some t \<longrightarrow> bits_of p t = 32) \<and>
    (\<forall>t. ev_uint16_t p = Some t \<longrightarrow> bits_of p t = 16) \<and> (\<forall>t. ev_uint8_t p = Some t \<longrightarrow> bits_of p t = 8) \<and>
    (\<forall>t. ev_uintptr_t p = Some t \<longrightarrow> 8 * SIZEOF_VOID_P p \<le> bits_of p t)"
proof -
  have 64: "bits_of p t = 64" if "ev_uint64_t p = Some t" for t
    using that by (auto simp: ev_uint64_t_def bits_of_def split: if_splits)
  have 32: "bits_of p t = 32" if "ev_uint32_t p = Some t" for t
    using that assms by (auto simp: ev_uint32_t_def bits_of_def split: if_splits)
  have 16: "bits_of p t = 16" if "ev_uint16_t p = Some t" for t
    using that assms by (auto simp: ev_uint16_t_def bits_of_def split: if_splits)
  have 8: "bits_of p t = 8" if "ev_uint8_t p = Some t" for t
    using that by (auto simp: ev_uint8_t_def bits_of_def split: if_splits)
  have ptr: "8 * SIZEOF_VOID_P p \<le> bits_of p t" if "ev_uintptr_t p = Some t" for t
    using that 64 [of t] 32 [of t] by (auto simp: ev_uintptr_t_def bits_of_def split: if_splits)
  show ?thesis using 64 32 16 8 ptr by blast
qed

theorem ev_types_have_their_widths_witness:
  "ev_uint64_t (event_config True) = Some Int64_MSVC \<and> ev_uintptr_t (event_config True) = Some Int64_MSVC \<and>
   64 \<le> bits_of (event_config True) Int64_MSVC"
proof -
  have t: "ev_uint64_t (event_config True) = Some Int64_MSVC" "ev_uintptr_t (event_config True) = Some Int64_MSVC"
    by (simp_all add: ev_uint64_t_def ev_uintptr_t_def event_config_def)
  have "WIN32 (event_config True) \<longrightarrow> SIZEOF_INT (event_config True) = 4 \<and> SIZEOF_SHORT (event_config True) = 2"
    by (simp add: event_config_def)
  from ev_types_have_their_widths [OF this] t(2) have "8 * SIZEOF_VOID_P (event_config True) \<le> bits_of (event_config True) Int64_MSVC"
    by blast
  then show ?thesis using t by (simp add: event_config_def)
qed

text \<open>The limits of the integer types are the least and the greatest values of their widths.\<close>

theorem ev_limits_are_extreme:
  "(x :: 64 word) \<le> EV_UINT64_MAX \<and> sint x \<le> sint EV_INT64_MAX \<and> sint EV_INT64_MIN \<le> sint x \<and>
   y \<le> EV_UINT32_MAX \<and> sint y \<le> sint EV_INT32_MAX \<and> sint EV_INT32_MIN \<le> sint y \<and>
   z \<le> EV_UINT16_MAX \<and> sint z \<le> sint EV_INT16_MAX \<and> EV_INT16_MIN \<le> sint z \<and>
   uint (b :: byte) \<le> EV_UINT8_MAX \<and> sint b \<le> EV_INT8_MAX \<and> EV_INT8_MIN \<le> sint b"
proof -
  have 64: "uint x < 2 ^ 64" "- (2 ^ 63) \<le> sint x" "sint x < 2 ^ 63"
    using uint_bounded [of x] sint_greater_eq [of x] sint_less [of x] by simp_all
  have 32: "uint y < 2 ^ 32" "- (2 ^ 31) \<le> sint y" "sint y < 2 ^ 31"
    using uint_bounded [of y] sint_greater_eq [of y] sint_less [of y] by simp_all
  have 16: "uint z < 2 ^ 16" "- (2 ^ 15) \<le> sint z" "sint z < 2 ^ 15"
    using uint_bounded [of z] sint_greater_eq [of z] sint_less [of z] by simp_all
  have 8: "uint b < 2 ^ 8" "- (2 ^ 7) \<le> sint b" "sint b < 2 ^ 7"
    using uint_bounded [of b] sint_greater_eq [of b] sint_less [of b] by simp_all
  have L: "uint EV_UINT64_MAX = 2 ^ 64 - 1" "sint EV_INT64_MAX = 2 ^ 63 - 1" "sint EV_INT64_MIN = - (2 ^ 63)"
    "uint EV_UINT32_MAX = 2 ^ 32 - 1" "sint EV_INT32_MAX = 2 ^ 31 - 1" "sint EV_INT32_MIN = - (2 ^ 31)"
    "uint EV_UINT16_MAX = 2 ^ 16 - 1" "sint EV_INT16_MAX = 2 ^ 15 - 1" "EV_INT16_MIN = - (2 ^ 15)"
    "EV_UINT8_MAX = 2 ^ 8 - 1" "EV_INT8_MAX = 2 ^ 7 - 1" "EV_INT8_MIN = - (2 ^ 7)"
    by code_simp+
  show ?thesis unfolding word_le_def L using 64 32 16 8 by auto
qed

text \<open>A time as a number of microseconds, and the form the platform keeps times in.\<close>

definition usecs :: "timeval \<Rightarrow> int" where
  "usecs t = tv_sec t * 1000000 + tv_usec t"

definition normal :: "timeval \<Rightarrow> bool" where
  "normal t \<longleftrightarrow> 0 \<le> tv_usec t \<and> tv_usec t < 1000000"

lemma usecs_order:
  assumes "normal t" and "normal u"
  shows "tv_sec t < tv_sec u \<Longrightarrow> usecs t < usecs u" and "tv_sec t = tv_sec u \<Longrightarrow> usecs t \<le> usecs u \<longleftrightarrow> tv_usec t \<le> tv_usec u"
  using assms by (simp_all add: usecs_def normal_def)

lemma normal_unique: "normal t \<Longrightarrow> normal u \<Longrightarrow> usecs t = usecs u \<Longrightarrow> t = u"
proof -
  assume n: "normal t" "normal u" and e: "usecs t = usecs u"
  then have "tv_sec t = tv_sec u" using usecs_order(1) [of t u] usecs_order(1) [of u t] by (cases "tv_sec t" "tv_sec u" rule: linorder_cases) auto
  moreover from this e have "tv_usec t = tv_usec u" by (simp add: usecs_def)
  ultimately show "t = u" by simp
qed

lemma usecs_compare:
  assumes "normal t" and "normal u"
  shows "evutil_timercmp t u (<) = (usecs t < usecs u)" and "evutil_timercmp t u (\<le>) = (usecs t \<le> usecs u)"
    and "evutil_timercmp t u (=) = (usecs t = usecs u)"
  using usecs_order [OF assms] usecs_order [OF assms(2) assms(1)]
  by (cases "tv_sec t" "tv_sec u" rule: linorder_cases; auto simp: evutil_timercmp_def)+

lemma timerisset_usecs: "normal t \<Longrightarrow> evutil_timerisset t = (usecs t \<noteq> 0)"
  by (cases "tv_sec t" "0 :: int" rule: linorder_cases) (auto simp: evutil_timerisset_def usecs_def normal_def)

lemma timeradd_usecs: "usecs (evutil_timeradd t u) = usecs t + usecs u"
  by (simp add: evutil_timeradd_def usecs_def Let_def algebra_simps)

lemma timersub_usecs: "usecs (evutil_timersub t u) = usecs t - usecs u"
  by (simp add: evutil_timersub_def usecs_def Let_def algebra_simps)

lemma timer_normal: "normal t \<Longrightarrow> normal u \<Longrightarrow> normal (evutil_timeradd t u) \<and> normal (evutil_timersub t u)"
  by (auto simp: evutil_timeradd_def evutil_timersub_def normal_def Let_def)

text \<open>Addition and subtraction of normalized times are exact, stay normalized and undo each other, and
  comparing with any of the order relations is comparing the number of microseconds.\<close>

theorem timer_arithmetic:
  assumes "normal t" and "normal u"
  shows "normal (evutil_timeradd t u) \<and> usecs (evutil_timeradd t u) = usecs t + usecs u \<and>
    normal (evutil_timersub t u) \<and> usecs (evutil_timersub t u) = usecs t - usecs u \<and>
    evutil_timersub (evutil_timeradd t u) u = t \<and>
    evutil_timercmp t u (<) = (usecs t < usecs u) \<and> evutil_timercmp t u (\<le>) = (usecs t \<le> usecs u) \<and>
    evutil_timercmp t u (=) = (usecs t = usecs u) \<and> evutil_timerisset t = (usecs t \<noteq> 0) \<and>
    usecs (evutil_timerclear t) = 0"
proof -
  have "normal (evutil_timersub (evutil_timeradd t u) u)" using timer_normal assms by blast
  moreover have "usecs (evutil_timersub (evutil_timeradd t u) u) = usecs t" by (simp add: timeradd_usecs timersub_usecs)
  ultimately have "evutil_timersub (evutil_timeradd t u) u = t" using normal_unique assms(1) by blast
  then show ?thesis
    using timer_normal [OF assms] by (simp add: timeradd_usecs timersub_usecs usecs_compare assms timerisset_usecs)
      (simp add: usecs_def evutil_timerclear_def)
qed

theorem timer_arithmetic_witness:
  "evutil_timersub (evutil_timeradd \<lparr>tv_sec = 1, tv_usec = 600000\<rparr> \<lparr>tv_sec = 2, tv_usec = 700000\<rparr>) \<lparr>tv_sec = 2, tv_usec = 700000\<rparr> =
     \<lparr>tv_sec = 1, tv_usec = 600000\<rparr>"
  using timer_arithmetic [of "\<lparr>tv_sec = 1, tv_usec = 600000\<rparr>" "\<lparr>tv_sec = 2, tv_usec = 700000\<rparr>"]
  by (simp add: normal_def)

text \<open>What the platform's codes are expected to be: different from each other, except that no data may be
  the same as no name, and none of libevent's own.\<close>

definition native_list :: "native_codes \<Rightarrow> int list" where
  "native_list n = List.map_filter id [EAI_ADDRFAMILY n, EAI_AGAIN n, EAI_BADFLAGS n, EAI_FAIL n, EAI_FAMILY n, EAI_MEMORY n,
     EAI_NONAME n, EAI_SERVICE n, EAI_SOCKTYPE n, EAI_SYSTEM n]"

definition sane_codes :: "native_codes \<Rightarrow> bool" where
  "sane_codes n \<longleftrightarrow> distinct (native_list n) \<and> (\<forall>c \<in> set (native_list n). c < - 911 \<or> - 901 < c) \<and>
     (case EAI_NODATA n of
        None \<Rightarrow> True
      | Some c \<Rightarrow> (c < - 911 \<or> - 901 < c) \<and> (c \<in> set (native_list n) \<longrightarrow> EAI_NONAME n = Some c))"

definition lookup_codes :: "native_codes \<Rightarrow> int list" where
  "lookup_codes n = [EVUTIL_EAI_ADDRFAMILY n, EVUTIL_EAI_AGAIN n, EVUTIL_EAI_BADFLAGS n, EVUTIL_EAI_FAIL n, EVUTIL_EAI_FAMILY n,
     EVUTIL_EAI_MEMORY n, EVUTIL_EAI_NODATA n, EVUTIL_EAI_NONAME n, EVUTIL_EAI_SERVICE n, EVUTIL_EAI_SOCKTYPE n, EVUTIL_EAI_SYSTEM n]"

text \<open>Falling back to different codes keeps a list of codes distinct.\<close>

fun fall_back :: "(int \<times> int option) list \<Rightarrow> int list" where
  "fall_back [] = []"
| "fall_back ((v, x) # ps) = default_to v x # fall_back ps"

lemma fall_back_members: "c \<in> set (fall_back ps) \<Longrightarrow> c \<in> set (map fst ps) \<or> c \<in> set (List.map_filter id (map snd ps))"
  by (induction ps rule: fall_back.induct) (auto simp: default_to_def List.map_filter_def split: option.splits)

lemma fall_back_distinct:
  "distinct (map fst ps) \<Longrightarrow> distinct (List.map_filter id (map snd ps)) \<Longrightarrow>
   set (map fst ps) \<inter> set (List.map_filter id (map snd ps)) = {} \<Longrightarrow> distinct (fall_back ps)"
proof (induction ps rule: fall_back.induct)
  case (2 v x ps)
  have "default_to v x \<notin> set (fall_back ps)"
    using fall_back_members [of "default_to v x" ps] "2.prems"
    by (cases x) (auto simp: default_to_def List.map_filter_def)
  then show ?case using 2 by (cases x) (auto simp: List.map_filter_def)
qed simp

text \<open>The lookup error codes the header defines are pairwise distinct on every sane platform, also on one
  where the code for no data is missing or is the code for no name.\<close>

theorem lookup_codes_distinct:
  assumes "sane_codes n"
  shows "distinct (lookup_codes n)"
proof -
  let ?nodata = "if EAI_NODATA n = EAI_NONAME n then None else EAI_NODATA n"
  let ?ps = "[(- 901 :: int, EAI_ADDRFAMILY n), (- 902, EAI_AGAIN n), (- 903, EAI_BADFLAGS n), (- 904, EAI_FAIL n), (- 905, EAI_FAMILY n),
    (- 906, EAI_MEMORY n), (- 907, ?nodata), (- 908, EAI_NONAME n), (- 909, EAI_SERVICE n), (- 910, EAI_SOCKTYPE n), (- 911, EAI_SYSTEM n)]"
  let ?front = "List.map_filter id [EAI_ADDRFAMILY n, EAI_AGAIN n, EAI_BADFLAGS n, EAI_FAIL n, EAI_FAMILY n, EAI_MEMORY n]"
  let ?rear = "List.map_filter id [EAI_NONAME n, EAI_SERVICE n, EAI_SOCKTYPE n, EAI_SYSTEM n]"
  have app: "List.map_filter id (xs @ ys) = List.map_filter id xs @ List.map_filter id ys" for xs ys :: "int option list"
    by (simp add: List.map_filter_def)
  have nl: "native_list n = ?front @ ?rear" unfolding native_list_def app [symmetric] by simp
  have eq: "List.map_filter id (map snd ?ps) = ?front @ List.map_filter id [?nodata] @ ?rear" unfolding app [symmetric] by simp
  have codes: "lookup_codes n = fall_back ?ps"
    by (auto simp: lookup_codes_def EVUTIL_EAI_ADDRFAMILY_def EVUTIL_EAI_AGAIN_def EVUTIL_EAI_BADFLAGS_def EVUTIL_EAI_FAIL_def
        EVUTIL_EAI_FAMILY_def EVUTIL_EAI_MEMORY_def EVUTIL_EAI_NODATA_def EVUTIL_EAI_NONAME_def EVUTIL_EAI_SERVICE_def
        EVUTIL_EAI_SOCKTYPE_def EVUTIL_EAI_SYSTEM_def default_to_def split: option.splits)
  have fresh: "c \<notin> set (native_list n) \<and> (c < - 911 \<or> - 901 < c)" if "?nodata = Some c" for c
    using that assms by (auto simp: sane_codes_def split: if_splits option.splits)
  have d: "distinct (List.map_filter id (map snd ?ps))"
    unfolding eq using assms fresh unfolding sane_codes_def nl
    by (cases ?nodata) (auto simp: List.map_filter_simps)
  have out: "\<forall>c \<in> set (List.map_filter id (map snd ?ps)). c < - 911 \<or> - 901 < c"
    unfolding eq using assms fresh unfolding sane_codes_def nl
    by (cases ?nodata) (auto simp: List.map_filter_simps)
  have within: "\<forall>c \<in> set (map fst ?ps). - 911 \<le> c \<and> c \<le> - 901" by simp
  have "set (map fst ?ps) \<inter> set (List.map_filter id (map snd ?ps)) = {}"
  proof (rule equals0I)
    fix c assume "c \<in> set (map fst ?ps) \<inter> set (List.map_filter id (map snd ?ps))"
    with within out show False by fastforce
  qed
  then show ?thesis unfolding codes by (intro fall_back_distinct d) simp_all
qed

text \<open>The witness is a platform that has some of the codes, with no data the same as no name.\<close>

theorem lookup_codes_distinct_witness:
  "distinct (lookup_codes \<lparr>EAI_ADDRFAMILY = None, EAI_AGAIN = Some 11002, EAI_BADFLAGS = Some 10022, EAI_FAIL = Some 11003,
     EAI_FAMILY = Some 10047, EAI_MEMORY = Some 8, EAI_NODATA = Some 11001, EAI_NONAME = Some 11001, EAI_SERVICE = Some 10109,
     EAI_SOCKTYPE = Some 10044, EAI_SYSTEM = None\<rparr>)"
  by (rule lookup_codes_distinct) (simp add: sane_codes_def native_list_def List.map_filter_simps)

end
