(* ===== verification/Event_Api.thy ===== *)
theory Event_Api
  imports Event_Util
begin

text \<open>
  The interface of libevent as its headers in \<open>include/event2\<close> give it: the flags, the enumerations with
  their values, the structures the headers lay open, and the macros that are calls of other functions.
  The functions the headers only declare are parameters. Pointers to structures the program never looks
  into are addresses (\<open>nat option\<close>, \<open>None\<close> for null).
\<close>

unbundle bit_operations_syntax

section \<open>Events\<close>

text \<open>The flags of \<open>short events\<close>.\<close>

definition EV_TIMEOUT :: u16 where "EV_TIMEOUT = 0x01"
definition EV_READ :: u16 where "EV_READ = 0x02"
definition EV_WRITE :: u16 where "EV_WRITE = 0x04"
definition EV_SIGNAL :: u16 where "EV_SIGNAL = 0x08"
definition EV_PERSIST :: u16 where "EV_PERSIST = 0x10"
definition EV_ET :: u16 where "EV_ET = 0x20"

definition EVLOOP_ONCE :: int where "EVLOOP_ONCE = 0x01"
definition EVLOOP_NONBLOCK :: int where "EVLOOP_NONBLOCK = 0x02"

datatype event_method_feature = EV_FEATURE_ET | EV_FEATURE_O1 | EV_FEATURE_FDS

fun feature_bit :: "event_method_feature \<Rightarrow> u32" where
  "feature_bit EV_FEATURE_ET = 0x01"
| "feature_bit EV_FEATURE_O1 = 0x02"
| "feature_bit EV_FEATURE_FDS = 0x04"

datatype event_base_config_flag =
    EVENT_BASE_FLAG_NOLOCK | EVENT_BASE_FLAG_IGNORE_ENV | EVENT_BASE_FLAG_STARTUP_IOCP
  | EVENT_BASE_FLAG_NO_CACHE_TIME | EVENT_BASE_FLAG_EPOLL_USE_CHANGELIST

fun config_bit :: "event_base_config_flag \<Rightarrow> u32" where
  "config_bit EVENT_BASE_FLAG_NOLOCK = 0x01"
| "config_bit EVENT_BASE_FLAG_IGNORE_ENV = 0x02"
| "config_bit EVENT_BASE_FLAG_STARTUP_IOCP = 0x04"
| "config_bit EVENT_BASE_FLAG_NO_CACHE_TIME = 0x08"
| "config_bit EVENT_BASE_FLAG_EPOLL_USE_CHANGELIST = 0x10"

definition EVENT_LOG_DEBUG :: int where "EVENT_LOG_DEBUG = 0"
definition EVENT_LOG_MSG :: int where "EVENT_LOG_MSG = 1"
definition EVENT_LOG_WARN :: int where "EVENT_LOG_WARN = 2"
definition EVENT_LOG_ERR :: int where "EVENT_LOG_ERR = 3"

text \<open>The older names of the levels begin with an underscore.\<close>

definition old_EVENT_LOG_DEBUG :: int where "old_EVENT_LOG_DEBUG = EVENT_LOG_DEBUG"
definition old_EVENT_LOG_MSG :: int where "old_EVENT_LOG_MSG = EVENT_LOG_MSG"
definition old_EVENT_LOG_WARN :: int where "old_EVENT_LOG_WARN = EVENT_LOG_WARN"
definition old_EVENT_LOG_ERR :: int where "old_EVENT_LOG_ERR = EVENT_LOG_ERR"

definition EVENT_MAX_PRIORITIES :: int where "EVENT_MAX_PRIORITIES = 256"

definition EVENT_NUMERIC_VERSION :: u32 where "EVENT_NUMERIC_VERSION = 0x02001400"
definition LIBEVENT_VERSION_NUMBER :: u32 where "LIBEVENT_VERSION_NUMBER = EVENT_NUMERIC_VERSION"
definition EVENT_VERSION :: string where "EVENT_VERSION = ''2.0.20-stable''"
definition LIBEVENT_VERSION :: string where "LIBEVENT_VERSION = EVENT_VERSION"

text \<open>Timers are events on no descriptor, signal events persistent events whose descriptor is the signal.
  The functions behind the macros come first.\<close>

definition evtimer_assign ::
  "('ev \<Rightarrow> 'base \<Rightarrow> int \<Rightarrow> u16 \<Rightarrow> 'cb \<Rightarrow> 'arg \<Rightarrow> 'r) \<Rightarrow> 'ev \<Rightarrow> 'base \<Rightarrow> 'cb \<Rightarrow> 'arg \<Rightarrow> 'r" where
  "evtimer_assign event_assign ev b cb arg = event_assign ev b (- 1) 0 cb arg"

definition evtimer_new :: "('base \<Rightarrow> int \<Rightarrow> u16 \<Rightarrow> 'cb \<Rightarrow> 'arg \<Rightarrow> 'r) \<Rightarrow> 'base \<Rightarrow> 'cb \<Rightarrow> 'arg \<Rightarrow> 'r" where
  "evtimer_new event_new b cb arg = event_new b (- 1) 0 cb arg"

definition evtimer_pending :: "('ev \<Rightarrow> u16 \<Rightarrow> 'tv \<Rightarrow> 'r) \<Rightarrow> 'ev \<Rightarrow> 'tv \<Rightarrow> 'r" where
  "evtimer_pending event_pending ev tv = event_pending ev EV_TIMEOUT tv"

definition evsignal_assign ::
  "('ev \<Rightarrow> 'base \<Rightarrow> int \<Rightarrow> u16 \<Rightarrow> 'cb \<Rightarrow> 'arg \<Rightarrow> 'r) \<Rightarrow> 'ev \<Rightarrow> 'base \<Rightarrow> int \<Rightarrow> 'cb \<Rightarrow> 'arg \<Rightarrow> 'r" where
  "evsignal_assign event_assign ev b x cb arg = event_assign ev b x (EV_SIGNAL OR EV_PERSIST) cb arg"

definition evsignal_new :: "('base \<Rightarrow> int \<Rightarrow> u16 \<Rightarrow> 'cb \<Rightarrow> 'arg \<Rightarrow> 'r) \<Rightarrow> 'base \<Rightarrow> int \<Rightarrow> 'cb \<Rightarrow> 'arg \<Rightarrow> 'r" where
  "evsignal_new event_new b x cb arg = event_new b x (EV_SIGNAL OR EV_PERSIST) cb arg"

definition evsignal_pending :: "('ev \<Rightarrow> u16 \<Rightarrow> 'tv \<Rightarrow> 'r) \<Rightarrow> 'ev \<Rightarrow> 'tv \<Rightarrow> 'r" where
  "evsignal_pending event_pending ev tv = event_pending ev EV_SIGNAL tv"

definition evtimer_add :: "('ev \<Rightarrow> 'tv \<Rightarrow> 'r) \<Rightarrow> 'ev \<Rightarrow> 'tv \<Rightarrow> 'r" where
  "evtimer_add event_add ev tv = event_add ev tv"

definition evtimer_del :: "('ev \<Rightarrow> 'r) \<Rightarrow> 'ev \<Rightarrow> 'r" where
  "evtimer_del event_del ev = event_del ev"

definition evtimer_initialized :: "('ev \<Rightarrow> 'r) \<Rightarrow> 'ev \<Rightarrow> 'r" where
  "evtimer_initialized event_initialized ev = event_initialized ev"

definition evsignal_add :: "('ev \<Rightarrow> 'tv \<Rightarrow> 'r) \<Rightarrow> 'ev \<Rightarrow> 'tv \<Rightarrow> 'r" where
  "evsignal_add event_add ev tv = event_add ev tv"

definition evsignal_del :: "('ev \<Rightarrow> 'r) \<Rightarrow> 'ev \<Rightarrow> 'r" where
  "evsignal_del event_del ev = event_del ev"

definition evsignal_initialized :: "('ev \<Rightarrow> 'r) \<Rightarrow> 'ev \<Rightarrow> 'r" where
  "evsignal_initialized event_initialized ev = event_initialized ev"

text \<open>The descriptor of a signal event is the signal, cast to \<open>int\<close>; \<open>event_get_fd\<close> has the width of \<open>evutil_socket_t\<close>.\<close>

definition event_get_signal :: "('ev \<Rightarrow> 'fd::len word) \<Rightarrow> 'ev \<Rightarrow> int" where
  "event_get_signal event_get_fd ev = sint (scast (event_get_fd ev) :: u32)"

text \<open>The older macros for events without a base.\<close>

definition evtimer_set :: "('ev \<Rightarrow> int \<Rightarrow> u16 \<Rightarrow> 'cb \<Rightarrow> 'arg \<Rightarrow> 'r) \<Rightarrow> 'ev \<Rightarrow> 'cb \<Rightarrow> 'arg \<Rightarrow> 'r" where
  "evtimer_set event_set ev cb arg = event_set ev (- 1) 0 cb arg"

definition evsignal_set :: "('ev \<Rightarrow> int \<Rightarrow> u16 \<Rightarrow> 'cb \<Rightarrow> 'arg \<Rightarrow> 'r) \<Rightarrow> 'ev \<Rightarrow> int \<Rightarrow> 'cb \<Rightarrow> 'arg \<Rightarrow> 'r" where
  "evsignal_set event_set ev x cb arg = event_set ev x (EV_SIGNAL OR EV_PERSIST) cb arg"

definition timeout_set :: "('ev \<Rightarrow> int \<Rightarrow> u16 \<Rightarrow> 'cb \<Rightarrow> 'arg \<Rightarrow> 'r) \<Rightarrow> 'ev \<Rightarrow> 'cb \<Rightarrow> 'arg \<Rightarrow> 'r" where
  "timeout_set event_set ev cb arg = event_set ev (- 1) 0 cb arg"

definition timeout_pending :: "('ev \<Rightarrow> u16 \<Rightarrow> 'tv \<Rightarrow> 'r) \<Rightarrow> 'ev \<Rightarrow> 'tv \<Rightarrow> 'r" where
  "timeout_pending event_pending ev tv = event_pending ev EV_TIMEOUT tv"

definition signal_set :: "('ev \<Rightarrow> int \<Rightarrow> u16 \<Rightarrow> 'cb \<Rightarrow> 'arg \<Rightarrow> 'r) \<Rightarrow> 'ev \<Rightarrow> int \<Rightarrow> 'cb \<Rightarrow> 'arg \<Rightarrow> 'r" where
  "signal_set event_set ev x cb arg = event_set ev x (EV_SIGNAL OR EV_PERSIST) cb arg"

definition signal_pending :: "('ev \<Rightarrow> u16 \<Rightarrow> 'tv \<Rightarrow> 'r) \<Rightarrow> 'ev \<Rightarrow> 'tv \<Rightarrow> 'r" where
  "signal_pending event_pending ev tv = event_pending ev EV_SIGNAL tv"

definition timeout_add :: "('ev \<Rightarrow> 'tv \<Rightarrow> 'r) \<Rightarrow> 'ev \<Rightarrow> 'tv \<Rightarrow> 'r" where
  "timeout_add event_add ev tv = event_add ev tv"

definition timeout_del :: "('ev \<Rightarrow> 'r) \<Rightarrow> 'ev \<Rightarrow> 'r" where
  "timeout_del event_del ev = event_del ev"

definition timeout_initialized :: "('ev \<Rightarrow> 'r) \<Rightarrow> 'ev \<Rightarrow> 'r" where
  "timeout_initialized event_initialized ev = event_initialized ev"

definition signal_add :: "('ev \<Rightarrow> 'tv \<Rightarrow> 'r) \<Rightarrow> 'ev \<Rightarrow> 'tv \<Rightarrow> 'r" where
  "signal_add event_add ev tv = event_add ev tv"

definition signal_del :: "('ev \<Rightarrow> 'r) \<Rightarrow> 'ev \<Rightarrow> 'r" where
  "signal_del event_del ev = event_del ev"

definition signal_initialized :: "('ev \<Rightarrow> 'r) \<Rightarrow> 'ev \<Rightarrow> 'r" where
  "signal_initialized event_initialized ev = event_initialized ev"

definition EVENT_FD :: "('ev \<Rightarrow> 'fd::len word) \<Rightarrow> 'ev \<Rightarrow> int" where
  "EVENT_FD event_get_fd ev = sint (scast (event_get_fd ev) :: u32)"

definition EVENT_SIGNAL :: "('ev \<Rightarrow> 'fd::len word) \<Rightarrow> 'ev \<Rightarrow> int" where
  "EVENT_SIGNAL event_get_fd ev = event_get_signal event_get_fd ev"

section \<open>The event structure\<close>

definition EVLIST_TIMEOUT :: u16 where "EVLIST_TIMEOUT = 0x01"
definition EVLIST_INSERTED :: u16 where "EVLIST_INSERTED = 0x02"
definition EVLIST_SIGNAL :: u16 where "EVLIST_SIGNAL = 0x04"
definition EVLIST_ACTIVE :: u16 where "EVLIST_ACTIVE = 0x08"
definition EVLIST_INTERNAL :: u16 where "EVLIST_INTERNAL = 0x10"
definition EVLIST_INIT :: u16 where "EVLIST_INIT = 0x80"
definition EVLIST_ALL :: u16 where "EVLIST_ALL = 0xf000 OR 0x9f"

type_synonym address = "nat option"

record tailq_entry =
  tqe_next :: address
  tqe_prev :: address

record tailq_head =
  tqh_first :: address
  tqh_last :: address

datatype timeout_pos = Ev_Next_With_Common_Timeout tailq_entry | Min_Heap_Idx int

datatype ev_use = Ev_Io tailq_entry timeval | Ev_Signal tailq_entry u16 address

record event_struct =
  ev_active_next :: tailq_entry
  ev_next :: tailq_entry
  ev_timeout_pos :: timeout_pos
  ev_fd :: int
  ev_base :: address
  ev_union :: ev_use
  ev_events :: u16
  ev_res :: u16
  ev_flags :: u16
  ev_pri :: byte
  ev_closure :: byte
  ev_timeout :: timeval
  ev_callback :: address
  ev_arg :: address

record evkeyval =
  kv_next :: tailq_entry
  kv_key :: address
  kv_value :: address

section \<open>Buffered events\<close>

definition BEV_EVENT_READING :: u16 where "BEV_EVENT_READING = 0x01"
definition BEV_EVENT_WRITING :: u16 where "BEV_EVENT_WRITING = 0x02"
definition BEV_EVENT_EOF :: u16 where "BEV_EVENT_EOF = 0x10"
definition BEV_EVENT_ERROR :: u16 where "BEV_EVENT_ERROR = 0x20"
definition BEV_EVENT_TIMEOUT :: u16 where "BEV_EVENT_TIMEOUT = 0x40"
definition BEV_EVENT_CONNECTED :: u16 where "BEV_EVENT_CONNECTED = 0x80"

definition EVBUFFER_READ :: u16 where "EVBUFFER_READ = BEV_EVENT_READING"
definition EVBUFFER_WRITE :: u16 where "EVBUFFER_WRITE = BEV_EVENT_WRITING"
definition EVBUFFER_EOF :: u16 where "EVBUFFER_EOF = BEV_EVENT_EOF"
definition EVBUFFER_ERROR :: u16 where "EVBUFFER_ERROR = BEV_EVENT_ERROR"
definition EVBUFFER_TIMEOUT :: u16 where "EVBUFFER_TIMEOUT = BEV_EVENT_TIMEOUT"

definition EVBUFFER_INPUT :: "('bev \<Rightarrow> 'buf) \<Rightarrow> 'bev \<Rightarrow> 'buf" where
  "EVBUFFER_INPUT bufferevent_get_input x = bufferevent_get_input x"

definition EVBUFFER_OUTPUT :: "('bev \<Rightarrow> 'buf) \<Rightarrow> 'bev \<Rightarrow> 'buf" where
  "EVBUFFER_OUTPUT bufferevent_get_output x = bufferevent_get_output x"

text \<open>All the data of a buffer: a negative size makes \<open>evbuffer_pullup\<close> linearise everything.\<close>

definition EVBUFFER_LENGTH :: "('buf \<Rightarrow> nat) \<Rightarrow> 'buf \<Rightarrow> nat" where
  "EVBUFFER_LENGTH evbuffer_get_length x = evbuffer_get_length x"

definition EVBUFFER_DATA :: "('buf \<Rightarrow> int \<Rightarrow> 'r) \<Rightarrow> 'buf \<Rightarrow> 'r" where
  "EVBUFFER_DATA evbuffer_pullup x = evbuffer_pullup x (- 1)"

definition EVBUFFER_FLAG_DRAINS_TO_FD :: "64 word" where "EVBUFFER_FLAG_DRAINS_TO_FD = 1"
definition EVBUFFER_CB_ENABLED :: u32 where "EVBUFFER_CB_ENABLED = 1"
definition EV_RATE_LIMIT_MAX :: "platform \<Rightarrow> int option" where "EV_RATE_LIMIT_MAX = EV_SSIZE_MAX"

datatype bufferevent_options =
  BEV_OPT_CLOSE_ON_FREE | BEV_OPT_THREADSAFE | BEV_OPT_DEFER_CALLBACKS | BEV_OPT_UNLOCK_CALLBACKS

fun option_bit :: "bufferevent_options \<Rightarrow> u32" where
  "option_bit BEV_OPT_CLOSE_ON_FREE = push_bit 0 1"
| "option_bit BEV_OPT_THREADSAFE = push_bit 1 1"
| "option_bit BEV_OPT_DEFER_CALLBACKS = push_bit 2 1"
| "option_bit BEV_OPT_UNLOCK_CALLBACKS = push_bit 3 1"

datatype bufferevent_flush_mode = BEV_NORMAL | BEV_FLUSH | BEV_FINISHED

datatype bufferevent_filter_result = BEV_OK | BEV_NEED_MORE | BEV_ERROR

datatype bufferevent_ssl_state = BUFFEREVENT_SSL_OPEN | BUFFEREVENT_SSL_CONNECTING | BUFFEREVENT_SSL_ACCEPTING

record event_watermark =
  wm_low :: nat
  wm_high :: nat

record bufferevent =
  bev_base :: address
  bev_ops :: address
  bev_ev_read :: event_struct
  bev_ev_write :: event_struct
  bev_input :: address
  bev_output :: address
  bev_wm_read :: event_watermark
  bev_wm_write :: event_watermark
  bev_readcb :: address
  bev_writecb :: address
  bev_errorcb :: address
  bev_cbarg :: address
  bev_timeout_read :: timeval
  bev_timeout_write :: timeval
  bev_enabled :: u16

record evbuffer_iovec =
  iov_base :: address
  iov_len :: nat

datatype evbuffer_eol_style = EVBUFFER_EOL_ANY | EVBUFFER_EOL_CRLF | EVBUFFER_EOL_CRLF_STRICT | EVBUFFER_EOL_LF

datatype evbuffer_ptr_how = EVBUFFER_PTR_SET | EVBUFFER_PTR_ADD

record evbuffer_ptr =
  ptr_pos :: int
  ptr_chain :: address
  ptr_pos_in_chain :: nat

record evbuffer_cb_info =
  cb_orig_size :: nat
  cb_n_added :: nat
  cb_n_deleted :: nat

definition LEV_OPT_LEAVE_SOCKETS_BLOCKING :: u32 where "LEV_OPT_LEAVE_SOCKETS_BLOCKING = push_bit 0 1"
definition LEV_OPT_CLOSE_ON_FREE :: u32 where "LEV_OPT_CLOSE_ON_FREE = push_bit 1 1"
definition LEV_OPT_CLOSE_ON_EXEC :: u32 where "LEV_OPT_CLOSE_ON_EXEC = push_bit 2 1"
definition LEV_OPT_REUSEABLE :: u32 where "LEV_OPT_REUSEABLE = push_bit 3 1"
definition LEV_OPT_THREADSAFE :: u32 where "LEV_OPT_THREADSAFE = push_bit 4 1"

section \<open>HTTP\<close>

definition HTTP_OK :: int where "HTTP_OK = 200"
definition HTTP_NOCONTENT :: int where "HTTP_NOCONTENT = 204"
definition HTTP_MOVEPERM :: int where "HTTP_MOVEPERM = 301"
definition HTTP_MOVETEMP :: int where "HTTP_MOVETEMP = 302"
definition HTTP_NOTMODIFIED :: int where "HTTP_NOTMODIFIED = 304"
definition HTTP_BADREQUEST :: int where "HTTP_BADREQUEST = 400"
definition HTTP_NOTFOUND :: int where "HTTP_NOTFOUND = 404"
definition HTTP_BADMETHOD :: int where "HTTP_BADMETHOD = 405"
definition HTTP_ENTITYTOOLARGE :: int where "HTTP_ENTITYTOOLARGE = 413"
definition HTTP_EXPECTATIONFAILED :: int where "HTTP_EXPECTATIONFAILED = 417"
definition HTTP_INTERNAL :: int where "HTTP_INTERNAL = 500"
definition HTTP_NOTIMPLEMENTED :: int where "HTTP_NOTIMPLEMENTED = 501"
definition HTTP_SERVUNAVAIL :: int where "HTTP_SERVUNAVAIL = 503"

datatype evhttp_cmd_type =
    EVHTTP_REQ_GET | EVHTTP_REQ_POST | EVHTTP_REQ_HEAD | EVHTTP_REQ_PUT | EVHTTP_REQ_DELETE
  | EVHTTP_REQ_OPTIONS | EVHTTP_REQ_TRACE | EVHTTP_REQ_CONNECT | EVHTTP_REQ_PATCH

fun cmd_bit :: "evhttp_cmd_type \<Rightarrow> u16" where
  "cmd_bit EVHTTP_REQ_GET = push_bit 0 1"
| "cmd_bit EVHTTP_REQ_POST = push_bit 1 1"
| "cmd_bit EVHTTP_REQ_HEAD = push_bit 2 1"
| "cmd_bit EVHTTP_REQ_PUT = push_bit 3 1"
| "cmd_bit EVHTTP_REQ_DELETE = push_bit 4 1"
| "cmd_bit EVHTTP_REQ_OPTIONS = push_bit 5 1"
| "cmd_bit EVHTTP_REQ_TRACE = push_bit 6 1"
| "cmd_bit EVHTTP_REQ_CONNECT = push_bit 7 1"
| "cmd_bit EVHTTP_REQ_PATCH = push_bit 8 1"

datatype evhttp_request_kind = EVHTTP_REQUEST | EVHTTP_RESPONSE

definition EVHTTP_URI_NONCONFORMANT :: u32 where "EVHTTP_URI_NONCONFORMANT = 0x01"

definition EVHTTP_REQ_OWN_CONNECTION :: u32 where "EVHTTP_REQ_OWN_CONNECTION = 0x0001"
definition EVHTTP_PROXY_REQUEST :: u32 where "EVHTTP_PROXY_REQUEST = 0x0002"
definition EVHTTP_USER_OWNED :: u32 where "EVHTTP_USER_OWNED = 0x0004"
definition EVHTTP_REQ_DEFER_FREE :: u32 where "EVHTTP_REQ_DEFER_FREE = 0x0008"
definition EVHTTP_REQ_NEEDS_FREE :: u32 where "EVHTTP_REQ_NEEDS_FREE = 0x0010"

record evhttp_request =
  req_next :: tailq_entry
  req_evcon :: address
  req_flags :: u32
  req_input_headers :: address
  req_output_headers :: address
  req_remote_host :: address
  req_remote_port :: u16
  req_host_cache :: address
  req_kind :: evhttp_request_kind
  req_type :: evhttp_cmd_type
  req_headers_size :: nat
  req_body_size :: nat
  req_uri :: address
  req_uri_elems :: address
  req_major :: byte
  req_minor :: byte
  req_response_code :: int
  req_response_code_line :: address
  req_input_buffer :: address
  req_ntoread :: "64 word"
  req_chunked :: bool
  req_userdone :: bool
  req_output_buffer :: address
  req_cb :: address
  req_cb_arg :: address
  req_chunk_cb :: address

section \<open>Remote procedure calls\<close>

definition EVRPC_STATUS_ERR_NONE :: int where "EVRPC_STATUS_ERR_NONE = 0"
definition EVRPC_STATUS_ERR_TIMEOUT :: int where "EVRPC_STATUS_ERR_TIMEOUT = 1"
definition EVRPC_STATUS_ERR_BADPAYLOAD :: int where "EVRPC_STATUS_ERR_BADPAYLOAD = 2"
definition EVRPC_STATUS_ERR_UNSTARTED :: int where "EVRPC_STATUS_ERR_UNSTARTED = 3"
definition EVRPC_STATUS_ERR_HOOKABORTED :: int where "EVRPC_STATUS_ERR_HOOKABORTED = 4"

record evrpc_status =
  rpc_error :: int
  rpc_http_req :: address

record evrpc =
  rpc_next :: tailq_entry
  rpc_uri :: address
  rpc_request_new :: address
  rpc_request_new_arg :: address
  rpc_request_free :: address
  rpc_request_unmarshal :: address
  rpc_reply_new :: address
  rpc_reply_new_arg :: address
  rpc_reply_free :: address
  rpc_reply_complete :: address
  rpc_reply_marshal :: address
  rpc_cb :: address
  rpc_cb_arg :: address
  rpc_base :: address

record evrpc_req =
  rq_hook_meta :: address
  rq_request :: address
  rq_reply :: address
  rq_rpc :: address
  rq_http_req :: address
  rq_rpc_data :: address

datatype EVRPC_HOOK_TYPE = EVRPC_INPUT | EVRPC_OUTPUT

datatype EVRPC_HOOK_RESULT = EVRPC_TERMINATE | EVRPC_CONTINUE | EVRPC_PAUSE

fun hook_result :: "EVRPC_HOOK_RESULT \<Rightarrow> int" where
  "hook_result EVRPC_TERMINATE = - 1"
| "hook_result EVRPC_CONTINUE = 0"
| "hook_result EVRPC_PAUSE = 1"

section \<open>Names\<close>

definition DNS_ERR_NONE :: int where "DNS_ERR_NONE = 0"
definition DNS_ERR_FORMAT :: int where "DNS_ERR_FORMAT = 1"
definition DNS_ERR_SERVERFAILED :: int where "DNS_ERR_SERVERFAILED = 2"
definition DNS_ERR_NOTEXIST :: int where "DNS_ERR_NOTEXIST = 3"
definition DNS_ERR_NOTIMPL :: int where "DNS_ERR_NOTIMPL = 4"
definition DNS_ERR_REFUSED :: int where "DNS_ERR_REFUSED = 5"
definition DNS_ERR_TRUNCATED :: int where "DNS_ERR_TRUNCATED = 65"
definition DNS_ERR_UNKNOWN :: int where "DNS_ERR_UNKNOWN = 66"
definition DNS_ERR_TIMEOUT :: int where "DNS_ERR_TIMEOUT = 67"
definition DNS_ERR_SHUTDOWN :: int where "DNS_ERR_SHUTDOWN = 68"
definition DNS_ERR_CANCEL :: int where "DNS_ERR_CANCEL = 69"
definition DNS_ERR_NODATA :: int where "DNS_ERR_NODATA = 70"

definition DNS_OPTION_SEARCH :: u32 where "DNS_OPTION_SEARCH = 1"
definition DNS_OPTION_NAMESERVERS :: u32 where "DNS_OPTION_NAMESERVERS = 2"
definition DNS_OPTION_MISC :: u32 where "DNS_OPTION_MISC = 4"
definition DNS_OPTION_HOSTSFILE :: u32 where "DNS_OPTION_HOSTSFILE = 8"
definition DNS_OPTIONS_ALL :: u32 where "DNS_OPTIONS_ALL = 15"

definition DNS_IPv4_A :: int where "DNS_IPv4_A = 1"
definition DNS_PTR :: int where "DNS_PTR = 2"
definition DNS_IPv6_AAAA :: int where "DNS_IPv6_AAAA = 3"
definition DNS_QUERY_NO_SEARCH :: int where "DNS_QUERY_NO_SEARCH = 1"
definition DNS_NO_SEARCH :: int where "DNS_NO_SEARCH = DNS_QUERY_NO_SEARCH"

definition EVDNS_ANSWER_SECTION :: int where "EVDNS_ANSWER_SECTION = 0"
definition EVDNS_AUTHORITY_SECTION :: int where "EVDNS_AUTHORITY_SECTION = 1"
definition EVDNS_ADDITIONAL_SECTION :: int where "EVDNS_ADDITIONAL_SECTION = 2"
definition EVDNS_TYPE_A :: int where "EVDNS_TYPE_A = 1"
definition EVDNS_TYPE_NS :: int where "EVDNS_TYPE_NS = 2"
definition EVDNS_TYPE_CNAME :: int where "EVDNS_TYPE_CNAME = 5"
definition EVDNS_TYPE_SOA :: int where "EVDNS_TYPE_SOA = 6"
definition EVDNS_TYPE_PTR :: int where "EVDNS_TYPE_PTR = 12"
definition EVDNS_TYPE_MX :: int where "EVDNS_TYPE_MX = 15"
definition EVDNS_TYPE_TXT :: int where "EVDNS_TYPE_TXT = 16"
definition EVDNS_TYPE_AAAA :: int where "EVDNS_TYPE_AAAA = 28"
definition EVDNS_QTYPE_AXFR :: int where "EVDNS_QTYPE_AXFR = 252"
definition EVDNS_QTYPE_ALL :: int where "EVDNS_QTYPE_ALL = 255"
definition EVDNS_CLASS_INET :: int where "EVDNS_CLASS_INET = 1"
definition EVDNS_FLAGS_AA :: u32 where "EVDNS_FLAGS_AA = 0x400"
definition EVDNS_FLAGS_RD :: u32 where "EVDNS_FLAGS_RD = 0x080"

record evdns_server_question =
  q_type :: int
  q_class :: int
  q_name :: "byte list"

record evdns_server_request =
  r_flags :: int
  r_nquestions :: int
  r_questions :: address

section \<open>Locks\<close>

definition EVTHREAD_WRITE :: u32 where "EVTHREAD_WRITE = 0x04"
definition EVTHREAD_READ :: u32 where "EVTHREAD_READ = 0x08"
definition EVTHREAD_TRY :: u32 where "EVTHREAD_TRY = 0x10"
definition EVTHREAD_LOCKTYPE_RECURSIVE :: u32 where "EVTHREAD_LOCKTYPE_RECURSIVE = 1"
definition EVTHREAD_LOCKTYPE_READWRITE :: u32 where "EVTHREAD_LOCKTYPE_READWRITE = 2"
definition EVTHREAD_LOCK_API_VERSION :: int where "EVTHREAD_LOCK_API_VERSION = 1"
definition EVTHREAD_CONDITION_API_VERSION :: int where "EVTHREAD_CONDITION_API_VERSION = 1"

text \<open>What a threading library hands over: functions on locks and conditions, which are addresses, that change
  its own state \<open>'t\<close>.\<close>

record 't evthread_lock_callbacks =
  lock_api_version :: int
  supported_locktypes :: u32
  lock_alloc :: "u32 \<Rightarrow> 't \<Rightarrow> address \<times> 't"
  lock_free :: "address \<Rightarrow> u32 \<Rightarrow> 't \<Rightarrow> 't"
  lock_lock :: "u32 \<Rightarrow> address \<Rightarrow> 't \<Rightarrow> int \<times> 't"
  lock_unlock :: "u32 \<Rightarrow> address \<Rightarrow> 't \<Rightarrow> int \<times> 't"

record 't evthread_condition_callbacks =
  condition_api_version :: int
  alloc_condition :: "u32 \<Rightarrow> 't \<Rightarrow> address \<times> 't"
  free_condition :: "address \<Rightarrow> 't \<Rightarrow> 't"
  signal_condition :: "address \<Rightarrow> int \<Rightarrow> 't \<Rightarrow> int \<times> 't"
  wait_condition :: "address \<Rightarrow> address \<Rightarrow> timeval option \<Rightarrow> 't \<Rightarrow> int \<times> 't"

section \<open>The flags\<close>

text \<open>Sets of flags that are combined with \<open>|\<close> and tested with \<open>&\<close>.\<close>

definition flag_families :: "u32 list list" where
  "flag_families =
     [map ucast [EV_TIMEOUT, EV_READ, EV_WRITE, EV_SIGNAL, EV_PERSIST, EV_ET],
      map ucast [EVLIST_TIMEOUT, EVLIST_INSERTED, EVLIST_SIGNAL, EVLIST_ACTIVE, EVLIST_INTERNAL, EVLIST_INIT],
      map ucast [BEV_EVENT_READING, BEV_EVENT_WRITING, BEV_EVENT_EOF, BEV_EVENT_ERROR, BEV_EVENT_TIMEOUT, BEV_EVENT_CONNECTED],
      map feature_bit [EV_FEATURE_ET, EV_FEATURE_O1, EV_FEATURE_FDS],
      map config_bit [EVENT_BASE_FLAG_NOLOCK, EVENT_BASE_FLAG_IGNORE_ENV, EVENT_BASE_FLAG_STARTUP_IOCP,
        EVENT_BASE_FLAG_NO_CACHE_TIME, EVENT_BASE_FLAG_EPOLL_USE_CHANGELIST],
      map option_bit [BEV_OPT_CLOSE_ON_FREE, BEV_OPT_THREADSAFE, BEV_OPT_DEFER_CALLBACKS, BEV_OPT_UNLOCK_CALLBACKS],
      map (\<lambda>c. ucast (cmd_bit c)) [EVHTTP_REQ_GET, EVHTTP_REQ_POST, EVHTTP_REQ_HEAD, EVHTTP_REQ_PUT, EVHTTP_REQ_DELETE,
        EVHTTP_REQ_OPTIONS, EVHTTP_REQ_TRACE, EVHTTP_REQ_CONNECT, EVHTTP_REQ_PATCH],
      [EVHTTP_REQ_OWN_CONNECTION, EVHTTP_PROXY_REQUEST, EVHTTP_USER_OWNED, EVHTTP_REQ_DEFER_FREE, EVHTTP_REQ_NEEDS_FREE],
      [LEV_OPT_LEAVE_SOCKETS_BLOCKING, LEV_OPT_CLOSE_ON_FREE, LEV_OPT_CLOSE_ON_EXEC, LEV_OPT_REUSEABLE, LEV_OPT_THREADSAFE],
      [DNS_OPTION_SEARCH, DNS_OPTION_NAMESERVERS, DNS_OPTION_MISC, DNS_OPTION_HOSTSFILE],
      [EVTHREAD_WRITE, EVTHREAD_READ, EVTHREAD_TRY],
      [EVDNS_FLAGS_AA, EVDNS_FLAGS_RD],
      [EVTHREAD_LOCKTYPE_RECURSIVE, EVTHREAD_LOCKTYPE_READWRITE]]"

definition any_of :: "'a::len word list \<Rightarrow> 'a word" where
  "any_of fs = foldr (OR) fs 0"

fun disjoint_flags :: "'a::len word list \<Rightarrow> bool" where
  "disjoint_flags [] = True"
| "disjoint_flags (f # fs) = (f \<noteq> 0 \<and> list_all (\<lambda>g. f AND g = 0) fs \<and> disjoint_flags fs)"

lemma disjoint_flagsD: "disjoint_flags fam \<Longrightarrow> f \<in> set fam \<Longrightarrow> g \<in> set fam \<Longrightarrow> f \<noteq> g \<Longrightarrow> f AND g = 0"
  by (induction fam) (auto simp: list_all_iff and.commute)

lemma disjoint_flags_nonzero: "disjoint_flags fam \<Longrightarrow> f \<in> set fam \<Longrightarrow> f \<noteq> 0"
  by (induction fam) auto

lemma or_zero_iff: "a OR b = 0 \<longleftrightarrow> a = 0 \<and> b = (0 :: 'a::len word)"
  by (auto simp: bit_eq_iff bit_or_iff)

lemma and_any_of: "f AND any_of fs = 0 \<longleftrightarrow> (\<forall>g \<in> set fs. f AND g = 0)"
  by (induction fs) (auto simp: any_of_def bit.conj_disj_distrib or_zero_iff)

lemma families_disjoint: "list_all disjoint_flags flag_families"
  by code_simp

text \<open>In each of the sets of flags, a word made with \<open>|\<close> from some of them passes the test for a flag
  exactly when that flag is one of them.\<close>

theorem flags_are_independent:
  assumes "fam \<in> set flag_families" and "set fs \<subseteq> set fam" and "f \<in> set fam"
  shows "f AND any_of fs \<noteq> 0 \<longleftrightarrow> f \<in> set fs"
proof -
  have d: "disjoint_flags fam" using families_disjoint assms(1) by (simp add: list_all_iff)
  have "f AND f = f" by simp
  then show ?thesis
    unfolding and_any_of using disjoint_flagsD [OF d assms(3)] disjoint_flags_nonzero [OF d assms(3)] assms(2) by fastforce
qed

theorem flags_are_independent_witness:
  "ucast EV_READ AND any_of [ucast EV_READ, ucast EV_PERSIST :: u32] \<noteq> 0 \<and>
   ucast EV_WRITE AND any_of [ucast EV_READ, ucast EV_PERSIST :: u32] = 0"
proof -
  let ?fam = "map ucast [EV_TIMEOUT, EV_READ, EV_WRITE, EV_SIGNAL, EV_PERSIST, EV_ET] :: u32 list"
  have fam: "?fam \<in> set flag_families" by (simp add: flag_families_def)
  have sub: "set [ucast EV_READ, ucast EV_PERSIST] \<subseteq> set ?fam" by simp
  have w: "ucast EV_WRITE \<notin> set [ucast EV_READ, ucast EV_PERSIST :: u32]" by code_simp
  show ?thesis
    using flags_are_independent [OF fam sub, of "ucast EV_READ"] flags_are_independent [OF fam sub, of "ucast EV_WRITE"] w by simp
qed

text \<open>The set of all states an event can be in (\<open>EVLIST_ALL\<close>) has every state flag, and the union of
  the DNS options is \<open>DNS_OPTIONS_ALL\<close>.\<close>

theorem masks_cover_their_flags:
  "any_of [EVLIST_TIMEOUT, EVLIST_INSERTED, EVLIST_SIGNAL, EVLIST_ACTIVE, EVLIST_INTERNAL, EVLIST_INIT] AND EVLIST_ALL =
     any_of [EVLIST_TIMEOUT, EVLIST_INSERTED, EVLIST_SIGNAL, EVLIST_ACTIVE, EVLIST_INTERNAL, EVLIST_INIT] \<and>
   any_of [DNS_OPTION_SEARCH, DNS_OPTION_NAMESERVERS, DNS_OPTION_MISC, DNS_OPTION_HOSTSFILE] = DNS_OPTIONS_ALL"
  by code_simp

end
