(* ===== verification/Event_Rpc.thy ===== *)
theory Event_Rpc
  imports Event_Api
begin

text \<open>
  The macros of \<open>include/event2/rpc.h\<close>, \<open>rpc_compat.h\<close> and \<open>tag_compat.h\<close>. They are calls through the
  structures and functions that \<open>event_rpcgen.py\<close> generates for an application, and of functions of
  the library; all of those are parameters. What such a call returns and what it changes is the
  result type \<open>'r\<close>.
\<close>

section \<open>Members of a message\<close>

text \<open>\<open>base\<close> is the table of access functions a message points to, \<open>member_assign\<close> and the like the entries of
  the table for the member.\<close>

definition EVTAG_HAS :: "('m \<Rightarrow> int) \<Rightarrow> 'm \<Rightarrow> bool" where
  "EVTAG_HAS member_set msg \<longleftrightarrow> member_set msg = 1"

definition EVTAG_ASSIGN :: "('m \<Rightarrow> 'base) \<Rightarrow> ('base \<Rightarrow> 'm \<Rightarrow> 'v \<Rightarrow> 'r) \<Rightarrow> 'm \<Rightarrow> 'v \<Rightarrow> 'r" where
  "EVTAG_ASSIGN base member_assign msg v = member_assign (base msg) msg v"

definition EVTAG_ASSIGN_WITH_LEN :: "('m \<Rightarrow> 'base) \<Rightarrow> ('base \<Rightarrow> 'm \<Rightarrow> 'v \<Rightarrow> u32 \<Rightarrow> 'r) \<Rightarrow> 'm \<Rightarrow> 'v \<Rightarrow> u32 \<Rightarrow> 'r" where
  "EVTAG_ASSIGN_WITH_LEN base member_assign msg v n = member_assign (base msg) msg v n"

definition EVTAG_GET :: "('m \<Rightarrow> 'base) \<Rightarrow> ('base \<Rightarrow> 'm \<Rightarrow> address \<Rightarrow> 'r) \<Rightarrow> 'm \<Rightarrow> address \<Rightarrow> 'r" where
  "EVTAG_GET base member_get msg pvalue = member_get (base msg) msg pvalue"

definition EVTAG_GET_WITH_LEN ::
  "('m \<Rightarrow> 'base) \<Rightarrow> ('base \<Rightarrow> 'm \<Rightarrow> address \<Rightarrow> address \<Rightarrow> 'r) \<Rightarrow> 'm \<Rightarrow> address \<Rightarrow> address \<Rightarrow> 'r" where
  "EVTAG_GET_WITH_LEN base member_get msg pvalue plen = member_get (base msg) msg pvalue plen"

definition EVTAG_ARRAY_ADD_VALUE :: "('m \<Rightarrow> 'base) \<Rightarrow> ('base \<Rightarrow> 'm \<Rightarrow> 'v \<Rightarrow> 'r) \<Rightarrow> 'm \<Rightarrow> 'v \<Rightarrow> 'r" where
  "EVTAG_ARRAY_ADD_VALUE base member_add msg v = member_add (base msg) msg v"

definition EVTAG_ARRAY_ADD :: "('m \<Rightarrow> 'base) \<Rightarrow> ('base \<Rightarrow> 'm \<Rightarrow> 'r) \<Rightarrow> 'm \<Rightarrow> 'r" where
  "EVTAG_ARRAY_ADD base member_add msg = member_add (base msg) msg"

definition EVTAG_ARRAY_GET :: "('m \<Rightarrow> 'base) \<Rightarrow> ('base \<Rightarrow> 'm \<Rightarrow> int \<Rightarrow> address \<Rightarrow> 'r) \<Rightarrow> 'm \<Rightarrow> int \<Rightarrow> address \<Rightarrow> 'r" where
  "EVTAG_ARRAY_GET base member_get msg offset pvalue = member_get (base msg) msg offset pvalue"

definition EVTAG_ARRAY_LEN :: "('m \<Rightarrow> int) \<Rightarrow> 'm \<Rightarrow> int" where
  "EVTAG_ARRAY_LEN member_length msg = member_length msg"

text \<open>The older accessors take any number of further arguments, here one; they exist for GNU C only.\<close>

definition EVTAG_ASSIGN_compat :: "('m \<Rightarrow> 'base) \<Rightarrow> ('base \<Rightarrow> 'm \<Rightarrow> 'args \<Rightarrow> 'r) \<Rightarrow> 'm \<Rightarrow> 'args \<Rightarrow> 'r" where
  "EVTAG_ASSIGN_compat base member_assign msg args = member_assign (base msg) msg args"

definition EVTAG_GET_compat :: "('m \<Rightarrow> 'base) \<Rightarrow> ('base \<Rightarrow> 'm \<Rightarrow> 'args \<Rightarrow> 'r) \<Rightarrow> 'm \<Rightarrow> 'args \<Rightarrow> 'r" where
  "EVTAG_GET_compat base member_get msg args = member_get (base msg) msg args"

definition EVTAG_ADD_compat :: "('m \<Rightarrow> 'base) \<Rightarrow> ('base \<Rightarrow> 'm \<Rightarrow> 'args \<Rightarrow> 'r) \<Rightarrow> 'm \<Rightarrow> 'args \<Rightarrow> 'r" where
  "EVTAG_ADD_compat base member_add msg args = member_add (base msg) msg args"

definition EVTAG_LEN :: "('m \<Rightarrow> int) \<Rightarrow> 'm \<Rightarrow> int" where
  "EVTAG_LEN member_length msg = member_length msg"

definition encode_int :: "('buf \<Rightarrow> u32 \<Rightarrow> 'r) \<Rightarrow> 'buf \<Rightarrow> u32 \<Rightarrow> 'r" where
  "encode_int evtag_encode_int evbuf number = evtag_encode_int evbuf number"

definition encode_int64 :: "('buf \<Rightarrow> 64 word \<Rightarrow> 'r) \<Rightarrow> 'buf \<Rightarrow> 64 word \<Rightarrow> 'r" where
  "encode_int64 evtag_encode_int64 evbuf number = evtag_encode_int64 evbuf number"

section \<open>Remote procedure calls\<close>

text \<open>What is generated for a structure that an RPC sends or receives.\<close>

record generated =
  gen_new :: address
  gen_free :: address
  gen_clear :: address
  gen_complete :: address
  gen_marshal :: address
  gen_unmarshal :: address

text \<open>\<open>#rpcname\<close> is the name as a string.\<close>

definition EVRPC_MAKE_CTX ::
  "(address \<Rightarrow> address \<Rightarrow> address \<Rightarrow> string \<Rightarrow> address \<Rightarrow> address \<Rightarrow> address \<Rightarrow> address \<Rightarrow> address \<Rightarrow> 'w \<Rightarrow> address \<times> 'w)
   \<Rightarrow> string \<Rightarrow> generated \<Rightarrow> generated \<Rightarrow> address \<Rightarrow> address \<Rightarrow> address \<Rightarrow> address \<Rightarrow> address \<Rightarrow> 'w \<Rightarrow> address \<times> 'w" where
  "EVRPC_MAKE_CTX evrpc_make_request_ctx rpcname reqstruct rplystruct pool request reply cb cbarg =
     evrpc_make_request_ctx pool request reply rpcname (gen_marshal reqstruct) (gen_clear rplystruct) (gen_unmarshal rplystruct) cb cbarg"

text \<open>The function \<open>evrpc_send_request_\<close> that \<open>EVRPC_GENERATE\<close> defines for a name.\<close>

definition EVRPC_GENERATE ::
  "(address \<Rightarrow> address \<Rightarrow> address \<Rightarrow> address \<Rightarrow> address \<Rightarrow> string \<Rightarrow> address \<Rightarrow> address \<Rightarrow> address \<Rightarrow> 'w \<Rightarrow> int \<times> 'w)
   \<Rightarrow> string \<Rightarrow> generated \<Rightarrow> generated \<Rightarrow> address \<Rightarrow> address \<Rightarrow> address \<Rightarrow> address \<Rightarrow> address \<Rightarrow> 'w \<Rightarrow> int \<times> 'w" where
  "EVRPC_GENERATE evrpc_send_request_generic rpcname reqstruct rplystruct = (\<lambda>pool request reply cb cbarg.
     evrpc_send_request_generic pool request reply cb cbarg rpcname
       (gen_marshal reqstruct) (gen_clear rplystruct) (gen_unmarshal rplystruct))"

definition EVRPC_MAKE_REQUEST ::
  "(address \<Rightarrow> address \<Rightarrow> address \<Rightarrow> address \<Rightarrow> address \<Rightarrow> 'w \<Rightarrow> int \<times> 'w) \<Rightarrow> address \<Rightarrow> address \<Rightarrow> address \<Rightarrow> address \<Rightarrow> address \<Rightarrow> 'w \<Rightarrow> int \<times> 'w" where
  "EVRPC_MAKE_REQUEST evrpc_send_request pool request reply cb cbarg = evrpc_send_request pool request reply cb cbarg"

definition EVRPC_REGISTER ::
  "(address \<Rightarrow> string \<Rightarrow> address \<Rightarrow> address \<Rightarrow> address \<Rightarrow> address \<Rightarrow> address \<Rightarrow> address \<Rightarrow> address \<Rightarrow> address \<Rightarrow> address \<Rightarrow> address \<Rightarrow> address \<Rightarrow> 'w \<Rightarrow> int \<times> 'w)
   \<Rightarrow> address \<Rightarrow> string \<Rightarrow> generated \<Rightarrow> generated \<Rightarrow> address \<Rightarrow> address \<Rightarrow> 'w \<Rightarrow> int \<times> 'w" where
  "EVRPC_REGISTER evrpc_register_generic base name request reply callback cbarg =
     evrpc_register_generic base name callback cbarg
       (gen_new request) None (gen_free request) (gen_unmarshal request)
       (gen_new reply) None (gen_free reply) (gen_complete reply) (gen_marshal reply)"

definition EVRPC_UNREGISTER :: "(address \<Rightarrow> string \<Rightarrow> 'w \<Rightarrow> int \<times> 'w) \<Rightarrow> address \<Rightarrow> string \<Rightarrow> 'w \<Rightarrow> int \<times> 'w" where
  "EVRPC_UNREGISTER evrpc_unregister_rpc base name = evrpc_unregister_rpc base name"

definition EVRPC_REQUEST_HTTP :: "evrpc_req \<Rightarrow> address" where
  "EVRPC_REQUEST_HTTP rpc_req = rq_http_req rpc_req"

definition EVRPC_REQUEST_DONE :: "(address \<Rightarrow> 'w \<Rightarrow> 'w) \<Rightarrow> address \<Rightarrow> 'w \<Rightarrow> 'w" where
  "EVRPC_REQUEST_DONE evrpc_request_done rpc_req w = evrpc_request_done rpc_req w"

text \<open>The two ways to send a request hand the library the same functions in the same roles: if sending is making
  a context and then the request, as the header says of the low-level functions, they are the same.\<close>

theorem requests_agree:
  assumes "\<And>pool req rpl cb arg name m c u w. send_generic pool req rpl cb arg name m c u w =
      (case make_ctx pool req rpl name m c u cb arg w of
         (None, w') \<Rightarrow> (- 1, w') | (Some ctx, w') \<Rightarrow> make_request (Some ctx) w')"
  shows "EVRPC_MAKE_REQUEST (EVRPC_GENERATE send_generic name reqs rpls) pool req rpl cb arg w =
    (case EVRPC_MAKE_CTX make_ctx name reqs rpls pool req rpl cb arg w of
       (None, w') \<Rightarrow> (- 1, w') | (Some ctx, w') \<Rightarrow> make_request (Some ctx) w')"
  by (simp add: EVRPC_MAKE_REQUEST_def EVRPC_GENERATE_def EVRPC_MAKE_CTX_def assms)

end
