(* ===== verification/Net_Service.thy ===== *)
theory Net_Service
  imports Event_Api
begin

text \<open>
  The event layer of \<open>src/leo_net_service.c\<close>: thin wrappers around sockets and libevent, the
  table of the two events of each descriptor, and the three callbacks libevent calls. The
  socket calls and libevent are parameters: a record of functions over a world the model says
  nothing about. Events are handles; a use of a null or of a freed handle is a fault.
\<close>

unbundle bit_operations_syntax

section \<open>The libraries underneath\<close>

type_synonym event = nat

datatype event_cb = Net_Event_Accept | Net_Event_Read | Net_Event_Write

record 'w net_lib =
  lib_socket :: "'w \<Rightarrow> int \<times> 'w"
  lib_closesocket :: "int \<Rightarrow> 'w \<Rightarrow> 'w"
  lib_bind :: "int \<Rightarrow> u16 \<Rightarrow> 'w \<Rightarrow> int \<times> 'w"
  lib_listen :: "int \<Rightarrow> int \<Rightarrow> 'w \<Rightarrow> int \<times> 'w"
  lib_accept :: "int \<Rightarrow> 'w \<Rightarrow> int \<times> 'w"
  lib_recv :: "int \<Rightarrow> nat \<Rightarrow> 'w \<Rightarrow> byte list option \<times> 'w"  \<comment> \<open>the bytes received, or an error\<close>
  lib_send :: "int \<Rightarrow> byte list \<Rightarrow> 'w \<Rightarrow> int \<times> 'w"
  lib_nonblocking :: "int \<Rightarrow> 'w \<Rightarrow> int \<times> 'w"
  lib_reuseaddr :: "int \<Rightarrow> 'w \<Rightarrow> int \<times> 'w"
  lib_setsockopt_nodelay :: "int \<Rightarrow> 'w \<Rightarrow> int \<times> 'w"
  lib_event_base_new :: "'w \<Rightarrow> nat option \<times> 'w"
  lib_event_base_free :: "nat \<Rightarrow> 'w \<Rightarrow> 'w"
  lib_event_new :: "nat \<Rightarrow> int \<Rightarrow> u16 \<Rightarrow> event_cb \<Rightarrow> 'w \<Rightarrow> event option \<times> 'w"
  lib_event_free :: "event \<Rightarrow> 'w \<Rightarrow> 'w"
  lib_event_add :: "event \<Rightarrow> timeval option \<Rightarrow> 'w \<Rightarrow> int \<times> 'w"
  lib_event_del :: "event \<Rightarrow> 'w \<Rightarrow> int \<times> 'w"
  lib_event_assign :: "event \<Rightarrow> nat \<Rightarrow> int \<Rightarrow> u16 \<Rightarrow> event_cb \<Rightarrow> 'w \<Rightarrow> int \<times> 'w"
  lib_free :: "event \<Rightarrow> 'w \<Rightarrow> 'w"

section \<open>The wrappers\<close>

definition net_socket_open :: "'w net_lib \<Rightarrow> 'w \<Rightarrow> int \<times> 'w" where
  "net_socket_open lib w = lib_socket lib w"

definition net_socket_close :: "'w net_lib \<Rightarrow> int \<Rightarrow> 'w \<Rightarrow> 'w" where
  "net_socket_close lib fd w = lib_closesocket lib fd w"

definition net_socket_init :: "int \<Rightarrow> int" where
  "net_socket_init fd = 0"

text \<open>\<open>htons\<close> on a little-endian machine swaps the two bytes of the port.\<close>

definition htons :: "u16 \<Rightarrow> u16" where
  "htons p = push_bit 8 p OR drop_bit 8 p"

definition net_socket_bind :: "'w net_lib \<Rightarrow> int \<Rightarrow> u16 \<Rightarrow> 'w \<Rightarrow> int \<times> 'w" where
  "net_socket_bind lib fd port w = lib_bind lib fd (htons port) w"

definition net_socket_listen :: "'w net_lib \<Rightarrow> int \<Rightarrow> int \<Rightarrow> 'w \<Rightarrow> int \<times> 'w" where
  "net_socket_listen lib fd backlog w = lib_listen lib fd backlog w"

text \<open>
  \<open>recv\<close> stores what it received at the caller's address: the buffer is an object, an offset
  and the length the caller claims is there. The result is the count, -1 on an error.
\<close>

definition net_socket_recv :: "'w net_lib \<Rightarrow> int \<Rightarrow> byte list \<Rightarrow> nat \<Rightarrow> nat \<Rightarrow> 'w \<Rightarrow> (int \<times> byte list \<times> 'w) result" where
  "net_socket_recv lib fd obj off len w =
     (case lib_recv lib fd len w of
        (None, w') \<Rightarrow> Inr (- 1, obj, w')
      | (Some bs, w') \<Rightarrow> chain (mem_write obj off bs) (\<lambda>obj'. Inr (int (length bs), obj', w')))"

definition net_socket_send :: "'w net_lib \<Rightarrow> int \<Rightarrow> byte list \<Rightarrow> nat \<Rightarrow> nat \<Rightarrow> 'w \<Rightarrow> (int \<times> 'w) result" where
  "net_socket_send lib fd obj off len w =
     chain (mem_read obj off len) (\<lambda>bs. Inr (lib_send lib fd bs w))"

definition net_socket_nonblocking :: "'w net_lib \<Rightarrow> int \<Rightarrow> 'w \<Rightarrow> int \<times> 'w" where
  "net_socket_nonblocking lib fd w = lib_nonblocking lib fd w"

definition net_socket_reuseaddr :: "'w net_lib \<Rightarrow> int \<Rightarrow> 'w \<Rightarrow> int \<times> 'w" where
  "net_socket_reuseaddr lib fd w = lib_reuseaddr lib fd w"

definition net_socket_tcpnodely :: "'w net_lib \<Rightarrow> int \<Rightarrow> 'w \<Rightarrow> int \<times> 'w" where
  "net_socket_tcpnodely lib fd w =
     (let (r, w') = lib_setsockopt_nodelay lib fd w in (if r = - 1 then 0 else 1, w'))"

definition net_service_create :: "'w net_lib \<Rightarrow> 'w \<Rightarrow> nat option \<times> 'w" where
  "net_service_create lib w = lib_event_base_new lib w"

definition net_service_release :: "'w net_lib \<Rightarrow> nat \<Rightarrow> 'w \<Rightarrow> 'w" where
  "net_service_release lib eb w = lib_event_base_free lib eb w"

definition net_event_create :: "'w net_lib \<Rightarrow> nat \<Rightarrow> int \<Rightarrow> u16 \<Rightarrow> event_cb \<Rightarrow> 'w \<Rightarrow> event option \<times> 'w" where
  "net_event_create lib eb fd events cb w = lib_event_new lib eb fd events cb w"

definition net_event_release :: "'w net_lib \<Rightarrow> event \<Rightarrow> 'w \<Rightarrow> 'w" where
  "net_event_release lib e w = lib_event_free lib e w"

definition net_event_add :: "'w net_lib \<Rightarrow> event \<Rightarrow> timeval option \<Rightarrow> 'w \<Rightarrow> int \<times> 'w" where
  "net_event_add lib e tv w = lib_event_add lib e tv w"

definition net_event_del :: "'w net_lib \<Rightarrow> event \<Rightarrow> 'w \<Rightarrow> int \<times> 'w" where
  "net_event_del lib e w = lib_event_del lib e w"

definition net_event_reset :: "'w net_lib \<Rightarrow> event \<Rightarrow> nat \<Rightarrow> int \<Rightarrow> u16 \<Rightarrow> event_cb \<Rightarrow> 'w \<Rightarrow> int \<times> 'w" where
  "net_event_reset lib e eb fd events cb w = lib_event_assign lib e eb fd events cb w"

section \<open>The event table\<close>

record net_rw_event =
  ev_read :: "event option"
  ev_write :: "event option"

type_synonym net_events = "int \<Rightarrow> net_rw_event"

definition NET_EVENTS :: int where "NET_EVENTS = 65535"

text \<open>The static table starts zeroed.\<close>

definition net_events_init :: net_events where
  "net_events_init = (\<lambda>_. \<lparr>ev_read = None, ev_write = None\<rparr>)"

definition net_service_get_evnets :: "net_events \<Rightarrow> int \<Rightarrow> net_rw_event result" where
  "net_service_get_evnets evs fd =
     (if 0 \<le> fd \<and> fd < NET_EVENTS then Inr (evs fd) else Inl Out_Of_Bounds)"

text \<open>\<open>event_add\<close> needs a live event: \<open>freed\<close> lists the handles given back since.\<close>

definition event_add_live :: "'w net_lib \<Rightarrow> event list \<Rightarrow> event option \<Rightarrow> 'w \<Rightarrow> (int \<times> 'w) result" where
  "event_add_live lib freed e w =
     (case e of None \<Rightarrow> Inl Null_Pointer
      | Some h \<Rightarrow> if h \<in> set freed then Inl Use_After_Free else Inr (lib_event_add lib h None w))"

section \<open>The callbacks\<close>

text \<open>The application's callbacks and the event base, which \<open>args\<close> carries to the callbacks of the service. They
  run on the state \<open>'s\<close> of the application.\<close>

record 's user_init =
  ui_read_cb :: "int \<Rightarrow> 's \<Rightarrow> 's result"
  ui_write_cb :: "int \<Rightarrow> 's \<Rightarrow> 's result"
  ui_accept_cb :: "int \<Rightarrow> 's \<Rightarrow> 's result"

record 's service_init =
  si_ui :: "'s user_init"
  si_eb :: nat

text \<open>
  The application's state \<open>s\<close> is threaded through. The test of \<open>ne\<close> is of
  the address of an array element and always holds.
\<close>

definition net_event_accept ::
  "'w net_lib \<Rightarrow> 's service_init \<Rightarrow> int \<Rightarrow> net_events \<Rightarrow> 'w \<Rightarrow> 's
     \<Rightarrow> (net_events \<times> 'w \<times> 's) result" where
  "net_event_accept lib si listen_fd evs w s =
     (let (fd, w1) = lib_accept lib listen_fd w in
      if fd < 0 then Inr (evs, w1, s)
      else
        let (_, w2) = net_socket_nonblocking lib fd w1 in
        chain (net_service_get_evnets evs fd) (\<lambda>_.
        let (er, w3) = net_event_create lib (si_eb si) fd (EV_READ OR EV_PERSIST) Net_Event_Read w2;
            (ew, w4) = net_event_create lib (si_eb si) fd (EV_WRITE OR EV_PERSIST) Net_Event_Write w3;
            evs' = evs(fd := \<lparr>ev_read = er, ev_write = ew\<rparr>);
            failed = (er = None \<or> ew = None);
            w5 = (if failed then (case er of None \<Rightarrow> w4 | Some h \<Rightarrow> lib_free lib h w4) else w4);
            w6 = (if failed then (case ew of None \<Rightarrow> w5 | Some h \<Rightarrow> lib_free lib h w5) else w5);
            freed = (if failed then List.map_filter id [er, ew] else []) in
        chain (event_add_live lib freed (ev_read (evs' fd)) w6) (\<lambda>(_, w7).
        chain (ui_accept_cb (si_ui si) fd s) (\<lambda>s'. Inr (evs', w7, s')))))"

definition net_event_read :: "'s service_init \<Rightarrow> int \<Rightarrow> 's \<Rightarrow> 's result" where
  "net_event_read si fd s = ui_read_cb (si_ui si) fd s"

definition net_event_write :: "'s service_init \<Rightarrow> int \<Rightarrow> 's \<Rightarrow> 's result" where
  "net_event_write si fd s = ui_write_cb (si_ui si) fd s"

section \<open>What accepting a connection does\<close>

lemma net_event_accept_cases:
  assumes a: "lib_accept lib listen_fd w = (fd, w1)" and n: "lib_nonblocking lib fd w1 = (r, w2)"
    and er: "lib_event_new lib (si_eb si) fd (EV_READ OR EV_PERSIST) Net_Event_Read w2 = (er, w3)"
    and ew: "lib_event_new lib (si_eb si) fd (EV_WRITE OR EV_PERSIST) Net_Event_Write w3 = (ew, w4)"
  shows "net_event_accept lib si listen_fd evs w s =
    (if fd < 0 then Inr (evs, w1, s)
     else if NET_EVENTS \<le> fd then Inl Out_Of_Bounds
     else case (er, ew) of
        (None, _) \<Rightarrow> Inl Null_Pointer
      | (Some _, None) \<Rightarrow> Inl Use_After_Free
      | (Some h, Some h') \<Rightarrow> chain (ui_accept_cb (si_ui si) fd s) (\<lambda>s'.
          Inr (evs(fd := \<lparr>ev_read = Some h, ev_write = Some h'\<rparr>), snd (lib_event_add lib h None w4), s')))"
  using assms
  by (auto simp: net_event_accept_def net_socket_nonblocking_def net_event_create_def net_service_get_evnets_def
      event_add_live_def map_filter_simps split: option.splits prod.splits)

end
