(* ===== verification/Net_Session.thy ===== *)
theory Net_Session
  imports Ring_Buffer Lock_Free_Queue Game_Protocol Net_Service Registry
begin

text \<open>
  The sessions of \<open>src/leo_net_session.h\<close> and \<open>src/leo_net_session.cpp\<close> and the manager
  that hands them out. A session pointer is an index into the list of sessions ever allocated,
  a message pointer an index into the messages; both are optional because they may be null.
\<close>

section \<open>A session\<close>

definition MAX_SESSION :: nat where "MAX_SESSION = 10"
definition MAX_QUEUE_LEN :: u32 where "MAX_QUEUE_LEN = 128"
definition MAX_BUFFER_LEN :: u32 where "MAX_BUFFER_LEN = 4096"

type_synonym msg_ptr = "nat option"
type_synonym session_ptr = "nat option"

record net_session =
  ss_socket :: int
  ss_session_id :: u32
  ss_crypt :: about_crypt
  ss_read_buffer :: ring_buffer
  ss_write_buffer :: ring_buffer
  ss_read_queue :: "msg_ptr lf_queue"
  ss_write_queue :: "msg_ptr lf_queue"

text \<open>
  The constructor initialises the socket, the id and the two rings. The crypt state and both
  queues, indices included, keep whatever the memory held: \<open>fresh\<close> gives it.
\<close>

record fresh_memory =
  fresh_crypt :: about_crypt
  fresh_bytes :: "nat \<Rightarrow> byte"
  fresh_read_queue :: "msg_ptr lf_queue"
  fresh_write_queue :: "msg_ptr lf_queue"

definition net_session_new :: "fresh_memory \<Rightarrow> net_session result" where
  "net_session_new fresh =
     chain (ring_buffer_new (fresh_bytes fresh) MAX_BUFFER_LEN) (\<lambda>rb.
     chain (ring_buffer_new (fresh_bytes fresh) MAX_BUFFER_LEN) (\<lambda>wb.
     Inr \<lparr>ss_socket = 0, ss_session_id = 0, ss_crypt = fresh_crypt fresh,
          ss_read_buffer = rb, ss_write_buffer = wb,
          ss_read_queue = fresh_read_queue fresh, ss_write_queue = fresh_write_queue fresh\<rparr>))"

text \<open>The destructor clears the rings before they are destroyed.\<close>

definition net_session_delete :: "net_session \<Rightarrow> net_session" where
  "net_session_delete s =
     s\<lparr>ss_read_buffer := ring_buffer_delete (clear (ss_read_buffer s)),
       ss_write_buffer := ring_buffer_delete (clear (ss_write_buffer s))\<rparr>"

definition net_session_init :: "net_session \<Rightarrow> net_session" where
  "net_session_init s = s"

definition get_socket :: "net_session \<Rightarrow> int" where "get_socket s = ss_socket s"
definition set_socket :: "int \<Rightarrow> net_session \<Rightarrow> net_session" where "set_socket fd s = s\<lparr>ss_socket := fd\<rparr>"
definition get_session_id :: "net_session \<Rightarrow> u32" where "get_session_id s = ss_session_id s"
definition set_session_id :: "u32 \<Rightarrow> net_session \<Rightarrow> net_session" where
  "set_session_id i s = s\<lparr>ss_session_id := i\<rparr>"

definition add_write_event :: "'w net_lib \<Rightarrow> net_events \<Rightarrow> net_session \<Rightarrow> 'w \<Rightarrow> 'w result" where
  "add_write_event lib evs s w =
     chain (net_service_get_evnets evs (get_socket s)) (\<lambda>rw.
     Inr (case ev_write rw of None \<Rightarrow> w | Some e \<Rightarrow> snd (net_event_add lib e None w)))"

definition del_write_event :: "'w net_lib \<Rightarrow> net_events \<Rightarrow> net_session \<Rightarrow> 'w \<Rightarrow> 'w result" where
  "del_write_event lib evs s w =
     chain (net_service_get_evnets evs (get_socket s)) (\<lambda>rw.
     Inr (case ev_write rw of None \<Rightarrow> w | Some e \<Rightarrow> snd (net_event_del lib e w)))"

definition push_to_readqueue :: "msg_ptr \<Rightarrow> net_session \<Rightarrow> bool \<times> net_session" where
  "push_to_readqueue nm s =
     (let (ok, q) = push_back MAX_QUEUE_LEN (ss_read_queue s) nm in (ok, s\<lparr>ss_read_queue := q\<rparr>))"

text \<open>
  The two fetches take the pointer by value: \<open>pop_front\<close> assigns to the parameter, so the
  caller's variable is unchanged. They return the flag and the session only.
\<close>

definition fetch_from_readqueue :: "msg_ptr \<Rightarrow> net_session \<Rightarrow> bool \<times> net_session" where
  "fetch_from_readqueue nm s =
     (let (ok, _, q) = pop_front MAX_QUEUE_LEN (ss_read_queue s) in (ok, s\<lparr>ss_read_queue := q\<rparr>))"

definition push_to_writequeue ::
  "'w net_lib \<Rightarrow> net_events \<Rightarrow> msg_ptr \<Rightarrow> net_session \<Rightarrow> 'w \<Rightarrow> (bool \<times> net_session \<times> 'w) result" where
  "push_to_writequeue lib evs nm s w =
     chain (if rb_empty (ss_write_buffer s) then add_write_event lib evs s w else Inr w) (\<lambda>w'.
     let (ok, q) = push_back MAX_QUEUE_LEN (ss_write_queue s) nm in
     Inr (ok, s\<lparr>ss_write_queue := q\<rparr>, w'))"

definition fetch_from_writequeue :: "msg_ptr \<Rightarrow> net_session \<Rightarrow> bool \<times> net_session" where
  "fetch_from_writequeue nm s =
     (let (ok, _, q) = pop_front MAX_QUEUE_LEN (ss_write_queue s) in (ok, s\<lparr>ss_write_queue := q\<rparr>))"

definition preread_message_size :: "net_session \<Rightarrow> byte list \<Rightarrow> u32 \<Rightarrow> (u32 \<times> byte list) result" where
  "preread_message_size s buf len = peek_read (ss_read_buffer s) buf len"

section \<open>The session manager\<close>

record session_manager =
  sm_session_id :: u32
  sm_vct_sessions :: "nat list"              \<comment> \<open>the free sessions, a vector used as a queue\<close>
  sm_map_sessions :: "int \<rightharpoonup> nat"            \<comment> \<open>socket to session\<close>
  sm_sessions :: "net_session list"          \<comment> \<open>the sessions allocated so far\<close>

definition session_manager_new :: session_manager where
  "session_manager_new = \<lparr>sm_session_id = 0, sm_vct_sessions = [], sm_map_sessions = Map.empty, sm_sessions = []\<rparr>"

fun new_sessions :: "(nat \<Rightarrow> fresh_memory) \<Rightarrow> nat \<Rightarrow> nat \<Rightarrow> net_session list result" where
  "new_sessions fresh i 0 = Inr []"
| "new_sessions fresh i (Suc n) =
     chain (net_session_new (fresh i)) (\<lambda>s. chain (new_sessions fresh (i + 1) n) (\<lambda>ss. Inr (s # ss)))"

text \<open>\<open>new\<close> throws rather than return null, so the other branch of the test is never taken.\<close>

definition init_sessions :: "(nat \<Rightarrow> fresh_memory) \<Rightarrow> session_manager \<Rightarrow> (bool \<times> session_manager) result" where
  "init_sessions fresh sm =
     (let base = length (sm_sessions sm) in
      chain (new_sessions fresh base MAX_SESSION) (\<lambda>ss.
      Inr (True, sm\<lparr>sm_sessions := sm_sessions sm @ ss,
                    sm_vct_sessions := sm_vct_sessions sm @ [base..<base + MAX_SESSION]\<rparr>)))"

text \<open>
  The destructor empties the manager and frees the array of the last \<open>init_sessions\<close>; the sessions of an
  earlier one are leaked. A pointer to a freed session has an index that is no longer in the list.
\<close>

definition session_manager_delete :: "session_manager \<Rightarrow> session_manager" where
  "session_manager_delete sm =
     \<lparr>sm_session_id = 0, sm_vct_sessions = [], sm_map_sessions = Map.empty,
      sm_sessions = take (length (sm_sessions sm) - MAX_SESSION) (sm_sessions sm)\<rparr>"

definition claim_one_session :: "session_manager \<Rightarrow> session_ptr \<times> session_manager" where
  "claim_one_session sm =
     (case sm_vct_sessions sm of
        [] \<Rightarrow> (None, sm)
      | s # rest \<Rightarrow> (Some s, sm\<lparr>sm_vct_sessions := rest\<rparr>))"

definition reclaim_one_session :: "session_ptr \<Rightarrow> session_manager \<Rightarrow> session_manager result" where
  "reclaim_one_session session sm =
     (case session of
        None \<Rightarrow> Inl Assert_Failed
      | Some s \<Rightarrow> Inr (sm\<lparr>sm_vct_sessions := sm_vct_sessions sm @ [s]\<rparr>))"

definition insert_session :: "int \<Rightarrow> session_ptr \<Rightarrow> session_manager \<Rightarrow> (bool \<times> session_manager) result" where
  "insert_session sock session sm =
     (case session of
        None \<Rightarrow> Inl Assert_Failed
      | Some s \<Rightarrow>
          if \<not> 0 < sock then Inl Assert_Failed
          else case sm_map_sessions sm sock of
            None \<Rightarrow> Inr (True, sm\<lparr>sm_map_sessions := (sm_map_sessions sm)(sock \<mapsto> s)\<rparr>)
          | Some _ \<Rightarrow> Inr (False, sm))"

definition remove_session :: "int \<Rightarrow> session_manager \<Rightarrow> (bool \<times> session_manager) result" where
  "remove_session sock sm =
     (if \<not> 0 < sock then Inl Assert_Failed
      else case sm_map_sessions sm sock of
        None \<Rightarrow> Inr (False, sm)
      | Some _ \<Rightarrow> Inr (True, sm\<lparr>sm_map_sessions := (sm_map_sessions sm)(sock := None)\<rparr>))"

definition get_one_session :: "int \<Rightarrow> session_manager \<Rightarrow> session_ptr result" where
  "get_one_session sock sm =
     (if \<not> 0 < sock then Inl Assert_Failed else Inr (sm_map_sessions sm sock))"

definition generate_session_id :: "session_manager \<Rightarrow> u32 \<times> session_manager" where
  "generate_session_id sm =
     (let i = sm_session_id sm + 1 in (i, sm\<lparr>sm_session_id := i\<rparr>))"

section \<open>The map of sessions is a registry\<close>

definition reg_insert :: "session_manager \<Rightarrow> int \<Rightarrow> nat \<Rightarrow> bool \<times> session_manager" where
  "reg_insert sm sock s = (case insert_session sock (Some s) sm of Inl _ \<Rightarrow> (False, sm) | Inr r \<Rightarrow> r)"

definition reg_remove :: "session_manager \<Rightarrow> int \<Rightarrow> bool \<times> session_manager" where
  "reg_remove sm sock = (case remove_session sock sm of Inl _ \<Rightarrow> (False, sm) | Inr r \<Rightarrow> r)"

interpretation sm: registry "\<lambda>sock. 0 < sock" sm_map_sessions reg_insert reg_remove
  by unfold_locales
    (auto simp: reg_insert_def reg_remove_def insert_session_def remove_session_def split: option.splits)

text \<open>C20. Over any sequence of \<open>insert_session\<close> and \<open>remove_session\<close> calls on positive sockets the manager answers
  as a map does: an insert succeeds exactly when the socket is absent, a remove exactly when it is
  present, and \<open>get_one_session\<close> finds what the map holds.\<close>

theorem session_map_refines:
  assumes "\<forall>c \<in> set cs. 0 < reg_key c" and "reg_run reg_insert reg_remove sm cs = (oks, sm')"
  shows "map_run (sm_map_sessions sm) cs = (oks, sm_map_sessions sm') \<and>
    (\<forall>sock>0. get_one_session sock sm' = Inr (snd (map_run (sm_map_sessions sm) cs) sock))"
  using sm.run_refines_map [OF assms] by (simp add: get_one_session_def)

theorem session_map_refines_witness:
  "(let (oks, sm') = reg_run reg_insert reg_remove session_manager_new [Insert 7 0, Insert 7 1, Remove 8, Remove 7, Insert 7 2]
    in oks = [True, False, False, True, True] \<and> get_one_session 7 sm' = Inr (Some 2))"
proof -
  let ?cs = "[Insert 7 0, Insert 7 1, Remove 8, Remove 7, Insert 7 2] :: (int, nat) reg_call list"
  obtain oks sm' where r: "reg_run reg_insert reg_remove session_manager_new ?cs = (oks, sm')"
    by (cases "reg_run reg_insert reg_remove session_manager_new ?cs")
  have m: "map_run (sm_map_sessions session_manager_new) ?cs = (oks, sm_map_sessions sm') \<and>
    (\<forall>sock>0. get_one_session sock sm' = Inr (snd (map_run (sm_map_sessions session_manager_new) ?cs) sock))"
    by (rule session_map_refines [OF _ r]) simp
  then have "oks = [True, False, False, True, True]" by (simp add: session_manager_new_def)
  moreover have "get_one_session 7 sm' = Inr (Some 2)"
    using m [THEN conjunct2, rule_format, of 7] by (simp add: session_manager_new_def)
  ultimately show ?thesis unfolding r Let_def prod.case by simp
qed

section \<open>Who owns a session\<close>

text \<open>Every session is free or belongs to one socket, never both and never to two.\<close>

definition sm_wf :: "session_manager \<Rightarrow> bool" where
  "sm_wf sm \<longleftrightarrow> distinct (sm_vct_sessions sm) \<and> set (sm_vct_sessions sm) \<inter> ran (sm_map_sessions sm) = {} \<and>
     set (sm_vct_sessions sm) \<union> ran (sm_map_sessions sm) \<subseteq> {..<length (sm_sessions sm)} \<and>
     inj_on (sm_map_sessions sm) (dom (sm_map_sessions sm))"

lemma sm_wf_claim:
  assumes "sm_wf sm" and "claim_one_session sm = (Some s, sm1)"
  shows "sm_wf sm1" and "s \<notin> ran (sm_map_sessions sm1)" and "s \<notin> set (sm_vct_sessions sm1)"
    and "s < length (sm_sessions sm1)" and "sm_map_sessions sm1 = sm_map_sessions sm"
  using assms by (auto simp: sm_wf_def claim_one_session_def split: list.splits)

lemma inj_on_map_upd:
  "inj_on m (dom m) \<Longrightarrow> v \<notin> ran m \<Longrightarrow> m k = None \<Longrightarrow> inj_on (m(k \<mapsto> v)) (dom (m(k \<mapsto> v)))"
  by (auto simp: inj_on_def dom_def ran_def)

lemma sm_wf_insert:
  assumes "sm_wf sm" and "s \<notin> ran (sm_map_sessions sm)" and "s \<notin> set (sm_vct_sessions sm)"
    and "s < length (sm_sessions sm)" and "insert_session sock (Some s) sm = Inr (ok, sm')"
  shows "sm_wf sm'"
proof (cases "sm_map_sessions sm sock")
  case None
  then have "sm' = sm\<lparr>sm_map_sessions := (sm_map_sessions sm)(sock \<mapsto> s)\<rparr>"
    using assms(5) by (auto simp: insert_session_def split: if_splits)
  then show ?thesis
    using assms(1-4) None inj_on_map_upd [of "sm_map_sessions sm" s sock] by (auto simp: sm_wf_def)
next
  case (Some x)
  then show ?thesis using assms(1,5) by (auto simp: insert_session_def split: if_splits)
qed

lemma sm_wf_remove:
  assumes "sm_wf sm" and "sm_map_sessions sm sock = Some s" and "0 < sock"
  shows "\<exists>sm'. remove_session sock sm = Inr (True, sm') \<and> sm_wf sm' \<and> s \<notin> ran (sm_map_sessions sm') \<and>
    s \<notin> set (sm_vct_sessions sm') \<and> s < length (sm_sessions sm')"
proof -
  let ?m = "sm_map_sessions sm"
  have inj: "inj_on ?m (dom ?m)" using assms(1) by (simp add: sm_wf_def)
  have "s \<notin> ran (?m(sock := None))"
    using inj assms(2) by (auto simp: ran_def inj_on_def dom_def split: if_splits)
  moreover have "inj_on (?m(sock := None)) (dom (?m(sock := None)))"
    using inj by (auto simp: inj_on_def dom_def split: if_splits)
  moreover have "ran (?m(sock := None)) \<subseteq> ran ?m" by (auto simp: ran_def split: if_splits)
  moreover have "s \<in> ran ?m" using assms(2) by (rule ranI)
  ultimately show ?thesis
    using assms by (auto simp: remove_session_def sm_wf_def)
qed

lemma sm_wf_reclaim:
  assumes "sm_wf sm" and "s \<notin> ran (sm_map_sessions sm)" and "s \<notin> set (sm_vct_sessions sm)"
    and "s < length (sm_sessions sm)"
  shows "\<exists>sm'. reclaim_one_session (Some s) sm = Inr sm' \<and> sm_wf sm' \<and>
    length (sm_vct_sessions sm') = length (sm_vct_sessions sm) + 1"
  using assms by (simp add: reclaim_one_session_def sm_wf_def)

lemma sm_wf_delete: "sm_wf (session_manager_delete sm)"
  by (simp add: sm_wf_def session_manager_delete_def)

lemma insert_session_Inr:
  "0 < sock \<Longrightarrow> \<exists>sm'. insert_session sock (Some s) sm = Inr (sm_map_sessions sm sock = None, sm')"
  by (cases "sm_map_sessions sm sock") (simp_all add: insert_session_def)

text \<open>
  The calls of a user of the manager, who keeps track of the sessions in hand: those claimed, or taken out of
  the map, and not yet put into the map or given back.
\<close>

datatype manager_call = Claim | Put int nat | Take int | Give nat

fun manager_step :: "manager_call \<Rightarrow> session_manager \<times> nat list \<Rightarrow> (session_manager \<times> nat list) result" where
  "manager_step Claim (sm, held) =
     (case claim_one_session sm of (None, sm') \<Rightarrow> Inr (sm', held) | (Some s, sm') \<Rightarrow> Inr (sm', s # held))"
| "manager_step (Put sock s) (sm, held) =
     chain (insert_session sock (Some s) sm) (\<lambda>(ok, sm'). Inr (sm', if ok then remove1 s held else held))"
| "manager_step (Take sock) (sm, held) =
     chain (get_one_session sock sm) (\<lambda>p.
     chain (remove_session sock sm) (\<lambda>(_, sm'). Inr (sm', case p of None \<Rightarrow> held | Some s \<Rightarrow> s # held)))"
| "manager_step (Give s) (sm, held) = chain (reclaim_one_session (Some s) sm) (\<lambda>sm'. Inr (sm', remove1 s held))"

text \<open>The discipline: sockets are positive, and only a session in hand is put into the map or given back.\<close>

fun manager_allowed :: "manager_call \<Rightarrow> nat list \<Rightarrow> bool" where
  "manager_allowed Claim held = True"
| "manager_allowed (Put sock s) held = (0 < sock \<and> s \<in> set held)"
| "manager_allowed (Take sock) held = (0 < sock)"
| "manager_allowed (Give s) held = (s \<in> set held)"

fun manager_run :: "manager_call list \<Rightarrow> session_manager \<times> nat list \<Rightarrow> (session_manager \<times> nat list) result" where
  "manager_run [] st = Inr st"
| "manager_run (c # cs) st = chain (manager_step c st) (manager_run cs)"

fun manager_disciplined :: "manager_call list \<Rightarrow> session_manager \<times> nat list \<Rightarrow> bool" where
  "manager_disciplined [] st = True"
| "manager_disciplined (c # cs) st = (manager_allowed c (snd st) \<and>
     (case manager_step c st of Inl _ \<Rightarrow> True | Inr st' \<Rightarrow> manager_disciplined cs st'))"

text \<open>Every session free, in the map or in hand has that one owner.\<close>

definition sole_owners :: "session_manager \<Rightarrow> nat list \<Rightarrow> bool" where
  "sole_owners sm held \<longleftrightarrow> sm_wf sm \<and> distinct held \<and> set held \<subseteq> {..<length (sm_sessions sm)} \<and>
     set held \<inter> (set (sm_vct_sessions sm) \<union> ran (sm_map_sessions sm)) = {}"

definition owned :: "session_manager \<Rightarrow> nat list \<Rightarrow> nat set" where
  "owned sm held = set (sm_vct_sessions sm) \<union> ran (sm_map_sessions sm) \<union> set held"

lemma ran_map_delete: "inj_on m (dom m) \<Longrightarrow> m k = Some v \<Longrightarrow> ran (m(k := None)) = ran m - {v}"
  by (auto simp: ran_def inj_on_def dom_def split: if_splits) (metis option.inject)

lemma manager_step_owners:
  assumes own: "sole_owners sm held" and allowed: "manager_allowed c held"
  obtains sm' held' where "manager_step c (sm, held) = Inr (sm', held')" "sole_owners sm' held'" "owned sm' held' = owned sm held"
proof (cases c)
  case Claim
  show ?thesis
    by (cases "sm_vct_sessions sm") (rule that, use own Claim in \<open>auto simp: claim_one_session_def sole_owners_def sm_wf_def owned_def\<close>)+
next
  case (Put sock s)
  then have s: "0 < sock" "s \<in> set held" using allowed by simp_all
  obtain sm' where i: "insert_session sock (Some s) sm = Inr (sm_map_sessions sm sock = None, sm')"
    using insert_session_Inr [OF s(1), of s sm] by (elim exE)
  have wf: "sm_wf sm'" by (rule sm_wf_insert [OF _ _ _ _ i]) (use own s in \<open>auto simp: sole_owners_def\<close>)
  show ?thesis
  proof (cases "sm_map_sessions sm sock")
    case None
    then have sm': "sm' = sm\<lparr>sm_map_sessions := (sm_map_sessions sm)(sock \<mapsto> s)\<rparr>" using i s by (simp add: insert_session_def)
    show ?thesis
      by (rule that [of sm' "remove1 s held"])
        (use own Put None i s wf in \<open>auto simp: sole_owners_def owned_def sm' ran_map_upd\<close>)
  next
    case (Some x)
    then have "sm' = sm" using i s by (simp add: insert_session_def)
    then show ?thesis by (intro that [of sm held]) (use own Put Some i in simp_all)
  qed
next
  case (Take sock)
  then have sock: "0 < sock" using allowed by simp
  show ?thesis
  proof (cases "sm_map_sessions sm sock")
    case None
    then show ?thesis
      by (intro that [of sm held]) (use own Take sock in \<open>simp_all add: get_one_session_def remove_session_def\<close>)
  next
    case (Some s)
    let ?sm = "sm\<lparr>sm_map_sessions := (sm_map_sessions sm)(sock := None)\<rparr>"
    have wf: "sm_wf sm" using own by (simp add: sole_owners_def)
    have r: "remove_session sock sm = Inr (True, ?sm)" using Some sock by (simp add: remove_session_def)
    with sm_wf_remove [OF wf Some sock] have out: "sm_wf ?sm" "s \<notin> set (sm_vct_sessions sm)" "s < length (sm_sessions sm)" by auto
    have ran: "ran (sm_map_sessions ?sm) = ran (sm_map_sessions sm) - {s}" "s \<in> ran (sm_map_sessions sm)"
      using wf Some ran_map_delete ranI by (fastforce simp: sm_wf_def)+
    show ?thesis
      by (rule that [of ?sm "s # held"])
        (use own Take Some sock r out ran in \<open>auto simp: get_one_session_def sole_owners_def owned_def\<close>)
  qed
next
  case (Give s)
  then have s: "s \<in> set held" using allowed by simp
  show ?thesis
    by (rule that [of "sm\<lparr>sm_vct_sessions := sm_vct_sessions sm @ [s]\<rparr>" "remove1 s held"])
      (use own Give s in \<open>auto simp: reclaim_one_session_def sole_owners_def sm_wf_def owned_def\<close>)
qed

text \<open>C21. Ownership over any sequence of claims, insertions into the map, removals from it and reclamations whose sockets are
  positive and which insert or give back only sessions the caller has in hand: no call faults, every session is always
  free, or owned by one socket, or in the caller's hands, never two of these, and none is lost. The manager itself
  checks nothing of this: a caller outside the discipline can break it.\<close>

theorem session_ownership:
  assumes "sole_owners sm held" and "manager_disciplined cs (sm, held)"
  shows "\<exists>sm' held'. manager_run cs (sm, held) = Inr (sm', held') \<and> sole_owners sm' held' \<and> owned sm' held' = owned sm held"
  using assms
proof (induction cs arbitrary: sm held)
  case Nil
  then show ?case by simp
next
  case (Cons c cs)
  then have "manager_allowed c held" by simp
  with Cons.prems(1) obtain sm1 held1 where one: "manager_step c (sm, held) = Inr (sm1, held1)" "sole_owners sm1 held1"
    "owned sm1 held1 = owned sm held" by (rule manager_step_owners)
  then have "manager_disciplined cs (sm1, held1)" using Cons.prems(2) by simp
  from Cons.IH [OF one(2) this] one show ?case by simp
qed

text \<open>Two sessions, one free and one in use.\<close>

definition example_session :: net_session where
  "example_session = \<lparr>ss_socket = 0, ss_session_id = 0, ss_crypt = example_crypt,
     ss_read_buffer = example_ring, ss_write_buffer = example_ring,
     ss_read_queue = \<lparr>lq_slots = replicate 128 None, lq_push = 0, lq_pop = 0\<rparr>,
     ss_write_queue = \<lparr>lq_slots = replicate 128 None, lq_push = 0, lq_pop = 0\<rparr>\<rparr>"

definition example_manager :: session_manager where
  "example_manager = \<lparr>sm_session_id = 0, sm_vct_sessions = [1], sm_map_sessions = [7 \<mapsto> 0],
     sm_sessions = [example_session, example_session]\<rparr>"

theorem session_ownership_witness:
  "\<exists>sm'. manager_run [Claim, Put 7 1, Put 9 1, Claim, Take 7, Give 0] (example_manager, []) = Inr (sm', []) \<and>
      sole_owners sm' [] \<and> sm_map_sessions sm' = [9 \<mapsto> 1] \<and> sm_vct_sessions sm' = [0]"
proof -
  let ?cs = "[Claim, Put 7 1, Put 9 1, Claim, Take 7, Give 0]"
  have "sole_owners example_manager []" by (auto simp: example_manager_def sole_owners_def sm_wf_def)
  moreover have "manager_disciplined ?cs (example_manager, [])"
    by (simp add: example_manager_def claim_one_session_def insert_session_def get_one_session_def remove_session_def
        reclaim_one_session_def)
  ultimately have "\<exists>sm' held'. manager_run ?cs (example_manager, []) = Inr (sm', held') \<and> sole_owners sm' held' \<and>
    owned sm' held' = owned example_manager []" by (rule session_ownership)
  then show ?thesis
    by (auto simp: example_manager_def claim_one_session_def insert_session_def get_one_session_def remove_session_def
        reclaim_one_session_def)
qed

section \<open>A new session\<close>

definition session_rings_ready :: "net_session \<Rightarrow> bool" where
  "session_rings_ready s \<longleftrightarrow>
     rb_wf (ss_read_buffer s) \<and> rb_contents (ss_read_buffer s) = [] \<and> rb_capacity (ss_read_buffer s) = 4096 \<and>
     rb_wf (ss_write_buffer s) \<and> rb_contents (ss_write_buffer s) = [] \<and> rb_capacity (ss_write_buffer s) = 4096"

lemma new_ring:
  obtains rb where "ring_buffer_new bytes MAX_BUFFER_LEN = Inr rb" "rb_wf rb" "rb_contents rb = []" "rb_capacity rb = 4096"
proof -
  have "ring_buffer_new bytes MAX_BUFFER_LEN = Inr
      \<lparr>rb_size = MAX_BUFFER_LEN, rb_bytes = map bytes [0..<unat MAX_BUFFER_LEN], rb_write = 0, rb_read = 0\<rparr>"
    unfolding ring_buffer_new_Inr by (simp add: MAX_BUFFER_LEN_def is_power_of_2_def del: upt_rec_numeral)
  with ring_buffer_new_empty [OF this] that show ?thesis by (simp add: MAX_BUFFER_LEN_def)
qed

lemma net_session_new_spec:
  obtains s where "net_session_new fresh = Inr s" "session_rings_ready s" "ss_socket s = 0"
    "ss_crypt s = fresh_crypt fresh" "ss_read_queue s = fresh_read_queue fresh"
    "ss_write_queue s = fresh_write_queue fresh"
proof -
  obtain rb where "ring_buffer_new (fresh_bytes fresh) MAX_BUFFER_LEN = Inr rb"
    "rb_wf rb" "rb_contents rb = []" "rb_capacity rb = 4096" by (rule new_ring)
  then show ?thesis
    by (intro that [of "\<lparr>ss_socket = 0, ss_session_id = 0, ss_crypt = fresh_crypt fresh,
          ss_read_buffer = rb, ss_write_buffer = rb,
          ss_read_queue = fresh_read_queue fresh, ss_write_queue = fresh_write_queue fresh\<rparr>"])
      (simp_all add: net_session_new_def session_rings_ready_def)
qed

lemma new_sessions_spec:
  "\<exists>ss. new_sessions fresh i n = Inr ss \<and> length ss = n \<and> (\<forall>s \<in> set ss. session_rings_ready s)"
proof (induction n arbitrary: i)
  case 0
  then show ?case by simp
next
  case (Suc n)
  obtain s where "net_session_new (fresh i) = Inr s" "session_rings_ready s" by (rule net_session_new_spec)
  moreover obtain ss where "new_sessions fresh (i + 1) n = Inr ss" "length ss = n" "\<forall>s \<in> set ss. session_rings_ready s"
    using Suc by blast
  ultimately show ?case by simp
qed

fun claim_many :: "nat \<Rightarrow> session_manager \<Rightarrow> session_ptr list" where
  "claim_many 0 sm = []"
| "claim_many (Suc n) sm = (let (s, sm') = claim_one_session sm in s # claim_many n sm')"

lemma claim_many_eq:
  "claim_many n sm = map Some (take n (sm_vct_sessions sm)) @ replicate (n - length (sm_vct_sessions sm)) None"
proof (induction n arbitrary: sm)
  case 0
  then show ?case by simp
next
  case (Suc n)
  then show ?case by (cases "sm_vct_sessions sm") (simp_all add: claim_one_session_def)
qed

lemma init_sessions_spec:
  obtains sm where "init_sessions fresh session_manager_new = Inr (True, sm)" "sm_wf sm"
    "sm_vct_sessions sm = [0..<10]" "length (sm_sessions sm) = 10" "sm_map_sessions sm = Map.empty"
    "\<forall>s \<in> set (sm_sessions sm). session_rings_ready s"
proof -
  obtain ss where ss: "new_sessions fresh 0 10 = Inr ss" "length ss = 10" "\<forall>s \<in> set ss. session_rings_ready s"
    using new_sessions_spec by blast
  let ?sm = "\<lparr>sm_session_id = 0, sm_vct_sessions = [0..<10], sm_map_sessions = Map.empty, sm_sessions = ss\<rparr>"
  have "init_sessions fresh session_manager_new = Inr (True, ?sm)"
    using ss(1) by (simp add: init_sessions_def session_manager_new_def MAX_SESSION_def del: upt_rec_numeral)
  moreover have "sm_wf ?sm" using ss(2) by (simp add: sm_wf_def atLeast0LessThan del: upt_rec_numeral)
  ultimately show ?thesis using ss by (intro that [of ?sm]) simp_all
qed

text \<open>\<open>init_sessions\<close> on a new manager makes ten sessions with empty rings of 4096 bytes, all of them free; ten
  claims hand them out in order and the eleventh finds none.\<close>

theorem init_sessions_ready:
  "\<exists>sm. init_sessions fresh session_manager_new = Inr (True, sm) \<and> sm_wf sm \<and>
     length (sm_sessions sm) = MAX_SESSION \<and> list_all session_rings_ready (sm_sessions sm) \<and>
     claim_many 11 sm = map Some [0..<MAX_SESSION] @ [None]"
proof -
  obtain sm where sm: "init_sessions fresh session_manager_new = Inr (True, sm)" "sm_wf sm"
    "sm_vct_sessions sm = [0..<10]" "length (sm_sessions sm) = 10"
    "\<forall>s \<in> set (sm_sessions sm). session_rings_ready s"
    by (rule init_sessions_spec)
  have "claim_many 11 sm = map Some [0..<10] @ [None]"
    unfolding claim_many_eq sm(3) by (simp del: upt_rec_numeral)
  with sm show ?thesis by (auto simp: MAX_SESSION_def list_all_iff)
qed

text \<open>No constructor initialises the queues of a session: it starts with the indices its memory held. Wherever those
  differ, the first fetch from the new session reports a message nobody pushed, and if they are at least
  128 apart, no message can be pushed at all.\<close>

theorem new_session_queues_indeterminate:
  "\<exists>s. net_session_new fresh = Inr s \<and>
     fst (fetch_from_readqueue nm s) = (lq_push (fresh_read_queue fresh) \<noteq> lq_pop (fresh_read_queue fresh)) \<and>
     fst (push_to_readqueue nm s) = (lq_push (fresh_read_queue fresh) - lq_pop (fresh_read_queue fresh) < 128)"
proof -
  obtain s where s: "net_session_new fresh = Inr s" "ss_read_queue s = fresh_read_queue fresh"
    by (rule net_session_new_spec)
  then show ?thesis
    by (simp add: fetch_from_readqueue_def push_to_readqueue_def pop_front_def push_back_def MAX_QUEUE_LEN_def)
qed

end
