(* ===== verification/Singleton.thy ===== *)
theory Singleton
  imports Prelude
begin

text \<open>
  The singleton template of \<open>src/leo_singleton.h\<close>: a static pointer that is null, points to
  the instance or, after a release, still points to where the instance was.
\<close>

datatype 'a singleton = Null | Live 'a | Dangling

text \<open>\<open>make\<close> is \<open>new t\<close>. The assertions are live, as in the debug build.\<close>

definition create_singleton :: "'a \<Rightarrow> 'a singleton \<Rightarrow> 'a singleton result" where
  "create_singleton make p = (case p of Null \<Rightarrow> Inr (Live make) | _ \<Rightarrow> Inl Assert_Failed)"

text \<open>\<open>release_singleton\<close> deletes the instance and leaves the pointer as it is.\<close>

definition release_singleton :: "'a singleton \<Rightarrow> 'a singleton result" where
  "release_singleton p =
     (case p of Null \<Rightarrow> Inl Assert_Failed | Live _ \<Rightarrow> Inr Dangling | Dangling \<Rightarrow> Inl Use_After_Free)"

text \<open>\<open>instance\<close> asserts the pointer and returns it; the caller uses what it points to.\<close>

definition instance_of :: "'a singleton \<Rightarrow> 'a result" where
  "instance_of p =
     (case p of Null \<Rightarrow> Inl Assert_Failed | Live x \<Rightarrow> Inr x | Dangling \<Rightarrow> Inl Use_After_Free)"

datatype singleton_call = Create | Release | Use

fun singleton_run :: "'a \<Rightarrow> 'a singleton \<Rightarrow> singleton_call list \<Rightarrow> 'a singleton result" where
  "singleton_run make p [] = Inr p"
| "singleton_run make p (Create # cs) = chain (create_singleton make p) (\<lambda>p'. singleton_run make p' cs)"
| "singleton_run make p (Release # cs) = chain (release_singleton p) (\<lambda>p'. singleton_run make p' cs)"
| "singleton_run make p (Use # cs) = chain (instance_of p) (\<lambda>_. singleton_run make p cs)"

lemma run_dangling: "singleton_run make Dangling cs = Inr p \<longleftrightarrow> cs = [] \<and> p = Dangling"
  by (cases "(make, Dangling :: 'a singleton, cs)" rule: singleton_run.cases)
    (auto simp: create_singleton_def release_singleton_def instance_of_def)

lemma run_live:
  "singleton_run make (Live x) cs = Inr p \<longleftrightarrow>
     (cs = replicate (length cs) Use \<and> p = Live x) \<or>
     (\<exists>n. cs = replicate n Use @ [Release] \<and> p = Dangling)"
proof (induction cs)
  case Nil
  then show ?case by auto
next
  case (Cons c cs)
  show ?case
  proof (cases c)
    case Create
    have "Create # cs \<noteq> replicate n Use @ [Release]" for n by (cases n) auto
    then show ?thesis using Create by (auto simp: create_singleton_def)
  next
    case Release
    have "Release # cs = replicate n Use @ [Release] \<longleftrightarrow> n = 0 \<and> cs = []" for n by (cases n) auto
    then show ?thesis using Release by (auto simp: release_singleton_def run_dangling)
  next
    case Use
    have "Use # cs = replicate n Use @ [Release] \<longleftrightarrow> (\<exists>m. n = Suc m \<and> cs = replicate m Use @ [Release])" for n
      by (cases n) auto
    then show ?thesis using Use Cons.IH by (auto simp: instance_of_def)
  qed
qed

text \<open>The only sequences of calls that do not fail an assertion or touch freed memory create the
  instance once, use it any number of times and release it at most once, last: a released singleton can neither
  be used nor created again.\<close>

theorem singleton_lifecycle:
  "singleton_run make Null cs = Inr p \<longleftrightarrow>
     (cs = [] \<and> p = Null) \<or>
     (\<exists>n. cs = Create # replicate n Use \<and> p = Live make) \<or>
     (\<exists>n. cs = Create # replicate n Use @ [Release] \<and> p = Dangling)"
proof (cases cs)
  case Nil
  then show ?thesis by auto
next
  case (Cons c cs')
  show ?thesis
  proof (cases c)
    case Create
    have "(cs' = replicate (length cs') Use) = (\<exists>n. cs' = replicate n Use)" by (metis length_replicate)
    then show ?thesis unfolding Cons Create by (auto simp: create_singleton_def run_live)
  qed (auto simp: Cons release_singleton_def instance_of_def)
qed

end
