(* ===== verification/Server.thy ===== *)
theory Server
  imports Net_Session Singleton
begin

text \<open>
  The server of \<open>src/main.c\<close>: the three application callbacks, the start-up sequence and
  the event loop as a sequence of callbacks.
\<close>

section \<open>State\<close>

record ('r, 'w) server =
  sv_instance :: "session_manager singleton"
  sv_events :: net_events
  sv_world :: 'w
  sv_messages :: "net_message list"     \<comment> \<open>the messages allocated so far\<close>
  sv_rand :: 'r                         \<comment> \<open>the state of \<open>rand()\<close>\<close>
  sv_xor_keys :: "byte list list"
  sv_crc_table :: "u32 list"

definition session_at :: "nat \<Rightarrow> session_manager \<Rightarrow> net_session result" where
  "session_at i sm = (if i < length (sm_sessions sm) then Inr (sm_sessions sm ! i) else Inl Use_After_Free)"

definition set_session :: "nat \<Rightarrow> net_session \<Rightarrow> session_manager \<Rightarrow> session_manager" where
  "set_session i s sm = sm\<lparr>sm_sessions := (sm_sessions sm)[i := s]\<rparr>"

definition message_at :: "nat \<Rightarrow> net_message list \<Rightarrow> net_message result" where
  "message_at i ms = (if i < length ms then Inr (ms ! i) else Inl Use_After_Free)"

section \<open>A connection is accepted\<close>

text \<open>
  The result of \<open>insert_session\<close> is ignored, and the packet \<open>send_key\<close> leaves in the local
  buffer goes nowhere. \<open>stack\<close> is what the 32 bytes of that buffer held.
\<close>

definition on_accept :: "'r rand \<Rightarrow> byte list \<Rightarrow> int \<Rightarrow> ('r, 'w) server \<Rightarrow> ('r, 'w) server result" where
  "on_accept rand stack fd sv =
     chain (instance_of (sv_instance sv)) (\<lambda>sm.
     case claim_one_session sm of
       (None, sm1) \<Rightarrow> Inr (sv\<lparr>sv_instance := Live sm1\<rparr>)
     | (Some i, sm1) \<Rightarrow>
         chain (session_at i sm1) (\<lambda>s.
         let s1 = set_socket fd s; sm2 = set_session i s1 sm1 in
         chain (insert_session fd (Some i) sm2) (\<lambda>(_, sm3).
         chain (send_key rand (sv_xor_keys sv) (ss_crypt s1) stack 32 (sv_rand sv)) (\<lambda>(_, ac, _, r).
         Inr (sv\<lparr>sv_instance := Live (set_session i (s1\<lparr>ss_crypt := ac\<rparr>) sm3), sv_rand := r\<rparr>)))))"

section \<open>Data arrives\<close>

text \<open>
  The first half of \<open>on_read\<close>: \<open>recv\<close> is given the address of the next free byte and the
  number of free bytes, which need not lie together, and the write index moves by the count.
\<close>

definition recv_into_ring ::
  "'w net_lib \<Rightarrow> int \<Rightarrow> ring_buffer \<Rightarrow> 'w \<Rightarrow> (int \<times> ring_buffer \<times> 'w) result" where
  "recv_into_ring lib fd rb w =
     chain (net_socket_recv lib fd (rb_bytes rb) (write_p rb) (unat (available rb)) w) (\<lambda>(len, bytes, w').
     let rb1 = rb\<lparr>rb_bytes := bytes\<rparr> in
     Inr (len, if 0 < len then snd (seek_write rb1 (of_int len)) else rb1, w'))"

text \<open>
  The loop takes one frame a turn. \<open>ml\<close> is the two bytes of the variable \<open>message_len\<close>, \<open>ms\<close>
  the messages allocated. The number of turns is bounded by \<open>fuel\<close>.
\<close>

fun read_loop :: "nat \<Rightarrow> u32 list \<Rightarrow> byte list \<Rightarrow> net_session \<Rightarrow> net_message list
    \<Rightarrow> (net_session \<times> net_message list) result" where
  "read_loop 0 tab ml s ms = Inl No_Return"
| "read_loop (Suc fuel) tab ml s ms =
     chain (preread_message_size s ml 2) (\<lambda>(len, ml1).
     if len < 2 then Inr (s, ms)
     else
       let ac = ss_crypt s; rb = ss_read_buffer s;
           message_len = le_word ml1 XOR ucast (ac_session_key ac AND 0x0000ffff) :: u16 in
       if used rb < ucast message_len then Inr (s, ms)
       else
         chain (transform_buffer_to_message tab ac net_message_new (rb_bytes rb) (read_p rb) (ucast message_len))
           (\<lambda>(_, ac', nm, bytes).
         let rb' = snd (seek_read (rb\<lparr>rb_bytes := bytes\<rparr>) (ucast message_len));
             s1 = s\<lparr>ss_crypt := ac', ss_read_buffer := rb'\<rparr>;
             s2 = snd (push_to_readqueue (Some (length ms)) s1)
         in read_loop fuel tab (le_bytes 2 message_len) s2 (ms @ [nm])))"

definition on_read :: "'w net_lib \<Rightarrow> byte list \<Rightarrow> int \<Rightarrow> ('r, 'w) server \<Rightarrow> ('r, 'w) server result" where
  "on_read lib ml fd sv =
     chain (instance_of (sv_instance sv)) (\<lambda>sm.
     chain (get_one_session fd sm) (\<lambda>p.
     case p of
       None \<Rightarrow> Inr sv
     | Some i \<Rightarrow>
         chain (session_at i sm) (\<lambda>s.
         chain (recv_into_ring lib fd (ss_read_buffer s) (sv_world sv)) (\<lambda>(len, rb, w).
         let s1 = s\<lparr>ss_read_buffer := rb\<rparr>; sv1 = sv\<lparr>sv_world := w\<rparr> in
         if 0 < len
         then chain (read_loop (Suc (unat (used rb))) (sv_crc_table sv) ml s1 (sv_messages sv)) (\<lambda>(s2, ms).
                Inr (sv1\<lparr>sv_instance := Live (set_session i s2 sm), sv_messages := ms\<rparr>))
         else Inr (sv1\<lparr>sv_instance := Live (set_session i s1 sm)\<rparr>)))))"

section \<open>The socket can be written\<close>

text \<open>
  The local variable \<open>message\<close> is never assigned, because the fetch takes it by value: \<open>None\<close>
  is its indeterminate value.
\<close>

lemma fetch_measure:
  "fetch_from_writequeue p s = (True, s1) \<Longrightarrow>
   unat (lq_push (ss_write_queue s1) - lq_pop (ss_write_queue s1)) <
   unat (lq_push (ss_write_queue s) - lq_pop (ss_write_queue s))"
proof -
  let ?q = "ss_write_queue s"
  assume "fetch_from_writequeue p s = (True, s1)"
  then have ne: "lq_push ?q - lq_pop ?q \<noteq> 0" and s1: "ss_write_queue s1 = ?q\<lparr>lq_pop := lq_pop ?q + 1\<rparr>"
    by (auto simp: fetch_from_writequeue_def pop_front_def split: if_splits)
  have "lq_push (ss_write_queue s1) - lq_pop (ss_write_queue s1) = lq_push ?q - lq_pop ?q - 1"
    by (simp add: s1)
  with unat_minus_one [OF ne] ne show ?thesis by (simp add: unat_gt_0)
qed

function write_loop :: "net_message list \<Rightarrow> msg_ptr option \<Rightarrow> net_session \<Rightarrow> net_session result" where
  "write_loop ms message s =
     (case fetch_from_writequeue (case message of None \<Rightarrow> None | Some p \<Rightarrow> p) s of
        (False, s1) \<Rightarrow> Inr s1
      | (True, s1) \<Rightarrow>
          (case message of
             None \<Rightarrow> Inl Uninitialised
           | Some None \<Rightarrow> Inl Null_Pointer
           | Some (Some i) \<Rightarrow>
               chain (message_at i ms) (\<lambda>nm.
               let wb = ss_write_buffer s1 in
               chain (transform_message_to_buffer (ss_crypt s1) nm (rb_bytes wb) (write_p wb) (ucast (get_real_size nm)))
                 (\<lambda>(len, bytes).
               let wb1 = wb\<lparr>rb_bytes := bytes\<rparr>;
                   wb2 = (if 0 < len then snd (seek_write wb1 len) else wb1)
               in write_loop ms message (s1\<lparr>ss_write_buffer := wb2\<rparr>)))))"
  by pat_completeness auto
termination
  by (relation "measure (\<lambda>(ms, message, s). unat (lq_push (ss_write_queue s) - lq_pop (ss_write_queue s)))")
    (auto dest: fetch_measure [OF sym])

definition on_write :: "'w net_lib \<Rightarrow> int \<Rightarrow> ('r, 'w) server \<Rightarrow> ('r, 'w) server result" where
  "on_write lib fd sv =
     chain (instance_of (sv_instance sv)) (\<lambda>sm.
     chain (get_one_session fd sm) (\<lambda>p.
     case p of
       None \<Rightarrow> Inr sv
     | Some i \<Rightarrow>
         chain (session_at i sm) (\<lambda>s.
         chain (write_loop (sv_messages sv) None s) (\<lambda>s1.
         let wb = ss_write_buffer s1; sv1 = sv\<lparr>sv_instance := Live (set_session i s1 sm)\<rparr> in
         chain (net_socket_send lib fd (rb_bytes wb) (read_p wb) (unat (used wb)) (sv_world sv)) (\<lambda>(len, w).
         if 0 < len \<and> rb_empty wb
         then chain (del_write_event lib (sv_events sv) s1 w) (\<lambda>w'. Inr (sv1\<lparr>sv_world := w'\<rparr>))
         else Inr (sv1\<lparr>sv_world := w\<rparr>))))))"

section \<open>Start-up and event loop\<close>

definition PORT :: u16 where "PORT = 6000"
definition BACKLOG :: int where "BACKLOG = 100"

text \<open>
  \<open>main\<close> up to \<open>event_base_dispatch\<close>: an exit code, or the event base, the listening socket and
  the state the loop starts with. \<open>tab\<close> is the storage of the checksum table.
\<close>

definition main_startup ::
  "'w net_lib \<Rightarrow> 'r rand \<Rightarrow> (nat \<Rightarrow> fresh_memory) \<Rightarrow> u32 list \<Rightarrow> 'r \<Rightarrow> 'w
     \<Rightarrow> (int + nat \<times> int \<times> ('r, 'w) server) result" where
  "main_startup lib rand fresh tab r w =
     (let (listen_fd, w1) = net_socket_open lib w in
      if listen_fd = - 1 then Inr (Inl (- 1))
      else let (b, w2) = net_socket_bind lib listen_fd PORT w1 in
      if b < 0 then Inr (Inl (- 1))
      else let (l, w3) = net_socket_listen lib listen_fd BACKLOG w2 in
      if l < 0 then Inr (Inl (- 1))
      else
        let (keys, r1) = initial_xor_keys rand r in
        chain (initial_crc32_table tab) (\<lambda>tab'.
        chain (create_singleton session_manager_new Null) (\<lambda>p.
        chain (instance_of p) (\<lambda>sm.
        chain (init_sessions fresh sm) (\<lambda>(_, sm1).
        let (eb, w4) = net_service_create lib w3 in
        case eb of
          None \<Rightarrow> Inr (Inl (- 1))
        | Some base \<Rightarrow>
            let (e, w5) = net_event_create lib base listen_fd (EV_READ OR EV_PERSIST) Net_Event_Accept w4 in
            (case e of
               None \<Rightarrow> Inr (Inl (- 1))
             | Some h \<Rightarrow>
                 let (_, w6) = net_event_add lib h None w5 in
                 Inr (Inr (base, listen_fd,
                   \<lparr>sv_instance = Live sm1, sv_events = net_events_init, sv_world = w6, sv_messages = [],
                    sv_rand = r1, sv_xor_keys = keys, sv_crc_table = tab'\<rparr>))))))))"

text \<open>The loop calls back for each event libevent reports, in the order it reports them. \<open>stack\<close> and
  \<open>ml\<close> are the indeterminate locals of the callbacks.\<close>

datatype io_event = Connection | Readable int | Writable int

text \<open>What \<open>main\<close> hands to the service.\<close>

definition main_service ::
  "'w net_lib \<Rightarrow> 'r rand \<Rightarrow> byte list \<Rightarrow> byte list \<Rightarrow> nat \<Rightarrow> ('r, 'w) server service_init" where
  "main_service lib rand stack ml base =
     \<lparr>si_ui = \<lparr>ui_read_cb = on_read lib ml, ui_write_cb = on_write lib, ui_accept_cb = on_accept rand stack\<rparr>, si_eb = base\<rparr>"

definition dispatch_one ::
  "'w net_lib \<Rightarrow> 'r rand \<Rightarrow> byte list \<Rightarrow> byte list \<Rightarrow> nat \<Rightarrow> int \<Rightarrow> io_event \<Rightarrow> ('r, 'w) server \<Rightarrow> ('r, 'w) server result" where
  "dispatch_one lib rand stack ml base listen_fd e sv =
     (let si = main_service lib rand stack ml base in
      case e of
        Connection \<Rightarrow>
          chain (net_event_accept lib si listen_fd (sv_events sv) (sv_world sv) sv)
            (\<lambda>(evs, w, sv'). Inr (sv'\<lparr>sv_events := evs, sv_world := w\<rparr>))
      | Readable fd \<Rightarrow> net_event_read si fd sv
      | Writable fd \<Rightarrow> net_event_write si fd sv)"

lemma main_service_fields [simp]:
  "si_eb (main_service lib rand stack ml base) = base"
  "ui_accept_cb (si_ui (main_service lib rand stack ml base)) = on_accept rand stack"
  "ui_read_cb (si_ui (main_service lib rand stack ml base)) = on_read lib ml"
  "ui_write_cb (si_ui (main_service lib rand stack ml base)) = on_write lib"
  by (simp_all add: main_service_def)

fun dispatch ::
  "'w net_lib \<Rightarrow> 'r rand \<Rightarrow> byte list \<Rightarrow> byte list \<Rightarrow> nat \<Rightarrow> int \<Rightarrow> io_event list \<Rightarrow> ('r, 'w) server \<Rightarrow> ('r, 'w) server result" where
  "dispatch lib rand stack ml base listen_fd [] sv = Inr sv"
| "dispatch lib rand stack ml base listen_fd (e # es) sv =
     chain (dispatch_one lib rand stack ml base listen_fd e sv) (\<lambda>sv'. dispatch lib rand stack ml base listen_fd es sv')"

section \<open>Receiving into the ring\<close>

lemma recv_into_ring_eq:
  assumes wf: "rb_wf rb" and lib: "lib_recv lib fd (unat (available rb)) w = (Some bs, w')"
    and len: "length bs \<le> unat (available rb)" and ne: "bs \<noteq> []"
  shows "recv_into_ring lib fd rb w =
    (if write_p rb + length bs \<le> rb_capacity rb
     then Inr (int (length bs), rb\<lparr>rb_bytes := ring_store (rb_bytes rb) (write_p rb) bs,
            rb_write := rb_write rb + of_nat (length bs)\<rparr>, w')
     else Inl Out_Of_Bounds)"
proof (cases "write_p rb + length bs \<le> rb_capacity rb")
  case True
  have l: "length (rb_bytes rb) = rb_capacity rb" using wf by (simp add: rb_capacity_def rb_wf_length)
  have st: "ring_store (rb_bytes rb) (write_p rb) bs = overwrite (rb_bytes rb) (write_p rb) bs"
    using True l by (simp add: ring_store_def)
  have u: "unat (of_nat (length bs) :: u32) = length bs"
    using len unsigned_less [of "available rb", where ?'a = nat] by (intro unat_of_nat_u32) simp
  have a: "available (rb\<lparr>rb_bytes := x\<rparr>) = available rb" for x by (simp add: available_def)
  have "\<not> available rb < of_nat (length bs)" using len by (simp add: word_less_nat_alt u)
  then show ?thesis
    using True ne l by (simp add: recv_into_ring_def net_socket_recv_def lib mem_write_def seek_write_def a st)
next
  case False
  then have "mem_write (rb_bytes rb) (write_p rb) bs = Inl Out_Of_Bounds"
    using wf by (simp add: mem_write_def rb_capacity_def rb_wf_length)
  with False show ?thesis by (simp add: recv_into_ring_def net_socket_recv_def lib)
qed

section \<open>The loop over the frames\<close>

lemma rb_wf_bytes: "rb_wf (rb\<lparr>rb_bytes := xs\<rparr>) \<longleftrightarrow> is_power_of_2 (rb_size rb) \<and> length xs = unat (rb_size rb) \<and> used rb \<le> rb_size rb"
  by (simp add: rb_wf_def used_def)

lemma used_bytes [simp]: "used (rb\<lparr>rb_bytes := xs\<rparr>) = used rb"
  by (simp add: used_def)

lemma rb_wf_small: "rb_wf rb \<Longrightarrow> length (rb_bytes rb) < 2 ^ 32"
  using unsigned_less [of "rb_size rb", where ?'a = nat] by (simp add: rb_wf_length)

text \<open>The parts of a session the loop relies on.\<close>

definition session_wf :: "net_session \<Rightarrow> bool" where
  "session_wf s \<longleftrightarrow> rb_wf (ss_read_buffer s) \<and> rb_capacity (ss_read_buffer s) = 4096 \<and>
     rb_wf (ss_write_buffer s) \<and> rb_capacity (ss_write_buffer s) = 4096 \<and> ac_wf (ss_crypt s)"

text \<open>One turn: either the loop ends or it goes on with fewer bytes, a well-formed session and one more message.\<close>

lemma unat_u16: "unat (ucast (m :: u16) :: u32) = unat m"
  using unsigned_less [of m, where ?'a = nat] by (simp add: unsigned_ucast_eq take_bit_nat_eq_self)

text \<open>The length of the next frame, when its two bytes have come.\<close>

definition next_length :: "net_session \<Rightarrow> u16" where
  "next_length s = le_word (take 2 (rb_contents (ss_read_buffer s))) XOR ucast (ac_session_key (ss_crypt s) AND 0x0000ffff)"

lemma read_loop_waits:
  assumes "session_wf s" and "length ml = 2" and "length (rb_contents (ss_read_buffer s)) < 2"
  shows "read_loop (Suc fuel) tab ml s ms = Inr (s, ms)"
proof -
  have "rb_wf (ss_read_buffer s)" using assms(1) by (simp add: session_wf_def)
  then have "preread_message_size s ml 2 = Inr (0, ml)"
    using peek_read_spec [of "ss_read_buffer s" 2 ml] assms(2,3) by (simp add: preread_message_size_def)
  then show ?thesis by simp
qed

lemma read_loop_step:
  assumes "session_wf s" and "length ml = 2" and "2 \<le> length (rb_contents (ss_read_buffer s))"
  defines "rb \<equiv> ss_read_buffer s" and "m \<equiv> next_length s"
  shows "read_loop (Suc fuel) tab ml s ms =
     (if used rb < ucast m then Inr (s, ms)
      else chain (transform_buffer_to_message tab (ss_crypt s) net_message_new (rb_bytes rb) (read_p rb) (ucast m)) (\<lambda>(_, ac', nm, bytes).
        let rb' = snd (seek_read (rb\<lparr>rb_bytes := bytes\<rparr>) (ucast m));
           s1 = s\<lparr>ss_crypt := ac', ss_read_buffer := rb'\<rparr>;
           s2 = snd (push_to_readqueue (Some (length ms)) s1)
       in read_loop fuel tab (le_bytes 2 m) s2 (ms @ [nm])))"
proof -
  have "rb_wf rb" using assms(1) by (simp add: session_wf_def rb_def)
  moreover have "overwrite ml 0 (take 2 (rb_contents rb)) = take 2 (rb_contents rb)"
    using assms(2,3) by (simp add: overwrite_0 rb_def)
  ultimately have "preread_message_size s ml 2 = Inr (2, take 2 (rb_contents rb))"
    using peek_read_spec [of rb 2 ml] assms(2,3) by (simp add: preread_message_size_def rb_def)
  then show ?thesis by (simp add: Let_def next_length_def m_def rb_def)
qed

text \<open>The frame leaves the ring, whose bytes it has been decrypted in.\<close>

lemma frame_leaves:
  fixes m :: u16
  assumes rb: "rb_wf rb" and bytes: "length bytes = length (rb_bytes rb)" and m: "unat m \<le> length (rb_contents rb)"
  defines "rb' \<equiv> snd (seek_read (rb\<lparr>rb_bytes := bytes\<rparr>) (ucast m))"
  shows "rb_wf rb'" and "rb_contents rb' = drop (unat m) (rb_contents (rb\<lparr>rb_bytes := bytes\<rparr>))" and "rb_capacity rb' = rb_capacity rb"
    and "unat (used rb') = unat (used rb) - unat m"
proof -
  let ?rb = "rb\<lparr>rb_bytes := bytes\<rparr>"
  have wf: "rb_wf ?rb" using rb bytes by (simp add: rb_wf_bytes) (simp add: rb_wf_def)
  have le: "unat (ucast m :: u32) \<le> length (rb_contents ?rb)" using m by (simp add: unat_u16)
  have e: "rb' = ?rb\<lparr>rb_read := rb_read ?rb + ucast m\<rparr>"
    using seek_read_spec(1) [OF wf, of "ucast m"] le by (simp add: rb'_def)
  show "rb_wf rb'" unfolding e by (rule seek_read_spec(2) [OF wf le])
  show c: "rb_contents rb' = drop (unat m) (rb_contents ?rb)"
    unfolding e using seek_read_spec(3) [OF wf le] by (simp only: unat_u16)
  show "rb_capacity rb' = rb_capacity rb" by (simp add: e rb_capacity_def)
  have "length (rb_contents rb') = length (rb_contents ?rb) - unat m" by (simp add: c del: length_rb_contents)
  then show "unat (used rb') = unat (used rb) - unat m" by simp
qed

lemma read_loop_turn:
  assumes wf: "session_wf s" and ml: "length ml = 2"
  obtains (ends) "\<And>fuel. read_loop (Suc fuel) tab ml s ms = Inr (s, ms)"
  | (faults) "\<And>fuel. read_loop (Suc fuel) tab ml s ms = Inl Out_Of_Bounds"
  | (goes_on) ml' s' where "\<And>fuel. read_loop (Suc fuel) tab ml s ms = read_loop fuel tab ml' s' (ms @ [net_message_new])"
      "length ml' = 2" "session_wf s'" "unat (used (ss_read_buffer s')) + 2 \<le> unat (used (ss_read_buffer s))"
proof (cases "length (rb_contents (ss_read_buffer s)) < 2 \<or> used (ss_read_buffer s) < ucast (next_length s)")
  case True
  then have "read_loop (Suc fuel) tab ml s ms = Inr (s, ms)" for fuel
    using read_loop_waits [OF wf ml] read_loop_step [OF wf ml] by (cases "length (rb_contents (ss_read_buffer s)) < 2") auto
  then show ?thesis by (rule ends)
next
  case enough: False
  let ?rb = "ss_read_buffer s" and ?m = "next_length s"
  define t where "t = transform_buffer_to_message tab (ss_crypt s) net_message_new (rb_bytes ?rb) (read_p ?rb) (ucast ?m)"
  have rb: "rb_wf ?rb" "rb_capacity ?rb = 4096" "length (rb_bytes ?rb) = 4096" using wf by (auto simp: session_wf_def rb_wf_length rb_capacity_def)
  note turn = read_loop_step [OF wf ml, of _ tab ms, folded t_def]
  show ?thesis
  proof (cases t)
    case (Inl e)
    then have "e = Out_Of_Bounds" unfolding t_def by (rule transform_in_Inl)
    then have "read_loop (Suc fuel) tab ml s ms = Inl Out_Of_Bounds" for fuel using turn enough Inl by simp
    then show ?thesis by (rule faults)
  next
    case (Inr r)
    obtain k ac' nm bytes where r: "r = (k, ac', nm, bytes)" by (cases r)
    note tr = transform_in_Inr [OF Inr [unfolded t_def r]]
    have m: "2 \<le> unat ?m"
    proof (rule ccontr)
      assume "\<not> 2 \<le> unat ?m"
      then have "t = Inl Out_Of_Bounds" unfolding t_def using rb by (intro transform_in_short) (simp_all add: unat_u16)
      with Inr show False by simp
    qed
    have le: "unat ?m \<le> length (rb_contents ?rb)" using enough by (simp add: word_less_nat_alt unat_u16)
    define rb' where "rb' = snd (seek_read (?rb\<lparr>rb_bytes := bytes\<rparr>) (ucast ?m))"
    define s' where "s' = snd (push_to_readqueue (Some (length ms)) (s\<lparr>ss_crypt := ac', ss_read_buffer := rb'\<rparr>))"
    note out = frame_leaves [OF rb(1) tr(1) le, folded rb'_def]
    have s': "ss_read_buffer s' = rb'" "ss_crypt s' = ac'" "ss_write_buffer s' = ss_write_buffer s"
      by (simp_all add: s'_def push_to_readqueue_def split: prod.split)
    have "session_wf s'" using wf out(1,3) rb(2) tr(2) by (simp add: session_wf_def s')
    moreover have "unat (used (ss_read_buffer s')) + 2 \<le> unat (used ?rb)" using out(4) m le by (simp add: s')
    moreover have "read_loop (Suc fuel) tab ml s ms = read_loop fuel tab (le_bytes 2 ?m) s' (ms @ [net_message_new])" for fuel
      using turn enough Inr tr(3) by (simp add: r Let_def s'_def rb'_def)
    ultimately show ?thesis by (intro goes_on [of "le_bytes 2 ?m" s']) simp_all
  qed
qed

lemma read_loop_returns:
  "session_wf s \<Longrightarrow> length ml = 2 \<Longrightarrow> unat (used (ss_read_buffer s)) < fuel \<Longrightarrow>
   read_loop fuel tab ml s ms \<noteq> Inl No_Return \<and>
   (\<forall>s' ms'. read_loop fuel tab ml s ms = Inr (s', ms') \<longrightarrow> session_wf s' \<and> (\<exists>n. ms' = ms @ replicate n net_message_new))"
proof (induction fuel arbitrary: ml s ms)
  case 0
  then show ?case by simp
next
  case (Suc fuel)
  from Suc.prems(1,2) show ?case
  proof (cases rule: read_loop_turn [where tab = tab and ms = ms])
    case ends
    then show ?thesis using Suc.prems by (auto intro: exI [of _ 0])
  next
    case faults
    then show ?thesis by simp
  next
    case (goes_on ml' s')
    have "unat (used (ss_read_buffer s')) < fuel" using goes_on(4) Suc.prems(3) by simp
    from Suc.IH [OF goes_on(3,2) this, of "ms @ [net_message_new]"]
    have ret: "read_loop fuel tab ml' s' (ms @ [net_message_new]) \<noteq> Inl No_Return"
      and inr: "\<And>s1 ms1. read_loop fuel tab ml' s' (ms @ [net_message_new]) = Inr (s1, ms1) \<Longrightarrow>
        session_wf s1 \<and> (\<exists>n. ms1 = (ms @ [net_message_new]) @ replicate n net_message_new)"
      by blast+
    have "\<exists>n. ms1 = ms @ replicate n net_message_new"
      if "ms1 = (ms @ [net_message_new]) @ replicate n net_message_new" for ms1 n
      using that by (intro exI [of _ "Suc n"]) simp
    with ret inr show ?thesis unfolding goes_on(1) by blast
  qed
qed

section \<open>The invariant of the server\<close>

definition server_inv :: "('r, 'w) server \<Rightarrow> bool" where
  "server_inv sv \<longleftrightarrow>
     (case sv_instance sv of
        Live sm \<Rightarrow> sm_wf sm \<and> (\<forall>s \<in> set (sm_sessions sm). session_wf s)
      | _ \<Rightarrow> False) \<and>
     length (sv_xor_keys sv) = MAX_XOR_NUM \<and> (\<forall>row \<in> set (sv_xor_keys sv). key_row_ok row)"

definition free_sessions :: "('r, 'w) server \<Rightarrow> nat list" where
  "free_sessions sv = (case sv_instance sv of Live sm \<Rightarrow> sm_vct_sessions sm | _ \<Rightarrow> [])"

text \<open>What \<open>recv\<close> is documented to do: it never returns more bytes than it was asked for.\<close>

definition recv_bounded :: "'w net_lib \<Rightarrow> bool" where
  "recv_bounded lib \<longleftrightarrow> (\<forall>fd n w bs w'. lib_recv lib fd n w = (Some bs, w') \<longrightarrow> length bs \<le> n)"

lemma server_invE:
  assumes "server_inv sv"
  obtains sm where "sv_instance sv = Live sm" "sm_wf sm" "\<forall>s \<in> set (sm_sessions sm). session_wf s"
    "length (sv_xor_keys sv) = MAX_XOR_NUM" "\<forall>row \<in> set (sv_xor_keys sv). key_row_ok row"
  using assms by (auto simp: server_inv_def split: singleton.splits)

lemma set_session_fields [simp]:
  "sm_vct_sessions (set_session i s sm) = sm_vct_sessions sm"
  "sm_map_sessions (set_session i s sm) = sm_map_sessions sm"
  "length (sm_sessions (set_session i s sm)) = length (sm_sessions sm)"
  by (simp_all add: set_session_def)

lemma sm_wf_set_session [simp]: "sm_wf (set_session i s sm) \<longleftrightarrow> sm_wf sm"
  by (simp add: sm_wf_def)

lemma sessions_set_session:
  "\<forall>s \<in> set (sm_sessions sm). P s \<Longrightarrow> P t \<Longrightarrow> \<forall>s \<in> set (sm_sessions (set_session i t sm)). P s"
  using set_update_subset_insert [of "sm_sessions sm" i t] by (auto simp: set_session_def)

lemma session_at_Inr: "session_at i sm = Inr s \<Longrightarrow> i < length (sm_sessions sm) \<and> s = sm_sessions sm ! i"
  by (simp add: session_at_def split: if_splits)

lemma set_session_same: "session_at i sm = Inr s \<Longrightarrow> set_session i s sm = sm"
  by (auto simp: set_session_def dest: session_at_Inr)

text \<open>A new connection gets the first free session, if there is one.\<close>

lemma on_accept_none:
  "sv_instance sv = Live sm \<Longrightarrow> sm_vct_sessions sm = [] \<Longrightarrow> on_accept rand stack fd sv = Inr sv"
  by (simp add: on_accept_def instance_of_def claim_one_session_def)

lemma on_accept_some:
  assumes inv: "server_inv sv" and sm: "sv_instance sv = Live sm" and free: "sm_vct_sessions sm = i # rest"
    and fd: "0 < fd" and stack: "length stack = 32"
  obtains ac r sm' where "on_accept rand stack fd sv = Inr (sv\<lparr>sv_instance := Live sm', sv_rand := r\<rparr>)"
    and "sm_vct_sessions sm' = rest"
    and "sm_map_sessions sm' = (if sm_map_sessions sm fd = None then (sm_map_sessions sm)(fd \<mapsto> i) else sm_map_sessions sm)"
    and "sm_sessions sm' = (sm_sessions sm)[i := (sm_sessions sm ! i)\<lparr>ss_socket := fd, ss_crypt := ac\<rparr>]"
    and "ac_wf ac" and "ac_sequence_id ac = 0" and "ac_xor_key ac \<in> set (sv_xor_keys sv)"
    and "sm_wf sm'" and "i < length (sm_sessions sm)" and "i \<notin> ran (sm_map_sessions sm)"
proof -
  let ?sm1 = "sm\<lparr>sm_vct_sessions := rest\<rparr>" and ?s = "sm_sessions sm ! i"
  have wf: "sm_wf sm" and ss: "\<forall>s \<in> set (sm_sessions sm). session_wf s"
    and keys: "length (sv_xor_keys sv) = MAX_XOR_NUM" "\<forall>row \<in> set (sv_xor_keys sv). key_row_ok row"
    using inv sm by (auto elim: server_invE)
  have c: "claim_one_session sm = (Some i, ?sm1)" using free by (simp add: claim_one_session_def)
  note cl = sm_wf_claim [OF wf c]
  have i: "i < length (sm_sessions sm)" using cl(4) by simp
  then have "ac_wf (ss_crypt ?s)" using ss by (simp add: session_wf_def)
  then obtain ac buf r where k: "send_key rand (sv_xor_keys sv) (ss_crypt ?s) stack 32 (sv_rand sv) = Inr (32, ac, buf, r)"
      and ac: "ac_wf ac" "ac_sequence_id ac = 0" "ac_xor_key ac \<in> set (sv_xor_keys sv)"
    using keys send_key_spec [of "ss_crypt ?s" stack "sv_xor_keys sv" rand 32 "sv_rand sv"] stack by (metis order_refl)
  let ?sm2 = "set_session i (set_socket fd ?s) ?sm1"
  obtain sm3 where ins: "insert_session fd (Some i) ?sm2 = Inr (sm_map_sessions ?sm2 fd = None, sm3)"
    using insert_session_Inr [OF fd, of i ?sm2] by (elim exE)
  have sm3: "sm_vct_sessions sm3 = rest" "sm_sessions sm3 = sm_sessions ?sm2"
    "sm_map_sessions sm3 = (if sm_map_sessions sm fd = None then (sm_map_sessions sm)(fd \<mapsto> i) else sm_map_sessions sm)"
    using ins fd by (auto simp: insert_session_def split: option.splits)
  have wf3: "sm_wf sm3"
    by (rule sm_wf_insert [OF _ _ _ _ ins]) (simp_all only: sm_wf_set_session set_session_fields cl cl(2) [unfolded cl(5)] not_False_eq_True)
  let ?t = "(set_socket fd ?s)\<lparr>ss_crypt := ac\<rparr>"
  have "session_at i ?sm1 = Inr ?s" using i by (simp add: session_at_def)
  then have "on_accept rand stack fd sv = Inr (sv\<lparr>sv_instance := Live (set_session i ?t sm3), sv_rand := r\<rparr>)"
    using k ins by (simp add: on_accept_def sm instance_of_def c Let_def set_socket_def)
  moreover have "sm_sessions (set_session i ?t sm3) = (sm_sessions sm)[i := ?s\<lparr>ss_socket := fd, ss_crypt := ac\<rparr>]"
    by (simp add: set_session_def sm3 set_socket_def)
  moreover have "i \<notin> ran (sm_map_sessions sm)" using cl(2) by simp
  ultimately show ?thesis
    using sm3 wf3 ac i by (intro that [of r "set_session i ?t sm3" ac]) simp_all
qed

lemma on_accept_fd:
  assumes sm: "sv_instance sv = Live sm" and free: "sm_vct_sessions sm = i # rest" and "\<not> 0 < fd"
  shows "\<exists>e. on_accept rand stack fd sv = Inl e"
proof (cases "session_at i (sm\<lparr>sm_vct_sessions := rest\<rparr>)")
  case (Inl e)
  then show ?thesis by (simp add: on_accept_def sm instance_of_def claim_one_session_def free)
next
  case (Inr s)
  then show ?thesis
    using assms(3) by (simp add: on_accept_def sm instance_of_def claim_one_session_def free insert_session_def Let_def)
qed

lemma on_accept_inv:
  assumes inv: "server_inv sv" and stack: "length stack = 32" and acc: "on_accept rand stack fd sv = Inr sv'"
  shows "server_inv sv'" and "\<exists>k. free_sessions sv' = drop k (free_sessions sv)"
    and "sv_world sv' = sv_world sv" and "sv_events sv' = sv_events sv"
proof -
  obtain sm where sm: "sv_instance sv = Live sm" and ss: "\<forall>s \<in> set (sm_sessions sm). session_wf s"
    using inv by (rule server_invE)
  have "server_inv sv' \<and> (\<exists>k. free_sessions sv' = drop k (free_sessions sv)) \<and>
    sv_world sv' = sv_world sv \<and> sv_events sv' = sv_events sv"
  proof (cases "sm_vct_sessions sm")
    case Nil
    then have "sv' = sv" using acc on_accept_none [OF sm] by simp
    then show ?thesis using inv by (auto intro: exI [of _ 0])
  next
    case free: (Cons i rest)
    have fd: "0 < fd"
    proof (rule ccontr)
      assume "\<not> 0 < fd"
      from on_accept_fd [OF sm free this, of rand stack] acc show False by auto
    qed
    obtain ac r sm' where a: "on_accept rand stack fd sv = Inr (sv\<lparr>sv_instance := Live sm', sv_rand := r\<rparr>)"
      and sm': "sm_vct_sessions sm' = rest" "sm_wf sm'" "i < length (sm_sessions sm)" "ac_wf ac"
        "sm_sessions sm' = (sm_sessions sm)[i := (sm_sessions sm ! i)\<lparr>ss_socket := fd, ss_crypt := ac\<rparr>]"
      by (rule on_accept_some [OF inv sm free fd stack])
    have "session_wf ((sm_sessions sm ! i)\<lparr>ss_socket := fd, ss_crypt := ac\<rparr>)"
      using ss sm'(3,4) nth_mem [OF sm'(3)] by (simp add: session_wf_def)
    then have "\<forall>s \<in> set (sm_sessions sm'). session_wf s"
      using ss set_update_subset_insert [of "sm_sessions sm" i] by (auto simp: sm'(5))
    then show ?thesis
      using a acc inv sm' sm free by (auto simp: server_inv_def free_sessions_def intro: exI [of _ 1])
  qed
  then show "server_inv sv'" and "\<exists>k. free_sessions sv' = drop k (free_sessions sv)"
    and "sv_world sv' = sv_world sv" and "sv_events sv' = sv_events sv" by blast+
qed

end
