(* ===== verification/Server_Run.thy ===== *)
theory Server_Run
  imports Server
begin

text \<open>
  What the callbacks of \<open>src/main.c\<close> do to a connection and what a run of the event loop keeps:
  every callback returns, the sessions and keys stay well formed, no session is owned twice.
\<close>

lemma server_inv_upd [simp]:
  "server_inv (sv\<lparr>sv_world := w\<rparr>) = server_inv sv" "server_inv (sv\<lparr>sv_events := evs\<rparr>) = server_inv sv"
  "free_sessions (sv\<lparr>sv_world := w\<rparr>) = free_sessions sv" "free_sessions (sv\<lparr>sv_events := evs\<rparr>) = free_sessions sv"
  by (simp_all add: server_inv_def free_sessions_def)

section \<open>Receiving\<close>

lemma recv_into_ring_Inr:
  assumes wf: "rb_wf rb" and lib: "recv_bounded lib" and r: "recv_into_ring lib fd rb w = Inr (len, rb', w')"
  shows "rb_wf rb'" and "rb_capacity rb' = rb_capacity rb"
    and "\<exists>bs. rb_contents rb' = rb_contents rb @ bs \<and> len = (if bs = [] then len else int (length bs))"
proof -
  obtain res w1 where l: "lib_recv lib fd (unat (available rb)) w = (res, w1)" by (cases "lib_recv lib fd (unat (available rb)) w")
  have "rb_wf rb' \<and> rb_capacity rb' = rb_capacity rb \<and> (\<exists>bs. rb_contents rb' = rb_contents rb @ bs \<and> len = (if bs = [] then len else int (length bs)))"
  proof (cases "res = None \<or> res = Some []")
    case True
    then have "rb' = rb"
      using r l wf by (auto simp: recv_into_ring_def net_socket_recv_def mem_write_def split: if_splits)
    then show ?thesis using wf by (auto intro: exI [of _ "[]"])
  next
    case False
    then obtain bs where bs: "res = Some bs" "bs \<noteq> []" by auto
    then have n: "length bs \<le> unat (available rb)" using lib l unfolding recv_bounded_def by blast
    have rb': "rb' = rb\<lparr>rb_bytes := ring_store (rb_bytes rb) (write_p rb) bs, rb_write := rb_write rb + of_nat (length bs)\<rparr>"
      and len: "len = int (length bs)"
      using r recv_into_ring_eq [OF wf l [unfolded bs(1)] n bs(2)] by (auto split: if_splits)
    show ?thesis
      using rb_append_bytes [OF wf n rb'] len by (auto simp: rb' rb_capacity_def)
  qed
  then show "rb_wf rb'" and "rb_capacity rb' = rb_capacity rb"
    and "\<exists>bs. rb_contents rb' = rb_contents rb @ bs \<and> len = (if bs = [] then len else int (length bs))" by blast+
qed

text \<open>C5. \<open>on_read\<close> receives straight into the ring. As long as the bytes fit between the write index and the end of
  the array, the ring holds them behind what it held; as soon as they would wrap, they are written
  past the end of the array, although \<open>available()\<close> promised room for them.\<close>

theorem recv_into_ring_correct:
  assumes "rb_wf rb" and "lib_recv lib fd (unat (available rb)) w = (Some bs, w')"
    and "length bs \<le> unat (available rb)" and "bs \<noteq> []"
  shows "if write_p rb + length bs \<le> rb_capacity rb
    then \<exists>rb'. recv_into_ring lib fd rb w = Inr (int (length bs), rb', w') \<and> rb_wf rb' \<and> rb_contents rb' = rb_contents rb @ bs
    else recv_into_ring lib fd rb w = Inl Out_Of_Bounds"
  using recv_into_ring_eq [OF assms] rb_append_bytes [OF assms(1,3) refl] by simp

text \<open>A library whose peer sends the bytes of the world, and on whose sockets everything else succeeds.\<close>

definition example_lib :: "byte list net_lib" where
  "example_lib = \<lparr>lib_socket = (\<lambda>w. (3, w)), lib_closesocket = (\<lambda>_ w. w), lib_bind = (\<lambda>_ _ w. (0, w)),
     lib_listen = (\<lambda>_ _ w. (0, w)), lib_accept = (\<lambda>_ w. (9, w)),
     lib_recv = (\<lambda>_ n w. (Some (take n w), drop n w)),
     lib_send = (\<lambda>_ bs w. (int (length bs), w @ bs)), lib_nonblocking = (\<lambda>_ w. (0, w)), lib_reuseaddr = (\<lambda>_ w. (0, w)),
     lib_setsockopt_nodelay = (\<lambda>_ w. (0, w)), lib_event_base_new = (\<lambda>w. (Some 0, w)), lib_event_base_free = (\<lambda>_ w. w),
     lib_event_new = (\<lambda>_ _ _ cb w. (Some (if cb = Net_Event_Read then 1 else 2), w)), lib_event_free = (\<lambda>_ w. w),
     lib_event_add = (\<lambda>_ _ w. (0, w)), lib_event_del = (\<lambda>_ w. (0, w)),
     lib_event_assign = (\<lambda>_ _ _ _ _ w. (0, w)), lib_free = (\<lambda>_ w. w)\<rparr>"

lemma example_lib_bounded: "recv_bounded example_lib"
  by (auto simp: recv_bounded_def example_lib_def)

theorem recv_into_ring_correct_witness:
  "(\<exists>rb'. recv_into_ring example_lib 7 example_ring [1, 2] = Inr (2, rb', []) \<and> rb_wf rb' \<and> rb_contents rb' = [10, 11, 12, 1, 2]) \<and>
   recv_into_ring example_lib 7 (example_ring\<lparr>rb_write := 0xFFFFFFFE\<rparr>) [1, 2, 3] = Inl Out_Of_Bounds"
proof (intro conjI)
  have "unat (available example_ring) = 5" "write_p example_ring = 1"
    by (simp_all add: available_def write_p_def example_ring_def)
  then show "\<exists>rb'. recv_into_ring example_lib 7 example_ring [1, 2] = Inr (2, rb', []) \<and> rb_wf rb' \<and> rb_contents rb' = [10, 11, 12, 1, 2]"
    using recv_into_ring_correct [of example_ring example_lib 7 "[1, 2]" "[1, 2]" "[]"] by (simp add: example_lib_def)
  let ?rb = "example_ring\<lparr>rb_write := 0xFFFFFFFE\<rparr>"
  have "unat (available ?rb) = 8" "write_p ?rb = 6" "rb_wf ?rb" "rb_capacity ?rb = 8"
    by (simp_all add: available_def write_p_def example_ring_def rb_wf_def used_def is_power_of_2_def rb_capacity_def)
  then show "recv_into_ring example_lib 7 ?rb [1, 2, 3] = Inl Out_Of_Bounds"
    using recv_into_ring_correct [of ?rb example_lib 7 "[1, 2, 3]" "[1, 2, 3]" "[]"] by (simp add: example_lib_def)
qed

section \<open>Reading\<close>

lemma mapped_session: "sm_wf sm \<Longrightarrow> sm_map_sessions sm fd = Some i \<Longrightarrow> i < length (sm_sessions sm)"
  unfolding sm_wf_def using ranI [of "sm_map_sessions sm" fd i] by blast

text \<open>On a socket of the map: receive, then take frames out as long as something came.\<close>

lemma on_read_mapped:
  assumes sm: "sv_instance sv = Live sm" and fd: "0 < fd" "sm_map_sessions sm fd = Some i" and i: "i < length (sm_sessions sm)"
  defines "s \<equiv> sm_sessions sm ! i"
  shows "on_read lib ml fd sv = chain (recv_into_ring lib fd (ss_read_buffer s) (sv_world sv)) (\<lambda>(len, rb, w).
         if 0 < len
         then chain (read_loop (Suc (unat (used rb))) (sv_crc_table sv) ml (s\<lparr>ss_read_buffer := rb\<rparr>) (sv_messages sv)) (\<lambda>(s2, ms).
                Inr (sv\<lparr>sv_world := w, sv_instance := Live (set_session i s2 sm), sv_messages := ms\<rparr>))
         else Inr (sv\<lparr>sv_world := w, sv_instance := Live (set_session i (s\<lparr>ss_read_buffer := rb\<rparr>) sm)\<rparr>))"
  unfolding s_def using fd i by (simp add: on_read_def sm instance_of_def get_one_session_def session_at_def Let_def del: read_loop.simps)

lemma on_read_lost:
  "sv_instance sv = Live sm \<Longrightarrow> \<not> (0 < fd \<and> sm_map_sessions sm fd \<noteq> None) \<Longrightarrow>
   on_read lib ml fd sv = (if 0 < fd then Inr sv else Inl Assert_Failed)"
  by (auto simp: on_read_def instance_of_def get_one_session_def)

lemma server_inv_session:
  assumes "server_inv sv" and "sv_instance sv = Live sm" and "session_wf t"
  shows "server_inv (sv\<lparr>sv_world := w, sv_instance := Live (set_session i t sm), sv_messages := ms\<rparr>)"
    and "server_inv (sv\<lparr>sv_world := w, sv_instance := Live (set_session i t sm)\<rparr>)"
    and "free_sessions (sv\<lparr>sv_world := w, sv_instance := Live (set_session i t sm), sv_messages := ms\<rparr>) = free_sessions sv"
    and "free_sessions (sv\<lparr>sv_world := w, sv_instance := Live (set_session i t sm)\<rparr>) = free_sessions sv"
  using assms sessions_set_session [of sm session_wf t i] by (auto simp: server_inv_def free_sessions_def)

lemma recv_into_ring_Inl: "recv_into_ring lib fd rb w = Inl e \<Longrightarrow> e = Out_Of_Bounds"
  by (auto simp: recv_into_ring_def net_socket_recv_def mem_write_def chain_eq_Inl Let_def
      split: prod.splits option.splits if_splits)

lemma on_read_Inr:
  assumes inv: "server_inv sv" and ml: "length ml = 2" and lib: "recv_bounded lib"
  shows "on_read lib ml fd sv \<noteq> Inl No_Return"
    and "on_read lib ml fd sv = Inr sv' \<Longrightarrow> server_inv sv' \<and> free_sessions sv' = free_sessions sv \<and> sv_events sv' = sv_events sv"
proof -
  obtain sm where sm: "sv_instance sv = Live sm" "sm_wf sm" "\<forall>s \<in> set (sm_sessions sm). session_wf s"
    using inv by (rule server_invE)
  have "on_read lib ml fd sv \<noteq> Inl No_Return \<and>
    (\<forall>sv'. on_read lib ml fd sv = Inr sv' \<longrightarrow> server_inv sv' \<and> free_sessions sv' = free_sessions sv \<and> sv_events sv' = sv_events sv)"
  proof (cases "0 < fd \<and> sm_map_sessions sm fd \<noteq> None")
    case False
    then show ?thesis using inv on_read_lost [OF sm(1) False, of lib ml] by auto
  next
    case True
    then obtain i where fd: "0 < fd" "sm_map_sessions sm fd = Some i" by auto
    then have i: "i < length (sm_sessions sm)" using sm(2) by (intro mapped_session)
    let ?s = "sm_sessions sm ! i"
    note read = on_read_mapped [OF sm(1) fd i, of lib ml]
    note keep = server_inv_session [OF inv sm(1)]
    have s: "session_wf ?s" using i sm(3) by simp
    show ?thesis
    proof (cases "recv_into_ring lib fd (ss_read_buffer ?s) (sv_world sv)")
      case (Inl e)
      then show ?thesis unfolding read using recv_into_ring_Inl by fastforce
    next
      case (Inr r)
      obtain len rb w where r: "r = (len, rb, w)" by (cases r)
      let ?s1 = "?s\<lparr>ss_read_buffer := rb\<rparr>"
      have "rb_wf (ss_read_buffer ?s)" using s by (simp add: session_wf_def)
      note recv = recv_into_ring_Inr [OF this lib Inr [unfolded r]]
      have wf1: "session_wf ?s1" using recv(1,2) s by (simp add: session_wf_def)
      note loop = read_loop_returns [OF wf1 ml, of "Suc (unat (used rb))" "sv_crc_table sv" "sv_messages sv"]
      show ?thesis
        using loop keep(2,4) [OF wf1] keep(1,3) unfolding read Inr r
        by (cases "read_loop (Suc (unat (used rb))) (sv_crc_table sv) ml ?s1 (sv_messages sv)")
          (auto simp del: read_loop.simps)
    qed
  qed
  then show "on_read lib ml fd sv \<noteq> Inl No_Return"
    and "on_read lib ml fd sv = Inr sv' \<Longrightarrow> server_inv sv' \<and> free_sessions sv' = free_sessions sv \<and> sv_events sv' = sv_events sv"
    by blast+
qed

text \<open>C4. \<open>on_read\<close> always comes back: the loop over the frames takes at least two bytes a turn, so one turn more than
  the bytes in the ring is enough. It keeps every session well formed, every session owned once and
  the free sessions free.\<close>

theorem on_read_returns:
  assumes "server_inv sv" and "length ml = 2" and "recv_bounded lib"
  shows "on_read lib ml fd sv \<noteq> Inl No_Return \<and>
    (case on_read lib ml fd sv of
       Inl e \<Rightarrow> True
     | Inr sv' \<Rightarrow> server_inv sv' \<and> free_sessions sv' = free_sessions sv \<and> sv_events sv' = sv_events sv)"
  using on_read_Inr [OF assms] by (auto split: sum.split)

section \<open>Writing\<close>

text \<open>The first fetch that finds a message makes the loop use the pointer nobody assigned.\<close>

lemma write_loop_None:
  "write_loop ms None s =
    (if lq_push (ss_write_queue s) = lq_pop (ss_write_queue s) then Inr s else Inl Uninitialised)"
proof -
  have "ss_write_queue s = q \<Longrightarrow> s\<lparr>ss_write_queue := q\<rparr> = s" for q by simp
  then show ?thesis
    by (subst write_loop.simps) (auto simp: fetch_from_writequeue_def pop_front_def split: prod.splits)
qed

lemma on_write_eq:
  assumes sm: "sv_instance sv = Live sm" and fd: "0 < fd" "sm_map_sessions sm fd = Some i" and i: "i < length (sm_sessions sm)"
  defines "s \<equiv> sm_sessions sm ! i"
  defines "wb \<equiv> ss_write_buffer s"
  shows "on_write lib fd sv =
    (if lq_push (ss_write_queue s) \<noteq> lq_pop (ss_write_queue s) then Inl Uninitialised
     else if length (rb_bytes wb) < read_p wb + unat (used wb) then Inl Out_Of_Bounds
     else case lib_send lib fd (take (unat (used wb)) (drop (read_p wb) (rb_bytes wb))) (sv_world sv) of (len, w) \<Rightarrow>
       if 0 < len \<and> rb_empty wb
       then chain (del_write_event lib (sv_events sv) s w) (\<lambda>w'. Inr (sv\<lparr>sv_world := w'\<rparr>))
       else Inr (sv\<lparr>sv_world := w\<rparr>))"
proof -
  have s: "session_at i sm = Inr s" using i by (simp add: session_at_def s_def)
  have same: "sv\<lparr>sv_instance := Live (set_session i s sm)\<rparr> = sv"
    using set_session_same [OF s] sm by simp
  show ?thesis
    using s fd
    by (simp add: on_write_def sm instance_of_def get_one_session_def write_loop_None net_socket_send_def mem_read_def
        same Let_def wb_def del: write_loop.simps split: prod.split) blast
qed

lemma on_write_lost: "sv_instance sv = Live sm \<Longrightarrow> 0 < fd \<Longrightarrow> sm_map_sessions sm fd = None \<Longrightarrow> on_write lib fd sv = Inr sv"
  by (simp add: on_write_def instance_of_def get_one_session_def)

lemma on_write_Inr:
  assumes inv: "server_inv sv"
  shows "on_write lib fd sv \<noteq> Inl No_Return"
    and "on_write lib fd sv = Inr sv' \<Longrightarrow> sv' = sv\<lparr>sv_world := sv_world sv'\<rparr>"
proof -
  obtain sm where sm: "sv_instance sv = Live sm" "sm_wf sm" using inv by (rule server_invE)
  consider "\<not> 0 < fd" | "0 < fd" "sm_map_sessions sm fd = None" | i where "0 < fd" "sm_map_sessions sm fd = Some i" by fastforce
  then have "on_write lib fd sv \<noteq> Inl No_Return \<and> (\<forall>sv'. on_write lib fd sv = Inr sv' \<longrightarrow> sv' = sv\<lparr>sv_world := sv_world sv'\<rparr>)"
  proof cases
    case 1
    then show ?thesis by (simp add: on_write_def sm(1) instance_of_def get_one_session_def)
  next
    case 2
    then show ?thesis using on_write_lost [OF sm(1)] by simp
  next
    case (3 i)
    then have "i < length (sm_sessions sm)" using sm(2) by (intro mapped_session)
    from on_write_eq [OF sm(1) 3 this] show ?thesis
      by (auto simp: del_write_event_def net_service_get_evnets_def split: prod.split)
  qed
  then show "on_write lib fd sv \<noteq> Inl No_Return"
    and "on_write lib fd sv = Inr sv' \<Longrightarrow> sv' = sv\<lparr>sv_world := sv_world sv'\<rparr>" by blast+
qed

text \<open>A prefix of the contents that ends before the end of the array lies in one piece.\<close>

lemma ring_index:
  assumes "rb_wf rb" and "j < unat (rb_size rb)"
  shows "(unat (rb_read rb) + j) mod unat (rb_size rb) =
    (if read_p rb + j < unat (rb_size rb) then read_p rb + j else read_p rb + j - unat (rb_size rb))"
proof -
  let ?n = "unat (rb_size rb)"
  have "(unat (rb_read rb) + j) mod ?n = (read_p rb + j) mod ?n" using assms(1) by (simp add: read_p_eq mod_add_left_eq)
  then show ?thesis
    using assms(2) read_p_less [OF assms(1)] by (simp add: le_mod_geq not_less)
qed

lemma nth_rb_contents:
  "j < unat (used rb) \<Longrightarrow> rb_contents rb ! j = rb_bytes rb ! ((unat (rb_read rb) + j) mod length (rb_bytes rb))"
  by (simp add: rb_contents_def ring_slice_def)

lemma ring_prefix_contiguous:
  assumes wf: "rb_wf rb" and fits: "read_p rb + k \<le> rb_capacity rb" and k: "k \<le> unat (used rb)"
  shows "take k (rb_contents rb) = take k (drop (read_p rb) (rb_bytes rb))"
proof (rule nth_equalityI)
  have l: "length (rb_bytes rb) = rb_capacity rb" using wf by (simp add: rb_capacity_def rb_wf_length)
  then show "length (take k (rb_contents rb)) = length (take k (drop (read_p rb) (rb_bytes rb)))"
    using fits k by simp
  fix j assume "j < length (take k (rb_contents rb))"
  then have j: "j < k" by simp
  then have "(unat (rb_read rb) + j) mod length (rb_bytes rb) = read_p rb + j"
    using fits ring_index [OF wf, of j] l by (simp add: rb_capacity_def)
  then show "take k (rb_contents rb) ! j = take k (drop (read_p rb) (rb_bytes rb)) ! j"
    using j k l fits by (simp add: nth_rb_contents)
qed

lemma ring_slice_contiguous:
  "rb_wf rb \<Longrightarrow> read_p rb + unat (used rb) \<le> rb_capacity rb \<Longrightarrow>
   rb_contents rb = take (unat (used rb)) (drop (read_p rb) (rb_bytes rb))"
  using ring_prefix_contiguous [of rb "unat (used rb)"] by simp

text \<open>Overwriting such a prefix in the array overwrites it in the contents.\<close>

lemma rb_contents_overwrite:
  assumes wf: "rb_wf rb" and fits: "read_p rb + length bs \<le> rb_capacity rb" and k: "length bs \<le> unat (used rb)"
  shows "rb_contents (rb\<lparr>rb_bytes := overwrite (rb_bytes rb) (read_p rb) bs\<rparr>) = bs @ drop (length bs) (rb_contents rb)"
    (is "rb_contents ?rb = ?r")
proof (rule nth_equalityI)
  let ?n = "length (rb_bytes rb)"
  have n: "rb_capacity rb = ?n" "unat (rb_size rb) = ?n" using wf by (simp_all add: rb_capacity_def rb_wf_length)
  have l: "length (rb_bytes ?rb) = ?n" using fits n by simp
  show "length (rb_contents ?rb) = length ?r" using k by simp
  fix j assume "j < length (rb_contents ?rb)"
  then have j: "j < unat (used rb)" by simp
  then have jn: "j < ?n" using rb_wf_used_le [OF wf] n by simp
  let ?i = "(unat (rb_read rb) + j) mod ?n"
  have i: "?i = (if read_p rb + j < ?n then read_p rb + j else read_p rb + j - ?n)"
    using ring_index [OF wf, of j] jn n by simp
  have "?i < ?n" using jn by (intro mod_less_divisor) linarith
  then have "rb_contents ?rb ! j = (if read_p rb \<le> ?i \<and> ?i < read_p rb + length bs then bs ! (?i - read_p rb) else rb_bytes rb ! ?i)"
    using j l fits n by (simp add: nth_rb_contents nth_overwrite)
  moreover have "read_p rb \<le> ?i \<and> ?i < read_p rb + length bs \<longleftrightarrow> j < length bs"
    unfolding i using fits n jn by auto
  moreover have "j < length bs \<Longrightarrow> ?i - read_p rb = j" unfolding i using fits n by simp
  ultimately show "rb_contents ?rb ! j = ?r ! j"
    using j k by (simp add: nth_append nth_rb_contents)
qed

text \<open>What \<open>send\<close> is documented to do: it never reports more bytes than it was given.\<close>

definition send_bounded :: "'w net_lib \<Rightarrow> bool" where
  "send_bounded lib \<longleftrightarrow> (\<forall>fd bs w. fst (lib_send lib fd bs w) \<le> int (length bs))"

text \<open>With nothing in the ring nothing counts as sent, so the write event is never taken back.\<close>

lemma on_write_sends:
  assumes inv: "server_inv sv" and sm: "sv_instance sv = Live sm" and fd: "0 < fd" "sm_map_sessions sm fd = Some i"
    and lib: "send_bounded lib"
  defines "wb \<equiv> ss_write_buffer (sm_sessions sm ! i)" and "q \<equiv> ss_write_queue (sm_sessions sm ! i)"
  shows "on_write lib fd sv =
    (if lq_push q \<noteq> lq_pop q then Inl Uninitialised
     else if read_p wb + length (rb_contents wb) \<le> 4096
     then Inr (sv\<lparr>sv_world := snd (lib_send lib fd (rb_contents wb) (sv_world sv))\<rparr>)
     else Inl Out_Of_Bounds)"
proof -
  have "sm_wf sm" using inv sm by (auto elim!: server_invE)
  then have i: "i < length (sm_sessions sm)" using fd(2) by (rule mapped_session)
  then have "session_wf (sm_sessions sm ! i)" using inv sm by (auto elim!: server_invE)
  then have wf: "rb_wf wb" "rb_capacity wb = 4096" "length (rb_bytes wb) = 4096"
    by (auto simp: session_wf_def rb_wf_length rb_capacity_def wb_def)
  obtain len w where sent: "lib_send lib fd (rb_contents wb) (sv_world sv) = (len, w)" by (cases "lib_send lib fd (rb_contents wb) (sv_world sv)")
  have "len \<le> int (length (rb_contents wb))"
    using lib sent unfolding send_bounded_def by (metis fst_conv)
  moreover have "length (rb_contents wb) = 0" if "rb_empty wb" using that by (simp add: rb_empty_def)
  ultimately have kept: "(0 < len \<and> rb_empty wb) = False" by fastforce
  note call = on_write_eq [OF sm fd i, of lib, folded wb_def q_def, unfolded wf(3)]
  show ?thesis
  proof (cases "read_p wb + length (rb_contents wb) \<le> 4096")
    case True
    then have "take (unat (used wb)) (drop (read_p wb) (rb_bytes wb)) = rb_contents wb"
      using ring_slice_contiguous [OF wf(1)] wf(2) by simp
    with True show ?thesis unfolding call by (simp add: sent kept)
  next
    case False
    then show ?thesis unfolding call by simp
  qed
qed

text \<open>C6. \<open>on_write\<close> on a connection whose write queue has a message uses the pointer that nobody assigned. With no queued
  message it gives \<open>send\<close> the contents of the ring, none or many, if they lie in one piece, and else reads past the end
  of the array. Neither the read index nor the write event is touched: the next call sends the same bytes again,
  however many were sent, and with an empty ring the event stays armed. \<open>send\<close> reports at most what it was given.\<close>

theorem on_write_correct:
  assumes "server_inv sv" and "sv_instance sv = Live sm" and "0 < fd" and "sm_map_sessions sm fd = Some i" and "send_bounded lib"
  shows "let s = sm_sessions sm ! i; wb = ss_write_buffer s;
      sent = (\<lambda>w. snd (lib_send lib fd (rb_contents wb) w)) in
    if lq_push (ss_write_queue s) \<noteq> lq_pop (ss_write_queue s) then on_write lib fd sv = Inl Uninitialised
    else on_write lib fd sv =
      (if read_p wb + length (rb_contents wb) \<le> 4096 then Inr (sv\<lparr>sv_world := sent (sv_world sv)\<rparr>) else Inl Out_Of_Bounds) \<and>
    (\<forall>sv'. on_write lib fd sv = Inr sv' \<longrightarrow> on_write lib fd sv' = Inr (sv\<lparr>sv_world := sent (sent (sv_world sv))\<rparr>))"
proof -
  have "on_write lib fd (sv\<lparr>sv_world := w\<rparr>) =
    (if lq_push (ss_write_queue (sm_sessions sm ! i)) \<noteq> lq_pop (ss_write_queue (sm_sessions sm ! i)) then Inl Uninitialised
     else if read_p (ss_write_buffer (sm_sessions sm ! i)) + length (rb_contents (ss_write_buffer (sm_sessions sm ! i))) \<le> 4096
     then Inr (sv\<lparr>sv_world := snd (lib_send lib fd (rb_contents (ss_write_buffer (sm_sessions sm ! i))) w)\<rparr>)
     else Inl Out_Of_Bounds)" for w
    using on_write_sends [of "sv\<lparr>sv_world := w\<rparr>" sm fd i lib] assms by simp
  from this this [of "sv_world sv"] show ?thesis by (simp add: Let_def)
qed

section \<open>One frame\<close>

lemma read_loop_frame:
  fixes m :: u16
  assumes wf: "session_wf s" and ml: "length ml = 2"
    and m: "m = le_word (take 2 (rb_contents (ss_read_buffer s))) XOR ucast (ac_session_key (ss_crypt s) AND 0x0000ffff)"
    and len: "4 \<le> unat m" "2 + unat m \<le> length (rb_contents (ss_read_buffer s))"
  defines "rb \<equiv> ss_read_buffer s" and "ac \<equiv> ss_crypt s"
  defines "frame \<equiv> take (2 + unat m) (rb_contents rb)"
  shows "if read_p rb + (2 + unat m) \<le> 4096
    then \<exists>rb'. rb_wf rb' \<and> rb_capacity rb' = 4096 \<and> rb_contents rb' = drop (unat m) (frame_plain (ac_xor_key ac) frame @ drop (2 + unat m) (rb_contents rb)) \<and>
      (\<forall>fuel. read_loop (Suc fuel) crc_table ml s ms = read_loop fuel crc_table (le_bytes 2 m)
         (snd (push_to_readqueue (Some (length ms))
           (s\<lparr>ss_crypt := if frame_accepted ac frame then ac\<lparr>ac_sequence_id := ac_sequence_id ac + 1\<rparr> else ac,
              ss_read_buffer := rb'\<rparr>))) (ms @ [net_message_new]))
    else \<forall>fuel. read_loop (Suc fuel) crc_table ml s ms = Inl Out_Of_Bounds"
proof -
  have rb: "rb_wf rb" "rb_capacity rb = 4096" "length (rb_bytes rb) = 4096" and ac: "ac_wf ac"
    using wf by (auto simp: session_wf_def rb_wf_length rb_capacity_def rb_def ac_def)
  have ms: "unat m < 2 ^ 16" using unsigned_less [of m, where ?'a = nat] by simp
  have two: "2 \<le> length (rb_contents (ss_read_buffer s))" using len by simp
  have enough: "\<not> used rb < ucast m" using len by (simp add: word_less_nat_alt unat_u16 rb_def)
  define t where "t = transform_buffer_to_message crc_table ac net_message_new (rb_bytes rb) (read_p rb) (ucast m)"
  have nl: "next_length s = m" by (simp add: next_length_def m)
  have turn: "read_loop (Suc fuel) crc_table ml s ms =
       chain t (\<lambda>(_, ac', nm, bytes).
          let rb' = snd (seek_read (rb\<lparr>rb_bytes := bytes\<rparr>) (ucast m));
             s1 = s\<lparr>ss_crypt := ac', ss_read_buffer := rb'\<rparr>;
             s2 = snd (push_to_readqueue (Some (length ms)) s1)
         in read_loop fuel crc_table (le_bytes 2 m) s2 (ms @ [nm]))" for fuel
    using read_loop_step [OF wf ml two, of fuel crc_table ms, unfolded nl, folded rb_def ac_def] enough by (simp only: t_def if_False)
  show ?thesis
  proof (cases "read_p rb + (2 + unat m) \<le> 4096")
    case False
    then have "t = Inl Out_Of_Bounds"
      unfolding t_def using rb len by (intro transform_in_beyond) (simp_all add: unat_u16)
    with False turn show ?thesis by simp
  next
    case True
    let ?plain = "frame_plain (ac_xor_key ac) frame"
    have k: "2 + unat m \<le> unat (used rb)" using len(2) by (simp add: rb_def)
    have frame: "take (2 + unat m) (drop (read_p rb) (rb_bytes rb)) = frame"
      unfolding frame_def by (rule ring_prefix_contiguous [OF rb(1) _ k, symmetric]) (use True rb(2) in simp)
    have lp: "length ?plain = 2 + unat m" using k by (simp add: frame_def)
    have key: "16 \<le> length (ac_xor_key ac)" using ac by (simp add: ac_wf_def XOR_KEY_LEN_def)
    have t: "t = Inr (0, if frame_accepted ac frame then ac\<lparr>ac_sequence_id := ac_sequence_id ac + 1\<rparr> else ac, net_message_new,
        overwrite (rb_bytes rb) (read_p rb) ?plain)"
      unfolding t_def
    proof (rule transform_in_spec [OF key, of "read_p rb" "ucast m" "rb_bytes rb" net_message_new, unfolded unat_u16 frame])
      show "read_p rb + 2 + unat m \<le> length (rb_bytes rb)" using True rb by simp
      show "4 \<le> unat m" "unat m + 2 < 2 ^ 32" using len ms by simp_all
    qed
    let ?bytes = "overwrite (rb_bytes rb) (read_p rb) ?plain"
    have c1: "rb_contents (rb\<lparr>rb_bytes := ?bytes\<rparr>) = ?plain @ drop (2 + unat m) (rb_contents rb)"
      using rb_contents_overwrite [OF rb(1), of ?plain] True rb(2) k lp by simp
    define rb' where "rb' = snd (seek_read (rb\<lparr>rb_bytes := ?bytes\<rparr>) (ucast m))"
    have "length ?bytes = length (rb_bytes rb)" "unat m \<le> length (rb_contents rb)" using rb True lp k by simp_all
    note out = frame_leaves [OF rb(1) this, folded rb'_def, unfolded c1]
    moreover have "read_loop (Suc fuel) crc_table ml s ms = read_loop fuel crc_table (le_bytes 2 m)
         (snd (push_to_readqueue (Some (length ms))
           (s\<lparr>ss_crypt := if frame_accepted ac frame then ac\<lparr>ac_sequence_id := ac_sequence_id ac + 1\<rparr> else ac,
              ss_read_buffer := rb'\<rparr>))) (ms @ [net_message_new])" for fuel
      unfolding turn t by (simp add: Let_def rb'_def)
    ultimately show ?thesis using True rb(2) by auto
  qed
qed

section \<open>The event loop\<close>

lemma on_accept_Inl:
  assumes inv: "server_inv sv" and stack: "length stack = 32" and e: "on_accept rand stack fd sv = Inl e"
  shows "e = Assert_Failed"
proof -
  obtain sm where sm: "sv_instance sv = Live sm" "sm_wf sm" using inv by (rule server_invE)
  show ?thesis
  proof (cases "sm_vct_sessions sm")
    case Nil
    then show ?thesis using e on_accept_none [OF sm(1)] by simp
  next
    case free: (Cons i rest)
    show ?thesis
    proof (cases "0 < fd")
      case True
      from on_accept_some [OF inv sm(1) free True stack] show ?thesis using e by (metis sum.distinct(1))
    next
      case False
      have "i < length (sm_sessions sm)" using sm(2) free by (auto simp: sm_wf_def)
      with False e show ?thesis
        by (simp add: on_accept_def sm(1) instance_of_def claim_one_session_def free session_at_def insert_session_def Let_def)
    qed
  qed
qed

lemma dispatch_one_inv:
  assumes inv: "server_inv sv" and stack: "length stack = 32" and ml: "length ml = 2" and lib: "recv_bounded lib"
  shows "dispatch_one lib rand stack ml base listen_fd e sv \<noteq> Inl No_Return"
    and "dispatch_one lib rand stack ml base listen_fd e sv = Inr sv' \<Longrightarrow>
      server_inv sv' \<and> (\<exists>k. free_sessions sv' = drop k (free_sessions sv))"
proof -
  let ?r = "dispatch_one lib rand stack ml base listen_fd e sv"
  have "?r \<noteq> Inl No_Return \<and> (\<forall>sv'. ?r = Inr sv' \<longrightarrow> server_inv sv' \<and> (\<exists>k. free_sessions sv' = drop k (free_sessions sv)))"
  proof (cases e)
    case Connection
    obtain fd w1 r w2 er w3 ew w4 where l: "lib_accept lib listen_fd (sv_world sv) = (fd, w1)" "lib_nonblocking lib fd w1 = (r, w2)"
      "lib_event_new lib base fd (EV_READ OR EV_PERSIST) Net_Event_Read w2 = (er, w3)" "lib_event_new lib base fd (EV_WRITE OR EV_PERSIST) Net_Event_Write w3 = (ew, w4)"
      by (metis surj_pair)
    note acc = net_event_accept_cases [where si = "main_service lib rand stack ml base", unfolded main_service_fields, OF l, of "sv_events sv" sv]
    have same: "\<exists>k. free_sessions sv = drop k (free_sessions sv)" by (rule exI [of _ 0]) simp
    show ?thesis
    proof (cases "on_accept rand stack fd sv")
      case (Inl x)
      then have "x = Assert_Failed" by (rule on_accept_Inl [OF inv stack])
      then show ?thesis
        using Inl acc inv same by (auto simp: dispatch_one_def Connection split: option.splits)
    next
      case (Inr sv1)
      note on_accept_inv(1,2) [OF inv stack Inr]
      then show ?thesis
        using Inr acc inv same by (auto simp: dispatch_one_def Connection split: option.splits)
    qed
  next
    case (Readable fd)
    then show ?thesis
      using on_read_Inr [OF inv ml lib, of fd] by (auto simp: dispatch_one_def net_event_read_def intro: exI [of _ 0])
  next
    case (Writable fd)
    have "server_inv sv' \<and> (\<exists>k. free_sessions sv' = drop k (free_sessions sv))" if w: "on_write lib fd sv = Inr sv'" for sv'
    proof -
      obtain w where "sv' = sv\<lparr>sv_world := w\<rparr>" using on_write_Inr(2) [OF inv w] by (rule that)
      then show ?thesis using inv by (auto intro: exI [of _ 0])
    qed
    then show ?thesis
      using on_write_Inr(1) [OF inv, of lib fd] by (simp add: dispatch_one_def Writable net_event_write_def)
  qed
  then show "?r \<noteq> Inl No_Return"
    and "?r = Inr sv' \<Longrightarrow> server_inv sv' \<and> (\<exists>k. free_sessions sv' = drop k (free_sessions sv))" by blast+
qed

lemma dispatch_inv:
  assumes "length stack = 32" and "length ml = 2" and "recv_bounded lib"
  shows "server_inv sv \<Longrightarrow> dispatch lib rand stack ml base listen_fd es sv \<noteq> Inl No_Return \<and>
    (\<forall>sv'. dispatch lib rand stack ml base listen_fd es sv = Inr sv' \<longrightarrow>
      server_inv sv' \<and> (\<exists>k. free_sessions sv' = drop k (free_sessions sv)))"
proof (induction es arbitrary: sv)
  case Nil
  then show ?case by (auto intro: exI [of _ 0])
next
  case (Cons e es)
  note one = dispatch_one_inv [OF Cons.prems assms, of rand base listen_fd e]
  show ?case
  proof (cases "dispatch_one lib rand stack ml base listen_fd e sv")
    case (Inl x)
    then show ?thesis using one(1) by simp
  next
    case (Inr sv1)
    with one(2) obtain k where "server_inv sv1" "free_sessions sv1 = drop k (free_sessions sv)" by blast
    with Cons.IH [of sv1] Inr show ?thesis by (auto simp: drop_drop)
  qed
qed

text \<open>C1. Whatever events libevent reports, in whatever order, the loop never hangs in a callback, and if no callback
  faults every session is still owned by at most one socket, every ring and key well formed, and
  the free sessions are the old ones less those handed out: no session ever becomes free again.\<close>

theorem dispatch_keeps_invariant:
  assumes "server_inv sv" and "length stack = 32" and "length ml = 2" and "recv_bounded lib"
  shows "case dispatch lib rand stack ml base listen_fd es sv of
      Inl e \<Rightarrow> e \<noteq> No_Return
    | Inr sv' \<Rightarrow> server_inv sv' \<and> (\<exists>k. free_sessions sv' = drop k (free_sessions sv))"
  using dispatch_inv [OF assms(2-4,1), of rand base listen_fd es] by (auto split: sum.split)

text \<open>C7. A connection on a new socket gets the first free session, its crypt state starts at sequence 0 with a key of
  the table; on a socket that is still in the map, as after a connection that was closed, the old session
  stays in the map and the claimed one is lost. Either way nothing is sent: the world does not change.\<close>

theorem on_accept_correct:
  assumes "server_inv sv" and "sv_instance sv = Live sm" and "sm_vct_sessions sm = i # rest"
    and "0 < fd" and "length stack = 32"
  shows "\<exists>sv' sm' ac. on_accept rand stack fd sv = Inr sv' \<and> sv_instance sv' = Live sm' \<and> sv_world sv' = sv_world sv \<and>
    sm_vct_sessions sm' = rest \<and> i \<notin> ran (sm_map_sessions sm) \<and>
    (if sm_map_sessions sm fd = None then sm_map_sessions sm' = (sm_map_sessions sm)(fd \<mapsto> i)
     else sm_map_sessions sm' = sm_map_sessions sm) \<and>
    sm_sessions sm' = (sm_sessions sm)[i := (sm_sessions sm ! i)\<lparr>ss_socket := fd, ss_crypt := ac\<rparr>] \<and>
    ac_sequence_id ac = 0 \<and> ac_xor_key ac \<in> set (sv_xor_keys sv)"
  by (rule on_accept_some [OF assms, of rand]) (intro exI conjI, assumption, simp_all)

section \<open>Start-up\<close>

lemma new_sessions_crypt:
  "new_sessions fresh i n = Inr ss \<Longrightarrow> s \<in> set ss \<Longrightarrow> \<exists>j. ss_crypt s = fresh_crypt (fresh j)"
proof (induction n arbitrary: i ss)
  case (Suc n)
  then obtain s1 ss1 where "net_session_new (fresh i) = Inr s1" "new_sessions fresh (i + 1) n = Inr ss1" "ss = s1 # ss1"
    by (auto simp: chain_eq_Inr)
  moreover obtain s2 where "net_session_new (fresh i) = Inr s2" "ss_crypt s2 = fresh_crypt (fresh i)"
    by (rule net_session_new_spec)
  ultimately show ?case using Suc by auto
qed simp

lemma startup_sessions:
  assumes "\<forall>j. ac_wf (fresh_crypt (fresh j))"
  obtains sm where "init_sessions fresh session_manager_new = Inr (True, sm)" "sm_wf sm"
    "sm_vct_sessions sm = [0..<10]" "sm_map_sessions sm = Map.empty" "\<forall>s \<in> set (sm_sessions sm). session_wf s"
proof -
  obtain sm where sm: "init_sessions fresh session_manager_new = Inr (True, sm)" "sm_wf sm"
    "sm_vct_sessions sm = [0..<10]" "sm_map_sessions sm = Map.empty" "\<forall>s \<in> set (sm_sessions sm). session_rings_ready s"
    by (rule init_sessions_spec)
  have "\<exists>j. ss_crypt s = fresh_crypt (fresh j)" if "s \<in> set (sm_sessions sm)" for s
    using sm(1) that new_sessions_crypt [of fresh 0 MAX_SESSION]
    by (auto simp: init_sessions_def session_manager_new_def chain_eq_Inr)
  then have "\<forall>s \<in> set (sm_sessions sm). session_wf s"
    using sm(5) assms by (fastforce simp: session_wf_def session_rings_ready_def)
  with sm show ?thesis by (intro that)
qed

text \<open>C8. Start-up: with storage for all 256 words of the checksum table, \<open>main\<close> either ends with exit code -1 or enters
  the loop with the invariant, the ten sessions free and the standard table; with the 255 words the
  file declares it never enters the loop, and faults as soon as the socket is listening.\<close>

theorem main_startup_correct:
  assumes "\<forall>j. ac_wf (fresh_crypt (fresh j))" and "256 \<le> length tab \<or> length tab = CRC32_TABLE_LEN"
  shows "case main_startup lib rand fresh tab r w of
      Inl e \<Rightarrow> e = Out_Of_Bounds \<and> length tab = CRC32_TABLE_LEN
    | Inr (Inl code) \<Rightarrow> code = - 1
    | Inr (Inr (base, fd, sv)) \<Rightarrow> 256 \<le> length tab \<and> fd \<noteq> - 1 \<and> server_inv sv \<and> free_sessions sv = [0..<MAX_SESSION] \<and>
        take 256 (sv_crc_table sv) = crc_table"
proof -
  obtain sm where sm: "init_sessions fresh session_manager_new = Inr (True, sm)" "sm_wf sm"
    "sm_vct_sessions sm = [0..<10]" "\<forall>s \<in> set (sm_sessions sm). session_wf s"
    by (rule startup_sessions [OF assms(1)])
  obtain keys r1 where keys: "initial_xor_keys rand r = (keys, r1)" by (cases "initial_xor_keys rand r")
  then have k: "length keys = MAX_XOR_NUM" "\<forall>row \<in> set keys. key_row_ok row"
    using xor_key_rows_ok [of rand MAX_XOR_NUM r] by (simp_all add: initial_xor_keys_def)
  have lt: "length crc_table = 256" by (simp add: crc_table_def del: upt_Suc)
  show ?thesis
  proof (cases "256 \<le> length tab")
    case True
    note tab = initial_crc32_table_eq [OF True]
    show ?thesis
      using True k sm lt
      by (simp add: main_startup_def Let_def keys tab create_singleton_def instance_of_def server_inv_def free_sessions_def
          MAX_SESSION_def del: upt_rec_numeral split: prod.split option.split)
  next
    case False
    then have "length tab = CRC32_TABLE_LEN" using assms(2) by simp
    with False initial_crc32_table_short [OF this] show ?thesis
      by (simp add: main_startup_def Let_def keys split: prod.split)
  qed
qed

section \<open>An example\<close>

text \<open>A server with one connection, on socket 7, whose read ring holds a frame and whose write ring holds
  three bytes, and one free session.\<close>

definition ring_of :: "byte list \<Rightarrow> ring_buffer" where
  "ring_of bs = \<lparr>rb_size = 4096, rb_bytes = bs @ replicate (4096 - length bs) 0, rb_write = of_nat (length bs), rb_read = 0\<rparr>"

lemma is_power_of_2_4096: "is_power_of_2 4096"
  by (simp add: is_power_of_2_def)

lemma ring_of:
  assumes "length bs \<le> 4096"
  shows "rb_wf (ring_of bs)" "rb_capacity (ring_of bs) = 4096" "rb_contents (ring_of bs) = bs" "read_p (ring_of bs) = 0"
    "unat (used (ring_of bs)) = length bs"
proof -
  have u: "unat (of_nat (length bs) :: u32) = length bs" using assms by (intro unat_of_nat_u32) simp
  then show "rb_wf (ring_of bs)" "rb_capacity (ring_of bs) = 4096" "read_p (ring_of bs) = 0" "unat (used (ring_of bs)) = length bs"
    using assms by (simp_all add: ring_of_def rb_wf_def rb_capacity_def used_def read_p_def word_le_nat_alt is_power_of_2_4096)
  show "rb_contents (ring_of bs) = bs"
  proof (rule nth_equalityI)
    show "length (rb_contents (ring_of bs)) = length bs" using u by (simp add: ring_of_def used_def)
    fix j assume "j < length (rb_contents (ring_of bs))"
    then have "j < length bs" using u by (simp add: ring_of_def used_def)
    then show "rb_contents (ring_of bs) ! j = bs ! j"
      using assms u by (simp add: nth_rb_contents ring_of_def used_def nth_append)
  qed
qed

definition example_conn :: net_session where
  "example_conn = \<lparr>ss_socket = 7, ss_session_id = 0, ss_crypt = example_crypt\<lparr>ac_session_key := 0\<rparr>,
     ss_read_buffer = ring_of [8, 0, 0, 1, 1, 5, 4, 4, 4, 9], ss_write_buffer = ring_of [1, 2, 3],
     ss_read_queue = \<lparr>lq_slots = replicate 128 None, lq_push = 0, lq_pop = 0\<rparr>,
     ss_write_queue = \<lparr>lq_slots = replicate 128 None, lq_push = 0, lq_pop = 0\<rparr>\<rparr>"

definition example_rand :: "nat rand" where "example_rand n = (n * 7 mod 32768, n + 1)"

definition example_live :: session_manager where
  "example_live = \<lparr>sm_session_id = 0, sm_vct_sessions = [1], sm_map_sessions = [7 \<mapsto> 0], sm_sessions = [example_conn, example_conn]\<rparr>"

definition example_server :: "(nat, byte list) server" where
  "example_server = \<lparr>sv_instance = Live example_live, sv_events = net_events_init, sv_world = [5, 6], sv_messages = [], sv_rand = 3,
     sv_xor_keys = fst (initial_xor_keys example_rand 3), sv_crc_table = crc_table\<rparr>"

lemma example_conn_wf: "session_wf example_conn"
proof -
  have "ac_wf (example_crypt\<lparr>ac_session_key := 0\<rparr>)" using example_crypt_wf by (simp add: ac_wf_def)
  then show ?thesis by (simp add: session_wf_def example_conn_def ring_of)
qed

text \<open>The same with nothing in the write ring, which is how every session starts.\<close>

definition example_idle :: "(nat, byte list) server" where
  "example_idle = example_server\<lparr>sv_instance := Live (example_live\<lparr>sm_sessions := replicate 2 (example_conn\<lparr>ss_write_buffer := ring_of []\<rparr>)\<rparr>)\<rparr>"

lemma example_server_inv: "server_inv example_server"
  using xor_key_rows_ok [of example_rand MAX_XOR_NUM 3] example_conn_wf
  by (simp add: server_inv_def example_server_def example_live_def sm_wf_def initial_xor_keys_def)

theorem on_read_returns_witness:
  "on_read example_lib [0, 0] 7 example_server \<noteq> Inl No_Return"
  using on_read_returns [OF example_server_inv _ example_lib_bounded, of "[0, 0]" 7] by simp

lemma example_idle_inv: "server_inv example_idle"
  using example_server_inv example_conn_wf
  by (simp add: server_inv_def example_idle_def example_server_def example_live_def sm_wf_def session_wf_def ring_of)

lemma example_lib_sends: "send_bounded example_lib"
  by (simp add: send_bounded_def example_lib_def)

theorem on_write_correct_witness:
  "(\<exists>sv'. on_write example_lib 7 example_server = Inr sv' \<and>
    on_write example_lib 7 sv' = Inr (example_server\<lparr>sv_world := [5, 6, 1, 2, 3, 1, 2, 3]\<rparr>)) \<and>
   on_write example_lib 7 example_idle = Inr example_idle"
proof (intro conjI)
  have s: "sm_sessions example_live ! 0 = example_conn" by (simp add: example_live_def)
  have "ss_write_buffer example_conn = ring_of [1, 2, 3]" by (simp add: example_conn_def)
  then show "\<exists>sv'. on_write example_lib 7 example_server = Inr sv' \<and>
    on_write example_lib 7 sv' = Inr (example_server\<lparr>sv_world := [5, 6, 1, 2, 3, 1, 2, 3]\<rparr>)"
    using on_write_correct [OF example_server_inv _ _ _ example_lib_sends, of example_live 7 0] ring_of [of "[1, 2, 3]"]
    unfolding s Let_def
    by (simp add: example_server_def example_live_def example_conn_def example_lib_def)
  let ?sm = "example_live\<lparr>sm_sessions := replicate 2 (example_conn\<lparr>ss_write_buffer := ring_of []\<rparr>)\<rparr>"
  have i: "sm_sessions ?sm ! 0 = example_conn\<lparr>ss_write_buffer := ring_of []\<rparr>" by simp
  have live: "sv_instance example_idle = Live ?sm" by (simp add: example_idle_def)
  have m: "sm_map_sessions ?sm 7 = Some 0" by (simp add: example_live_def)
  have "snd (lib_send example_lib 7 [] w) = w" for w by (simp add: example_lib_def)
  then show "on_write example_lib 7 example_idle = Inr example_idle"
    using on_write_correct [OF example_idle_inv live _ m example_lib_sends] ring_of [of "[]"]
    unfolding i Let_def by (simp add: example_conn_def)
qed

theorem dispatch_keeps_invariant_witness:
  "case dispatch example_lib example_rand (replicate 32 0) [0, 0] 0 3 [Connection, Readable 9, Writable 7] example_server of
     Inl e \<Rightarrow> e \<noteq> No_Return
   | Inr sv' \<Rightarrow> server_inv sv' \<and> (\<exists>k. free_sessions sv' = drop k (free_sessions example_server))"
  by (rule dispatch_keeps_invariant [OF example_server_inv _ _ example_lib_bounded]) simp_all

theorem on_accept_correct_witness:
  "\<exists>sv' sm'. on_accept example_rand (replicate 32 0) 7 example_server = Inr sv' \<and> sv_instance sv' = Live sm' \<and>
    sm_vct_sessions sm' = [] \<and> sm_map_sessions sm' = [7 \<mapsto> 0]"
  using on_accept_correct [OF example_server_inv, of example_live 1 "[]" 7 "replicate 32 0" example_rand]
  by (auto simp: example_server_def example_live_def)

theorem main_startup_correct_witness:
  "\<exists>e. main_startup example_lib example_rand (\<lambda>_. \<lparr>fresh_crypt = example_crypt, fresh_bytes = (\<lambda>_. 0),
      fresh_read_queue = \<lparr>lq_slots = [], lq_push = 0, lq_pop = 0\<rparr>, fresh_write_queue = \<lparr>lq_slots = [], lq_push = 0, lq_pop = 0\<rparr>\<rparr>)
      (replicate 255 0) 3 [] = Inl e \<and> e = Out_Of_Bounds"
proof -
  let ?f = "\<lambda>_. \<lparr>fresh_crypt = example_crypt, fresh_bytes = (\<lambda>_. 0),
      fresh_read_queue = \<lparr>lq_slots = [], lq_push = 0, lq_pop = 0\<rparr>, fresh_write_queue = \<lparr>lq_slots = [], lq_push = 0, lq_pop = 0\<rparr>\<rparr>"
  have a: "case main_startup example_lib example_rand ?f (replicate 255 0) 3 [] of
      Inl e \<Rightarrow> e = Out_Of_Bounds \<and> length (replicate 255 (0 :: u32)) = CRC32_TABLE_LEN
    | Inr (Inl code) \<Rightarrow> code = - 1
    | Inr (Inr (base, fd, sv)) \<Rightarrow> 256 \<le> length (replicate 255 (0 :: u32)) \<and> fd \<noteq> - 1 \<and> server_inv sv \<and>
        free_sessions sv = [0..<MAX_SESSION] \<and> take 256 (sv_crc_table sv) = crc_table"
    by (rule main_startup_correct) (simp_all add: CRC32_TABLE_LEN_def)
  moreover have "main_startup example_lib example_rand ?f (replicate 255 0) 3 [] \<noteq> Inr (Inl code)" for code
  proof -
    have "initial_crc32_table (replicate 255 0) = Inl Out_Of_Bounds"
      by (rule initial_crc32_table_short) (simp add: CRC32_TABLE_LEN_def)
    then show ?thesis
      by (simp add: main_startup_def example_lib_def net_socket_open_def net_socket_bind_def net_socket_listen_def Let_def
          split: prod.split)
  qed
  ultimately show ?thesis by (auto split: sum.splits)
qed

text \<open>C3. A whole frame at the head of the read ring, its length field decoded with the session key: if it does not reach
  past the end of the array it is decrypted in place and checked, a message is queued, the expected sequence
  number advances exactly when the frame is accepted, and the read index moves by the decoded
  length, which leaves the last two bytes of the frame in the ring. A frame that wraps around is
  decrypted past the end of the array.\<close>

theorem frame_is_read:
  fixes m :: u16
  assumes "session_wf s" and "length ml = 2"
    and "m = le_word (take 2 (rb_contents (ss_read_buffer s))) XOR ucast (ac_session_key (ss_crypt s) AND 0x0000ffff)"
    and "4 \<le> unat m" and "2 + unat m \<le> length (rb_contents (ss_read_buffer s))"
  shows "let rb = ss_read_buffer s; ac = ss_crypt s; frame = take (2 + unat m) (rb_contents rb) in
    if read_p rb + (2 + unat m) \<le> 4096
    then \<exists>rb'. rb_wf rb' \<and> rb_capacity rb' = 4096 \<and> rb_contents rb' = drop (unat m) (frame_plain (ac_xor_key ac) frame @ drop (2 + unat m) (rb_contents rb)) \<and>
      (\<forall>fuel. read_loop (Suc fuel) crc_table ml s ms = read_loop fuel crc_table (le_bytes 2 m)
         (snd (push_to_readqueue (Some (length ms))
           (s\<lparr>ss_crypt := if frame_accepted ac frame then ac\<lparr>ac_sequence_id := ac_sequence_id ac + 1\<rparr> else ac,
              ss_read_buffer := rb'\<rparr>))) (ms @ [net_message_new]))
    else \<forall>fuel. read_loop (Suc fuel) crc_table ml s ms = Inl Out_Of_Bounds"
  using read_loop_frame [OF assms] by (simp only: Let_def)

theorem frame_is_read_witness:
  "\<exists>rb' s'. length (rb_contents rb') = 2 \<and> ss_read_buffer s' = rb' \<and> (\<forall>fuel. read_loop (Suc fuel) crc_table [0, 0] example_conn [] =
     read_loop fuel crc_table [8, 0] s' [net_message_new])"
proof -
  let ?f = "[8, 0, 0, 1, 1, 5, 4, 4, 4, 9] :: byte list"
  have rb: "ss_read_buffer example_conn = ring_of ?f" by (simp add: example_conn_def)
  have c: "rb_contents (ring_of ?f) = ?f" "read_p (ring_of ?f) = 0" by (rule ring_of; simp)+
  have m: "(8 :: u16) = le_word (take 2 ?f) XOR ucast (ac_session_key (ss_crypt example_conn) AND 0x0000ffff)"
    by (simp add: example_conn_def)
  have le: "le_bytes 2 (8 :: u16) = [8, 0]" unfolding numeral_2_eq_2 le_bytes.simps by simp
  have q: "ss_read_buffer (snd (push_to_readqueue p (example_conn\<lparr>ss_crypt := a, ss_read_buffer := rb'\<rparr>))) = rb'" for p a rb'
    by (simp add: push_to_readqueue_def split: prod.split)
  let ?ac = "if frame_accepted (ss_crypt example_conn) (take (2 + unat (8 :: u16)) ?f)
      then ss_crypt example_conn\<lparr>ac_sequence_id := ac_sequence_id (ss_crypt example_conn) + 1\<rparr> else ss_crypt example_conn"
  have fits: "0 + (2 + unat (8 :: u16)) \<le> 4096" by simp
  note fr = frame_is_read [OF example_conn_wf, of "[0, 0]" 8 "[]", unfolded rb c Let_def le if_P [OF fits], OF _ m]
  obtain rb' where rb': "rb_contents rb' = drop (unat (8 :: u16))
      (frame_plain (ac_xor_key (ss_crypt example_conn)) (take (2 + unat (8 :: u16)) ?f) @ drop (2 + unat (8 :: u16)) ?f)"
    and loop: "\<forall>fuel. read_loop (Suc fuel) crc_table [0, 0] example_conn [] = read_loop fuel crc_table [8, 0]
      (snd (push_to_readqueue (Some (length ([] :: net_message list))) (example_conn\<lparr>ss_crypt := ?ac, ss_read_buffer := rb'\<rparr>))) ([] @ [net_message_new])"
    using fr by (elim meta_impE exE conjE) simp_all
  have "length (rb_contents rb') = 2" unfolding rb' by simp
  then show ?thesis using q loop [unfolded append_Nil] by (intro exI conjI) assumption+
qed


end
