(* ===== verification/Connection.thy ===== *)
theory Connection
  imports Server_Run
begin

text \<open>
  The life of a connection across the parts of the program: the states the loop of \<open>main.c\<close> can reach
  from start-up, the session a new connection gets there, and what becomes of the first frame a peer
  sends that has the keys of the session.
\<close>

section \<open>The states the loop reaches\<close>

text \<open>Every callback may find other values in its uninitialised locals.\<close>

inductive reached ::
  "'w net_lib \<Rightarrow> 'r rand \<Rightarrow> (nat \<Rightarrow> fresh_memory) \<Rightarrow> u32 list \<Rightarrow> 'r \<Rightarrow> 'w \<Rightarrow> nat \<Rightarrow> int \<Rightarrow> ('r, 'w) server \<Rightarrow> bool"
  for lib rand fresh tab r w base listen_fd where
  start: "main_startup lib rand fresh tab r w = Inr (Inr (base, listen_fd, sv)) \<Longrightarrow> reached lib rand fresh tab r w base listen_fd sv"
| event: "reached lib rand fresh tab r w base listen_fd sv \<Longrightarrow> length stack = 32 \<Longrightarrow> length ml = 2 \<Longrightarrow>
    dispatch_one lib rand stack ml base listen_fd e sv = Inr sv' \<Longrightarrow> reached lib rand fresh tab r w base listen_fd sv'"

text \<open>A session nobody has used: both rings are at their start.\<close>

definition untouched :: "net_session \<Rightarrow> bool" where
  "untouched s \<longleftrightarrow> rb_read (ss_read_buffer s) = 0 \<and> rb_write (ss_read_buffer s) = 0 \<and>
     rb_read (ss_write_buffer s) = 0 \<and> rb_write (ss_write_buffer s) = 0"

definition live_manager :: "('r, 'w) server \<Rightarrow> session_manager" where
  "live_manager sv = (case sv_instance sv of Live sm \<Rightarrow> sm | _ \<Rightarrow> session_manager_new)"

text \<open>The session the map has for a socket.\<close>

definition session_of :: "int \<Rightarrow> ('r, 'w) server \<Rightarrow> net_session option" where
  "session_of fd sv = map_option (\<lambda>i. sm_sessions (live_manager sv) ! i) (sm_map_sessions (live_manager sv) fd)"

definition connection_inv :: "u32 list \<Rightarrow> ('r, 'w) server \<Rightarrow> bool" where
  "connection_inv tab sv \<longleftrightarrow> server_inv sv \<and> sv_crc_table sv = tab \<and>
     (\<forall>i \<in> set (free_sessions sv). untouched (sm_sessions (live_manager sv) ! i))"

lemma live_manager [simp]: "sv_instance sv = Live sm \<Longrightarrow> live_manager sv = sm"
  by (simp add: live_manager_def)

lemma live_manager_upd [simp]:
  "live_manager (sv\<lparr>sv_world := w\<rparr>) = live_manager sv" "live_manager (sv\<lparr>sv_events := evs\<rparr>) = live_manager sv"
  by (simp_all add: live_manager_def)

lemma connection_inv_upd [simp]:
  "connection_inv tab (sv\<lparr>sv_world := w\<rparr>) = connection_inv tab sv"
  "connection_inv tab (sv\<lparr>sv_events := evs\<rparr>) = connection_inv tab sv"
  by (simp_all add: connection_inv_def)

subsection \<open>Start-up\<close>

lemma new_sessions_untouched: "new_sessions fresh i n = Inr ss \<Longrightarrow> s \<in> set ss \<Longrightarrow> untouched s"
proof (induction n arbitrary: i ss)
  case (Suc n)
  then obtain s1 ss1 where s1: "net_session_new (fresh i) = Inr s1" and ss1: "new_sessions fresh (i + 1) n = Inr ss1" "ss = s1 # ss1"
    by (auto simp: chain_eq_Inr)
  have "untouched s1" using s1 by (auto simp: net_session_new_def chain_eq_Inr ring_buffer_new_Inr untouched_def)
  with Suc.IH [OF ss1(1)] Suc.prems ss1(2) show ?case by auto
qed simp

lemma main_startup_Inr:
  assumes m: "main_startup lib rand fresh tab r w = Inr (Inr (base, fd, sv))"
  obtains sm keys r1 tab' where "init_sessions fresh session_manager_new = Inr (True, sm)" "initial_xor_keys rand r = (keys, r1)"
    "initial_crc32_table tab = Inr tab'" "sv_instance sv = Live sm" "sv_xor_keys sv = keys" "sv_crc_table sv = tab'"
proof -
  obtain l w1 where o: "net_socket_open lib w = (l, w1)" by (cases "net_socket_open lib w")
  obtain b w2 where bind: "net_socket_bind lib l PORT w1 = (b, w2)" by (cases "net_socket_bind lib l PORT w1")
  obtain li w3 where li: "net_socket_listen lib l BACKLOG w2 = (li, w3)" by (cases "net_socket_listen lib l BACKLOG w2")
  obtain keys r1 where k: "initial_xor_keys rand r = (keys, r1)" by (cases "initial_xor_keys rand r")
  obtain sm where i: "init_sessions fresh session_manager_new = Inr (True, sm)" by (rule init_sessions_spec)
  have c: "create_singleton session_manager_new Null = Inr (Live session_manager_new)" by (simp add: create_singleton_def)
  have n: "l \<noteq> - 1" "\<not> b < 0" "\<not> li < 0" using m by (auto simp: main_startup_def o bind li split: if_splits)
  have e: "main_startup lib rand fresh tab r w = chain (initial_crc32_table tab) (\<lambda>tab'.
      let (eb, w4) = net_service_create lib w3 in
      case eb of None \<Rightarrow> Inr (Inl (- 1))
      | Some base \<Rightarrow>
          let (e, w5) = net_event_create lib base l (EV_READ OR EV_PERSIST) Net_Event_Accept w4 in
          (case e of None \<Rightarrow> Inr (Inl (- 1))
           | Some h \<Rightarrow>
               let (_, w6) = net_event_add lib h None w5 in
               Inr (Inr (base, l, \<lparr>sv_instance = Live sm, sv_events = net_events_init, sv_world = w6, sv_messages = [],
                  sv_rand = r1, sv_xor_keys = keys, sv_crc_table = tab'\<rparr>))))"
    using n by (simp add: main_startup_def o bind li k c i instance_of_def)
  obtain tab' where t: "initial_crc32_table tab = Inr tab'" using m unfolding e by (auto simp: chain_eq_Inr)
  obtain eb w4 where s: "net_service_create lib w3 = (eb, w4)" by (cases "net_service_create lib w3")
  then obtain b0 where b0: "eb = Some b0" using m unfolding e t by (cases eb) auto
  obtain ev w5 where ev: "net_event_create lib b0 l (EV_READ OR EV_PERSIST) Net_Event_Accept w4 = (ev, w5)" by (metis surj_pair)
  obtain h where h: "ev = Some h" using m unfolding e t chain_simps s b0 by (cases ev) (auto simp: ev)
  show ?thesis
    using m unfolding e t chain_simps s b0
    by (intro that [OF i k t]) (auto simp: ev h Let_def split: prod.splits)
qed

lemma main_startup_connection_inv:
  assumes m: "main_startup lib rand fresh tab r w = Inr (Inr (base, fd, sv))"
    and "\<forall>j. ac_wf (fresh_crypt (fresh j))" and "length tab = 256"
  shows "connection_inv crc_table sv"
proof -
  obtain sm where sm: "init_sessions fresh session_manager_new = Inr (True, sm)" "sm_wf sm"
    "sm_vct_sessions sm = [0..<10]" "\<forall>s \<in> set (sm_sessions sm). session_wf s"
    by (rule startup_sessions [OF assms(2)])
  obtain keys r1 tab' where m': "initial_xor_keys rand r = (keys, r1)" "initial_crc32_table tab = Inr tab'" "sv_instance sv = Live sm"
      "sv_xor_keys sv = keys" "sv_crc_table sv = tab'"
    by (rule main_startup_Inr [OF m]) (use sm(1) that in auto)
  have "length keys = MAX_XOR_NUM \<and> (\<forall>row \<in> set keys. key_row_ok row)"
    using xor_key_rows_ok [of rand MAX_XOR_NUM r] m'(1) by (simp add: initial_xor_keys_def)
  then have "server_inv sv" using sm m' by (simp add: server_inv_def)
  moreover have "tab' = crc_table" using m'(2) initial_crc32_table_eq [of tab] assms(3) by simp
  moreover obtain ss where ss: "new_sessions fresh 0 MAX_SESSION = Inr ss" "sm_sessions sm = ss"
    using sm(1) by (auto simp: init_sessions_def session_manager_new_def chain_eq_Inr)
  moreover have "length ss = 10" using ss(1) new_sessions_spec [of fresh 0 MAX_SESSION] by (auto simp: MAX_SESSION_def)
  ultimately show ?thesis
    using sm(3) m'(3,5) by (auto simp: connection_inv_def free_sessions_def intro: new_sessions_untouched nth_mem)
qed

subsection \<open>Events\<close>

lemma on_read_changes:
  assumes r: "on_read lib ml fd sv = Inr sv'" and sm: "sv_instance sv = Live sm"
  obtains sm' where "sv_instance sv' = Live sm'" "sm_vct_sessions sm' = sm_vct_sessions sm"
    "sm_map_sessions sm' = sm_map_sessions sm" "sv_crc_table sv' = sv_crc_table sv"
    "\<forall>j. sm_map_sessions sm fd \<noteq> Some j \<longrightarrow> sm_sessions sm' ! j = sm_sessions sm ! j"
proof -
  have "sv' = sv \<or> (\<exists>i t ms w. sm_map_sessions sm fd = Some i \<and>
      sv' = sv\<lparr>sv_world := w, sv_instance := Live (set_session i t sm), sv_messages := ms\<rparr>)"
  proof (cases "sm_map_sessions sm fd")
    case None
    then show ?thesis using r by (simp add: on_read_def sm instance_of_def get_one_session_def split: if_splits)
  next
    case (Some i)
    have same: "sv\<lparr>sv_world := w, sv_instance := x\<rparr> = sv\<lparr>sv_world := w, sv_instance := x, sv_messages := sv_messages sv\<rparr>" for x w
      by simp
    have "(\<exists>t ms w. sv' = sv\<lparr>sv_world := w, sv_instance := Live (set_session i t sm), sv_messages := ms\<rparr>) \<or>
      (\<exists>t w. sv' = sv\<lparr>sv_world := w, sv_instance := Live (set_session i t sm)\<rparr>)"
      using r Some by (auto simp: on_read_def sm instance_of_def get_one_session_def chain_eq_Inr Let_def simp del: read_loop.simps
          split: if_split_asm)
    then have "\<exists>t ms w. sv' = sv\<lparr>sv_world := w, sv_instance := Live (set_session i t sm), sv_messages := ms\<rparr>"
      by (elim disjE exE) (blast, intro exI, erule trans, rule same)
    with Some show ?thesis by blast
  qed
  then show ?thesis
    by (elim disjE exE conjE) (rule that, (simp add: sm set_session_def)+)+
qed

lemma free_not_mapped: "sm_wf sm \<Longrightarrow> i \<in> set (sm_vct_sessions sm) \<Longrightarrow> sm_map_sessions sm fd \<noteq> Some i"
  by (auto simp: sm_wf_def ran_def)

lemma on_read_connection_inv:
  assumes inv: "connection_inv tab sv" and "length ml = 2" and "recv_bounded lib" and r: "on_read lib ml fd sv = Inr sv'"
  shows "connection_inv tab sv'"
proof -
  have s: "server_inv sv" using inv by (simp add: connection_inv_def)
  obtain sm where sm: "sv_instance sv = Live sm" "sm_wf sm" using s by (rule server_invE)
  obtain sm' where sm': "sv_instance sv' = Live sm'" "sm_vct_sessions sm' = sm_vct_sessions sm"
    "sm_map_sessions sm' = sm_map_sessions sm" "sv_crc_table sv' = sv_crc_table sv"
    "\<forall>j. sm_map_sessions sm fd \<noteq> Some j \<longrightarrow> sm_sessions sm' ! j = sm_sessions sm ! j"
    by (rule on_read_changes [OF r sm(1)]) (rule that)
  have "server_inv sv'" using on_read_Inr(2) [OF s assms(2,3) r] by simp
  then show ?thesis
    using inv sm sm' free_not_mapped [OF sm(2)] by (simp add: connection_inv_def free_sessions_def)
qed

lemma on_write_connection_inv:
  assumes inv: "connection_inv tab sv" and r: "on_write lib fd sv = Inr sv'"
  shows "connection_inv tab sv'"
proof -
  have "server_inv sv" using inv by (simp add: connection_inv_def)
  then have "sv' = sv\<lparr>sv_world := sv_world sv'\<rparr>" using r by (rule on_write_Inr(2))
  with inv show ?thesis by (metis connection_inv_upd(1))
qed

lemma on_accept_connection_inv:
  assumes inv: "connection_inv tab sv" and stack: "length stack = 32" and r: "on_accept rand stack fd sv = Inr sv'"
  shows "connection_inv tab sv'"
proof -
  have s: "server_inv sv" using inv by (simp add: connection_inv_def)
  obtain sm where sm: "sv_instance sv = Live sm" "sm_wf sm" using s by (rule server_invE)
  show ?thesis
  proof (cases "sm_vct_sessions sm")
    case Nil
    then show ?thesis using r inv on_accept_none [OF sm(1)] by simp
  next
    case free: (Cons i rest)
    have fd: "0 < fd" using on_accept_fd [OF sm(1) free, of fd rand stack] r by auto
    obtain ac r' sm' where a: "on_accept rand stack fd sv = Inr (sv\<lparr>sv_instance := Live sm', sv_rand := r'\<rparr>)"
      and sm': "sm_vct_sessions sm' = rest"
        "sm_sessions sm' = (sm_sessions sm)[i := (sm_sessions sm ! i)\<lparr>ss_socket := fd, ss_crypt := ac\<rparr>]"
      by (rule on_accept_some [OF s sm(1) free fd stack])
    have "server_inv sv'" using on_accept_inv(1) [OF s stack r] .
    moreover have "i \<notin> set rest" using sm(2) free by (simp add: sm_wf_def)
    ultimately show ?thesis
      using a r inv sm(1) sm' free by (auto simp: connection_inv_def free_sessions_def) (metis nth_list_update_neq)
  qed
qed

lemma dispatch_one_connection_inv:
  assumes "connection_inv tab sv" and "length stack = 32" and "length ml = 2" and "recv_bounded lib"
    and "dispatch_one lib rand stack ml base listen_fd e sv = Inr sv'"
  shows "connection_inv tab sv'"
proof (cases e)
  case Connection
  then obtain evs w sv1 where "net_event_accept lib (main_service lib rand stack ml base) listen_fd (sv_events sv) (sv_world sv) sv = Inr (evs, w, sv1)"
    and sv': "sv' = sv1\<lparr>sv_events := evs, sv_world := w\<rparr>"
    using assms(5) by (auto simp: dispatch_one_def chain_eq_Inr)
  then have "sv1 = sv \<or> (\<exists>fd. on_accept rand stack fd sv = Inr sv1)"
    by (auto simp: net_event_accept_def chain_eq_Inr Let_def split: prod.splits if_splits)
  then have "connection_inv tab sv1" using on_accept_connection_inv [OF assms(1,2)] assms(1) by blast
  then show ?thesis by (simp add: sv')
next
  case (Readable fd)
  then show ?thesis using on_read_connection_inv [OF assms(1,3,4), of fd] assms(5) by (simp add: dispatch_one_def net_event_read_def)
next
  case (Writable fd)
  then show ?thesis using on_write_connection_inv [OF assms(1)] assms(5) by (simp add: dispatch_one_def net_event_write_def)
qed

lemma reached_connection_inv:
  assumes "\<forall>j. ac_wf (fresh_crypt (fresh j))" and "length tab = 256" and "recv_bounded lib"
  shows "reached lib rand fresh tab r w base listen_fd sv \<Longrightarrow> connection_inv crc_table sv"
proof (induction rule: reached.induct)
  case (start sv)
  then show ?case using assms(1,2) by (rule main_startup_connection_inv(1))
next
  case step: (event sv stack ml e sv')
  show ?case by (rule dispatch_one_connection_inv [OF step.IH step.hyps(2,3) assms(3) step.hyps(4)])
qed


text \<open>The sequences of events of \<open>dispatch\<close> stay among these states.\<close>

lemma dispatch_reached:
  "reached lib rand fresh tab r w base listen_fd sv \<Longrightarrow> length stack = 32 \<Longrightarrow> length ml = 2 \<Longrightarrow>
   dispatch lib rand stack ml base listen_fd es sv = Inr sv' \<Longrightarrow> reached lib rand fresh tab r w base listen_fd sv'"
  by (induction es arbitrary: sv) (auto simp: chain_eq_Inr intro: reached.event)

section \<open>Nothing is ever sent\<close>















section \<open>A peer that has the keys\<close>

text \<open>
  What such a peer sends for some data: the length under the session key, which counts neither itself
  nor what it is, then under the XOR key the sequence number under the session key, the data and the
  checksum of all that.
\<close>

definition peer_plain :: "about_crypt \<Rightarrow> byte list \<Rightarrow> byte list" where
  "peer_plain ac data =
     le_bytes 2 (of_nat (8 + length data) XOR ucast (ac_session_key ac AND 0x0000ffff) :: u16) @
     le_bytes 4 (ac_sequence_id ac XOR ac_session_key ac) @ data"

definition peer_frame :: "about_crypt \<Rightarrow> byte list \<Rightarrow> byte list" where
  "peer_frame ac data =
     frame_plain (ac_xor_key ac) (peer_plain ac data @ le_bytes 4 (crc32 (peer_plain ac data)))"

text \<open>The last two bytes of the checksum, read as the length of a frame.\<close>

definition stale_length :: "about_crypt \<Rightarrow> byte list \<Rightarrow> u16" where
  "stale_length ac data =
     le_word (drop 2 (le_bytes 4 (crc32 (peer_plain ac data)))) XOR ucast (ac_session_key ac AND 0x0000ffff)"

lemma length_peer_plain [simp]: "length (peer_plain ac data) = 6 + length data"
  by (simp add: peer_plain_def)

lemma length_peer_frame [simp]: "length (peer_frame ac data) = 10 + length data"
  by (simp add: peer_frame_def)

lemma frame_plain_twice: "frame_plain key (frame_plain key f) = f"
proof (cases "length f < 2")
  case True
  then have "take 2 f = f" "drop 2 f = []" by simp_all
  then show ?thesis unfolding frame_plain_def by (simp add: xor_stream_def)
next
  case False
  then have "take 2 (take 2 f @ ys) = take 2 f" "drop 2 (take 2 f @ ys) = ys" for ys by simp_all
  then show ?thesis unfolding frame_plain_def by (simp only: xor_stream_involution append_take_drop_id)
qed

lemma peer_frame_plain: "frame_plain (ac_xor_key ac) (peer_frame ac data) = peer_plain ac data @ le_bytes 4 (crc32 (peer_plain ac data))"
  by (simp add: peer_frame_def frame_plain_twice)

lemma peer_frame_accepted: "frame_accepted ac (peer_frame ac data)"
proof -
  let ?p = "peer_plain ac data"
  have "le_word (take 4 (drop 2 (?p @ le_bytes 4 (crc32 ?p)))) = ac_sequence_id ac XOR ac_session_key ac"
    by (simp add: peer_plain_def le_word_le_bytes)
  then show ?thesis
    unfolding frame_accepted_def frame_checks_def peer_frame_plain Let_def
    by (simp add: le_word_le_bytes xor.assoc)
qed

lemma peer_frame_length:
  "le_word (take 2 (peer_frame ac data)) XOR ucast (ac_session_key ac AND 0x0000ffff) = (of_nat (8 + length data) :: u16)"
proof -
  have "take 2 (peer_frame ac data) = take 2 (peer_plain ac data)"
    by (simp add: peer_frame_def frame_plain_def)
  also have "\<dots> = le_bytes 2 (of_nat (8 + length data) XOR ucast (ac_session_key ac AND 0x0000ffff) :: u16)"
    by (simp add: peer_plain_def)
  finally show ?thesis by (simp only: le_word_le_bytes) (simp add: le_word_le_bytes xor.assoc)
qed

section \<open>The first frame\<close>

lemma untouched_recv:
  assumes rb: "rb_wf rb" "rb_capacity rb = 4096" "rb_read rb = 0" "rb_write rb = 0"
    and lib: "lib_recv lib fd 4096 w = (Some bs, w')" and bs: "bs \<noteq> []" "length bs \<le> 4096"
  obtains rb' where "recv_into_ring lib fd rb w = Inr (int (length bs), rb', w')" "rb_wf rb'" "rb_capacity rb' = 4096"
    "rb_contents rb' = bs" "read_p rb' = 0" "unat (used rb') = length bs"
proof -
  have a: "unat (available rb) = 4096" using rb by (simp add: available_def rb_capacity_def)
  have p: "write_p rb = 0" "read_p rb = 0" using rb by (simp_all add: write_p_def read_p_def)
  let ?rb = "rb\<lparr>rb_bytes := ring_store (rb_bytes rb) (write_p rb) bs, rb_write := rb_write rb + of_nat (length bs)\<rparr>"
  have n: "length bs \<le> unat (available rb)" using a bs(2) by simp
  have "recv_into_ring lib fd rb w = Inr (int (length bs), ?rb, w')"
    using recv_into_ring_eq [OF rb(1) lib [folded a] n bs(1)] p rb(2) bs(2) by simp
  moreover note rb_append_bytes [OF rb(1) n refl]
  moreover have "rb_contents rb = []" using rb(3,4) by (simp add: rb_contents_def used_def)
  ultimately show ?thesis
    using rb(2) p by (intro that [of ?rb]) (simp_all add: rb_capacity_def read_p_def flip: length_rb_contents)
qed


text \<open>The loop takes the frame and is left with the end of its checksum.\<close>

lemma first_frame_loop:
  fixes data :: "byte list"
  assumes wf: "session_wf s" and c: "rb_contents (ss_read_buffer s) = peer_frame (ss_crypt s) data" "read_p (ss_read_buffer s) = 0"
    and data: "length data \<le> 4086" and ml: "length ml = 2"
  defines "ac \<equiv> ss_crypt s" and "m \<equiv> of_nat (8 + length data) :: u16"
  obtains s2 where "\<And>fuel. read_loop (Suc fuel) crc_table ml s ms = read_loop fuel crc_table (le_bytes 2 m) s2 (ms @ [net_message_new])"
    and "session_wf s2" and "ss_crypt s2 = ac\<lparr>ac_sequence_id := ac_sequence_id ac + 1\<rparr>"
    and "ss_read_queue s2 = snd (push_back MAX_QUEUE_LEN (ss_read_queue s) (Some (length ms)))"
    and "rb_contents (ss_read_buffer s2) = drop 2 (le_bytes 4 (crc32 (peer_plain ac data)))" and "next_length s2 = stale_length ac data"
proof -
  let ?f = "peer_frame ac data" and ?sum = "le_bytes 4 (crc32 (peer_plain ac data))"
  let ?ac = "ac\<lparr>ac_sequence_id := ac_sequence_id ac + 1\<rparr>"
  have m: "unat m = 8 + length data" using data unfolding m_def unat_of_nat by simp
  have all: "take (2 + unat m) ?f = ?f" "drop (2 + unat m) ?f = []" by (simp_all add: m)
  have "peer_plain ac data @ ?sum = (peer_plain ac data @ take 2 ?sum) @ drop 2 ?sum" by (simp only: append_assoc append_take_drop_id)
  moreover have "length (peer_plain ac data @ take 2 ?sum) = 8 + length data" by simp
  ultimately have rest: "drop (unat m) (peer_plain ac data @ ?sum) = drop 2 ?sum" unfolding m by (metis append_eq_conv_conj)
  have fits: "read_p (ss_read_buffer s) + (2 + unat m) \<le> 4096" using data by (simp add: c m)
  have len: "4 \<le> unat m" "2 + unat m \<le> length (rb_contents (ss_read_buffer s))" by (simp_all only: c m length_peer_frame)
  obtain rb' where rb': "rb_wf rb'" "rb_capacity rb' = 4096" "rb_contents rb' = drop 2 ?sum"
    and turn: "\<And>fuel. read_loop (Suc fuel) crc_table ml s ms = read_loop fuel crc_table (le_bytes 2 m)
         (snd (push_to_readqueue (Some (length ms)) (s\<lparr>ss_crypt := ?ac, ss_read_buffer := rb'\<rparr>))) (ms @ [net_message_new])"
    using read_loop_frame [OF wf ml _ len, of ms] peer_frame_length [of ac data] fits
    unfolding c ac_def [symmetric] all peer_frame_plain append_Nil2 rest if_P [OF peer_frame_accepted] by (auto simp: m_def)
  define s2 where "s2 = snd (push_to_readqueue (Some (length ms)) (s\<lparr>ss_crypt := ?ac, ss_read_buffer := rb'\<rparr>))"
  have s2: "ss_read_buffer s2 = rb'" "ss_write_buffer s2 = ss_write_buffer s" "ss_crypt s2 = ?ac"
    "ss_read_queue s2 = snd (push_back MAX_QUEUE_LEN (ss_read_queue s) (Some (length ms)))"
    by (simp_all add: s2_def push_to_readqueue_def split: prod.split)
  have "ac_wf ?ac" using wf by (simp add: session_wf_def ac_wf_def ac_def)
  then have "session_wf s2" using wf rb' by (simp add: session_wf_def s2)
  moreover have "next_length s2 = stale_length ac data" by (simp add: next_length_def stale_length_def s2 rb'(3))
  ultimately show ?thesis using turn s2 rb'(3) by (intro that [of s2]) (simp_all only: s2_def)
qed

text \<open>The next turn takes what is left for a length: with no such frame there it waits.\<close>

lemma stale_turn:
  assumes wf: "session_wf s" and ml: "length ml = 2" and two: "length (rb_contents (ss_read_buffer s)) = 2"
  shows "2 < next_length s \<Longrightarrow> read_loop (Suc fuel) tab ml s ms = Inr (s, ms)"
    and "next_length s < 2 \<Longrightarrow> read_loop (Suc fuel) tab ml s ms = Inl Out_Of_Bounds"
proof -
  let ?rb = "ss_read_buffer s" and ?m = "next_length s"
  have u: "unat (used ?rb) = 2" using two by simp
  note step = read_loop_step [OF wf ml, of fuel tab ms]
  show "read_loop (Suc fuel) tab ml s ms = Inr (s, ms)" if "2 < ?m"
    using step two that u by (simp add: word_less_nat_alt unat_u16 del: read_loop.simps)
  show "read_loop (Suc fuel) tab ml s ms = Inl Out_Of_Bounds" if "?m < 2"
  proof -
    have m: "unat (ucast ?m :: u32) < 2" using that by (simp add: word_less_nat_alt unat_u16)
    have l: "length (rb_bytes ?rb) < 2 ^ 31" using wf by (simp add: session_wf_def rb_wf_length rb_capacity_def)
    have "\<not> used ?rb < ucast ?m" using m u by (simp add: word_less_nat_alt)
    then show ?thesis using step two transform_in_short [OF m l] by (simp del: read_loop.simps)
  qed
qed


section \<open>The connection\<close>

lemma dispatch_connection:
  assumes "lib_accept lib listen_fd (sv_world sv) = (fd, w1)" and "0 < fd"
    and "dispatch_one lib rand stack ml base listen_fd Connection sv = Inr sv1"
  obtains sv' evs w where "on_accept rand stack fd sv = Inr sv'" "sv1 = sv'\<lparr>sv_events := evs, sv_world := w\<rparr>"
  using assms by (auto simp: dispatch_one_def net_event_accept_def chain_eq_Inr Let_def split: prod.splits if_splits)

lemma dispatch_connection_ml:
  "dispatch_one lib rand stack ml base listen_fd Connection sv = dispatch_one lib rand stack ml' base listen_fd Connection sv"
  unfolding dispatch_one_def net_event_accept_def Let_def main_service_fields by simp

lemma new_connection:
  assumes inv: "connection_inv tab sv" and free: "free_sessions sv \<noteq> []" and acc: "lib_accept lib listen_fd (sv_world sv) = (fd, w1)"
    and fd: "0 < fd" and unknown: "session_of fd sv = None" and stack: "length stack = 32"
    and conn: "dispatch_one lib rand stack ml base listen_fd Connection sv = Inr sv1"
  obtains s where "session_of fd sv1 = Some s" "untouched s" "ac_sequence_id (ss_crypt s) = 0" "ac_xor_key (ss_crypt s) \<in> set (sv_xor_keys sv1)"
proof -
  obtain sv' evs w where a: "on_accept rand stack fd sv = Inr sv'" and sv1: "sv1 = sv'\<lparr>sv_events := evs, sv_world := w\<rparr>"
    by (rule dispatch_connection [OF acc fd conn])
  have inv': "server_inv sv" using inv by (simp add: connection_inv_def)
  obtain sm where sm: "sv_instance sv = Live sm" "sm_wf sm" using inv' by (rule server_invE)
  obtain i rest where i: "sm_vct_sessions sm = i # rest" using free sm(1) by (cases "sm_vct_sessions sm") (auto simp: free_sessions_def)
  obtain ac r sm' where a': "on_accept rand stack fd sv = Inr (sv\<lparr>sv_instance := Live sm', sv_rand := r\<rparr>)"
    and sm': "sm_map_sessions sm' = (if sm_map_sessions sm fd = None then (sm_map_sessions sm)(fd \<mapsto> i) else sm_map_sessions sm)"
      "sm_sessions sm' = (sm_sessions sm)[i := (sm_sessions sm ! i)\<lparr>ss_socket := fd, ss_crypt := ac\<rparr>]"
    and ac: "ac_sequence_id ac = 0" "ac_xor_key ac \<in> set (sv_xor_keys sv)" and lt: "i < length (sm_sessions sm)"
    by (rule on_accept_some [OF inv' sm(1) i fd stack])
  have sv': "sv' = sv\<lparr>sv_instance := Live sm', sv_rand := r\<rparr>" using a a' by simp
  have "sm_map_sessions sm fd = None" using unknown sm(1) by (simp add: session_of_def)
  then have "session_of fd sv1 = Some ((sm_sessions sm ! i)\<lparr>ss_socket := fd, ss_crypt := ac\<rparr>)"
    using lt by (simp add: session_of_def sv1 sv' live_manager_def sm')
  moreover have "untouched (sm_sessions sm ! i)" using inv sm(1) i by (simp add: connection_inv_def free_sessions_def)
  then have "untouched ((sm_sessions sm ! i)\<lparr>ss_socket := fd, ss_crypt := ac\<rparr>)" by (simp add: untouched_def)
  ultimately show ?thesis using ac by (intro that) (assumption, assumption, simp_all add: sv1 sv')
qed

lemma on_read_first_frame:
  fixes data :: "byte list"
  assumes inv: "connection_inv crc_table sv" and fd: "0 < fd" and s: "session_of fd sv = Some s" "untouched s"
    and recv: "lib_recv lib fd 4096 (sv_world sv) = (Some (peer_frame (ss_crypt s) data), w)"
    and data: "length data \<le> 4086" and ml: "length ml = 2"
  shows "stale_length (ss_crypt s) data < 2 \<Longrightarrow> on_read lib ml fd sv = Inl Out_Of_Bounds"
    and "2 < stale_length (ss_crypt s) data \<Longrightarrow> \<exists>sv2 s2. on_read lib ml fd sv = Inr sv2 \<and> session_of fd sv2 = Some s2 \<and>
      ss_crypt s2 = (ss_crypt s)\<lparr>ac_sequence_id := ac_sequence_id (ss_crypt s) + 1\<rparr> \<and>
      ss_read_queue s2 = snd (push_back MAX_QUEUE_LEN (ss_read_queue s) (Some (length (sv_messages sv)))) \<and>
      sv_messages sv2 = sv_messages sv @ [net_message_new] \<and>
      length (rb_contents (ss_read_buffer s2)) = 2 \<and> next_length s2 = stale_length (ss_crypt s) data"
proof -
  let ?f = "peer_frame (ss_crypt s) data" and ?rb = "ss_read_buffer s"
  have inv': "server_inv sv" "sv_crc_table sv = crc_table" using inv by (simp_all add: connection_inv_def)
  obtain sm where sm: "sv_instance sv = Live sm" "sm_wf sm" "\<forall>s \<in> set (sm_sessions sm). session_wf s" using inv'(1) by (rule server_invE)
  obtain i where i: "sm_map_sessions sm fd = Some i" "s = sm_sessions sm ! i" using s(1) sm(1) by (auto simp: session_of_def)
  have lt: "i < length (sm_sessions sm)" using sm(2) i(1) by (intro mapped_session)
  have wf: "session_wf s" using sm(3) lt i(2) by simp
  obtain rb where rb: "recv_into_ring lib fd ?rb (sv_world sv) = Inr (int (length ?f), rb, w)" "rb_wf rb" "rb_capacity rb = 4096"
    "rb_contents rb = ?f" "read_p rb = 0" "unat (used rb) = length ?f"
  proof (rule untouched_recv [OF _ _ _ _ recv])
    show "rb_wf ?rb" "rb_capacity ?rb = 4096" using wf by (simp_all add: session_wf_def)
    show "rb_read ?rb = 0" "rb_write ?rb = 0" using s(2) by (simp_all add: untouched_def)
    show "?f \<noteq> []" using length_peer_frame [of "ss_crypt s" data] by (metis add_is_0 list.size(3) zero_neq_numeral)
    show "length ?f \<le> 4096" using data by simp
  qed
  let ?s = "s\<lparr>ss_read_buffer := rb\<rparr>"
  have "session_wf ?s" using wf rb by (simp add: session_wf_def)
  then obtain s2 where turn: "\<And>fuel. read_loop (Suc fuel) crc_table ml ?s (sv_messages sv) =
        read_loop fuel crc_table (le_bytes 2 (of_nat (8 + length data) :: u16)) s2 (sv_messages sv @ [net_message_new])"
    and s2: "session_wf s2" "ss_crypt s2 = (ss_crypt s)\<lparr>ac_sequence_id := ac_sequence_id (ss_crypt s) + 1\<rparr>"
      "ss_read_queue s2 = snd (push_back MAX_QUEUE_LEN (ss_read_queue s) (Some (length (sv_messages sv))))"
      "rb_contents (ss_read_buffer s2) = drop 2 (le_bytes 4 (crc32 (peer_plain (ss_crypt s) data)))"
      "next_length s2 = stale_length (ss_crypt s) data"
    by (rule first_frame_loop [of ?s data ml "sv_messages sv"]) (use rb data ml in auto)
  have two: "length (rb_contents (ss_read_buffer s2)) = 2" unfolding s2(4) by simp
  obtain k where k: "unat (used rb) = Suc k" using rb(6) length_peer_frame [of "ss_crypt s" data] by (cases "unat (used rb)") simp_all
  have read: "on_read lib ml fd sv = chain (read_loop (Suc k) crc_table (le_bytes 2 (of_nat (8 + length data) :: u16)) s2 (sv_messages sv @ [net_message_new]))
      (\<lambda>(s', ms). Inr (sv\<lparr>sv_world := w, sv_instance := Live (set_session i s' sm), sv_messages := ms\<rparr>))"
    unfolding on_read_mapped [OF sm(1) fd i(1) lt] i(2) [symmetric] rb(1) chain_simps prod.case using k inv'(2) turn
    by (simp del: read_loop.simps)
  note stale = stale_turn [OF s2(1) _ two, unfolded s2(5)]
  show "on_read lib ml fd sv = Inl Out_Of_Bounds" if "stale_length (ss_crypt s) data < 2"
    unfolding read using stale(2) that by (simp del: read_loop.simps)
  show "\<exists>sv2 s2. on_read lib ml fd sv = Inr sv2 \<and> session_of fd sv2 = Some s2 \<and>
      ss_crypt s2 = (ss_crypt s)\<lparr>ac_sequence_id := ac_sequence_id (ss_crypt s) + 1\<rparr> \<and>
      ss_read_queue s2 = snd (push_back MAX_QUEUE_LEN (ss_read_queue s) (Some (length (sv_messages sv)))) \<and>
      sv_messages sv2 = sv_messages sv @ [net_message_new] \<and>
      length (rb_contents (ss_read_buffer s2)) = 2 \<and> next_length s2 = stale_length (ss_crypt s) data"
    if "2 < stale_length (ss_crypt s) data"
    unfolding read using stale(1) that s2 two i(1) lt
    by (simp add: session_of_def live_manager_def set_session_def del: read_loop.simps length_rb_contents)
qed


section \<open>An example\<close>

text \<open>A generator that always delivers zero, and a peer that has sent the frame of an empty message.\<close>

definition zero_rand :: "nat rand" where "zero_rand n = (0, n)"

definition zero_fresh :: "nat \<Rightarrow> fresh_memory" where
  "zero_fresh = (\<lambda>_. \<lparr>fresh_crypt = example_crypt, fresh_bytes = (\<lambda>_. 0),
     fresh_read_queue = \<lparr>lq_slots = replicate 128 None, lq_push = 0, lq_pop = 0\<rparr>,
     fresh_write_queue = \<lparr>lq_slots = replicate 128 None, lq_push = 0, lq_pop = 0\<rparr>\<rparr>)"

lemma zero_fresh_wf: "\<forall>j. ac_wf (fresh_crypt (zero_fresh j))"
  by (simp add: zero_fresh_def)

definition zero_crypt :: about_crypt where
  "zero_crypt = \<lparr>ac_sequence_id = 0, ac_session_key = 0, ac_xor_key = replicate 16 1 @ [0], ac_swap_key = replicate 5 0\<rparr>"

definition first_frame :: "byte list" where "first_frame = peer_frame zero_crypt []"

lemma zero_keys: "initial_xor_keys zero_rand r = (replicate 256 (replicate 16 1 @ [0]), r)"
proof -
  have row: "xor_key_row zero_rand k q = (replicate k 1 @ [0], q)" for k q
    by (induction k) (simp_all add: rand_between_def zero_rand_def)
  have "xor_key_rows zero_rand n q = (replicate n (replicate 16 1 @ [0]), q)" for n q
    by (induction n) (simp_all only: xor_key_rows.simps row XOR_KEY_LEN_def Let_def prod.case replicate.simps)
  then show ?thesis by (simp only: initial_xor_keys_def MAX_XOR_NUM_def)
qed

lemma send_key_session_key: "send_key rand keys ac buf n r = Inr (k, ac', buf', r') \<Longrightarrow> ac_session_key ac' = of_nat (fst (rand r))"
  by (auto simp: send_key_def chain_eq_Inr Let_def split: prod.splits)


lemma on_accept_crypt:
  assumes acc: "on_accept rand stack fd sv = Inr sv'" and sm: "sv_instance sv = Live sm" "sm_wf sm" "sm_vct_sessions sm = i # rest"
    and fd: "sm_map_sessions sm fd = None"
  obtains s where "session_of fd sv' = Some s" "ac_session_key (ss_crypt s) = of_nat (fst (rand (sv_rand sv)))"
    "sv_messages sv' = sv_messages sv" "sv_xor_keys sv' = sv_xor_keys sv"
proof -
  have i: "i < length (sm_sessions sm)" using sm(2,3) by (auto simp: sm_wf_def)
  let ?s = "set_socket fd (sm_sessions sm ! i)"
  obtain k ac b r where k: "send_key rand (sv_xor_keys sv) (ss_crypt ?s) stack 32 (sv_rand sv) = Inr (k, ac, b, r)"
    and sv': "sv' = sv\<lparr>sv_instance := Live (set_session i (?s\<lparr>ss_crypt := ac\<rparr>)
        (set_session i ?s (sm\<lparr>sm_vct_sessions := rest, sm_map_sessions := (sm_map_sessions sm)(fd \<mapsto> i)\<rparr>))), sv_rand := r\<rparr>"
    using acc i fd by (auto simp: on_accept_def sm instance_of_def claim_one_session_def session_at_def insert_session_def
        Let_def chain_eq_Inr set_session_def split: if_splits)
  show ?thesis
    by (rule that [of "?s\<lparr>ss_crypt := ac\<rparr>"])
      (use i send_key_session_key [OF k] in \<open>simp_all add: session_of_def live_manager_def sv' set_session_def\<close>)
qed

lemma example_startup:
  obtains sm where "main_startup example_lib zero_rand zero_fresh (replicate 256 0) 0 first_frame =
      Inr (Inr (0, 3, \<lparr>sv_instance = Live sm, sv_events = net_events_init, sv_world = first_frame, sv_messages = [],
        sv_rand = 0, sv_xor_keys = replicate 256 (replicate 16 1 @ [0]), sv_crc_table = crc_table\<rparr>))"
    and "sm_wf sm" and "sm_vct_sessions sm = 0 # [1..<10]" and "sm_map_sessions sm = Map.empty"
proof -
  obtain sm where sm: "init_sessions zero_fresh session_manager_new = Inr (True, sm)" "sm_wf sm"
    "sm_vct_sessions sm = [0..<10]" "sm_map_sessions sm = Map.empty"
    by (rule init_sessions_spec)
  have t: "initial_crc32_table (replicate 256 0) = Inr crc_table" using initial_crc32_table_eq [of "replicate 256 0"] by simp
  have "main_startup example_lib zero_rand zero_fresh (replicate 256 0) 0 first_frame =
      Inr (Inr (0, 3, \<lparr>sv_instance = Live sm, sv_events = net_events_init, sv_world = first_frame, sv_messages = [],
        sv_rand = 0, sv_xor_keys = replicate 256 (replicate 16 1 @ [0]), sv_crc_table = crc_table\<rparr>))"
    using sm(1) zero_keys t
    by (simp add: main_startup_def Let_def example_lib_def net_socket_open_def net_socket_bind_def net_socket_listen_def
        create_singleton_def instance_of_def net_service_create_def net_event_create_def net_event_add_def)
  then show ?thesis using sm(2-4) by (intro that) (simp_all add: upt_conv_Cons)
qed

section \<open>The property\<close>

lemma push_back_spelt:
  "snd (push_back MAX_QUEUE_LEN q p) = (if lq_push q - lq_pop q < 128
     then q\<lparr>lq_slots := (lq_slots q)[unat (lq_push q AND 127) := p], lq_push := lq_push q + 1\<rparr> else q)"
  by (simp add: push_back_def MAX_QUEUE_LEN_def)

text \<open>C2. With storage for all 256 words of the checksum table, in any state the loop reaches, while a session is free: a
  connection on a socket that is not in the map gets a session with empty rings, sequence number 0 and a key of the table.
  Suppose the first \<open>recv\<close> on it delivers exactly the frame of a peer that has the keys, with at most 4086 bytes of data,
  and read the last two bytes of the checksum as the length of a frame. If that length is above 2, the frame is accepted,
  the sequence number goes to 1, a message is allocated and put at the end of the read queue if the two indices the
  queue's memory held leave room for it, else dropped; the two bytes stay in the ring as the length of the
  next frame, whatever the peer sends. If it is 0 or 1 the server faults at once. A length of 2 is not covered.\<close>

theorem first_frame_after_connection:
  assumes "reached lib rand fresh tab r w base listen_fd sv"
    and "\<forall>j. ac_wf (fresh_crypt (fresh j))" and "length tab = 256" and "recv_bounded lib" and "length stack = 32"
    and "free_sessions sv \<noteq> []" and "lib_accept lib listen_fd (sv_world sv) = (fd, w1)" and "0 < fd" and "session_of fd sv = None"
    and "dispatch_one lib rand stack ml base listen_fd Connection sv = Inr sv1"
  shows "\<exists>s. session_of fd sv1 = Some s \<and> rb_contents (ss_read_buffer s) = [] \<and> rb_contents (ss_write_buffer s) = [] \<and>
    ac_sequence_id (ss_crypt s) = 0 \<and> ac_xor_key (ss_crypt s) \<in> set (sv_xor_keys sv1) \<and>
    (\<forall>data ml w2. length data \<le> 4086 \<longrightarrow> length ml = 2 \<longrightarrow>
       lib_recv lib fd 4096 (sv_world sv1) = (Some (peer_frame (ss_crypt s) data), w2) \<longrightarrow>
       (let received = dispatch_one lib rand stack ml base listen_fd (Readable fd) sv1; stale = stale_length (ss_crypt s) data in
        (stale < 2 \<longrightarrow> received = Inl Out_Of_Bounds) \<and>
        (2 < stale \<longrightarrow> (\<exists>sv2 s2. received = Inr sv2 \<and> session_of fd sv2 = Some s2 \<and>
           ss_crypt s2 = (ss_crypt s)\<lparr>ac_sequence_id := 1\<rparr> \<and>
           ss_read_queue s2 = (let q = ss_read_queue s in if lq_push q - lq_pop q < 128
             then q\<lparr>lq_slots := (lq_slots q)[unat (lq_push q AND 127) := Some (length (sv_messages sv1))], lq_push := lq_push q + 1\<rparr>
             else q) \<and>
           sv_messages sv2 = sv_messages sv1 @ [net_message_new] \<and>
           length (rb_contents (ss_read_buffer s2)) = 2 \<and> next_length s2 = stale))))"
proof -
  have inv: "connection_inv crc_table sv" by (rule reached_connection_inv [OF assms(2-4,1)])
  obtain s where s: "session_of fd sv1 = Some s" "untouched s" "ac_sequence_id (ss_crypt s) = 0" "ac_xor_key (ss_crypt s) \<in> set (sv_xor_keys sv1)"
    by (rule new_connection [OF inv assms(6-9,5,10)])
  have read: "dispatch_one lib rand stack ml base listen_fd (Readable fd) sv1 = on_read lib ml fd sv1" for ml
    by (simp add: dispatch_one_def net_event_read_def)
  have empty: "rb_contents (ss_read_buffer s) = []" "rb_contents (ss_write_buffer s) = []"
    using s(2) by (simp_all add: untouched_def rb_contents_def used_def)
  have "connection_inv crc_table sv1"
    by (rule dispatch_one_connection_inv [OF inv assms(5) _ assms(4), of "[0, 0]" rand base listen_fd Connection])
      (simp, rule trans [OF dispatch_connection_ml assms(10)])
  note first = on_read_first_frame [OF this assms(8) s(1,2), unfolded push_back_spelt]
  show ?thesis
    unfolding read Let_def using s empty first by (intro exI [of _ s] conjI allI impI) simp_all
qed

text \<open>The start-up of the example and its first connection.\<close>

lemma example_connected:
  obtains sv sv1 sm1 s where "reached example_lib zero_rand zero_fresh (replicate 256 0) 0 first_frame 0 3 sv"
    "dispatch_one example_lib zero_rand (replicate 32 0) [0, 0] 0 3 Connection sv = Inr sv1"
    "free_sessions sv \<noteq> []" "session_of 9 sv = None" "sv_world sv = first_frame"
    "sv_instance sv1 = Live sm1" "sm_map_sessions sm1 9 = Some 0" "sv_world sv1 = first_frame" "sv_messages sv1 = []"
    "session_of 9 sv1 = Some s" "ac_session_key (ss_crypt s) = 0" "sv_xor_keys sv1 = replicate 256 (replicate 16 1 @ [0])"
proof -
  obtain sm where m: "main_startup example_lib zero_rand zero_fresh (replicate 256 0) 0 first_frame =
      Inr (Inr (0, 3, \<lparr>sv_instance = Live sm, sv_events = net_events_init, sv_world = first_frame, sv_messages = [],
        sv_rand = 0, sv_xor_keys = replicate 256 (replicate 16 1 @ [0]), sv_crc_table = crc_table\<rparr>))" (is "_ = Inr (Inr (0, 3, ?sv))")
    and sm: "sm_wf sm" "sm_vct_sessions sm = 0 # [1..<10]" "sm_map_sessions sm = Map.empty"
    by (rule example_startup)
  have start: "reached example_lib zero_rand zero_fresh (replicate 256 0) 0 first_frame 0 3 ?sv" using m by (rule reached.start)
  have inv: "server_inv ?sv"
    using reached_connection_inv [OF zero_fresh_wf _ example_lib_bounded start] by (simp add: connection_inv_def)
  have live: "sv_instance ?sv = Live sm" by simp
  obtain sm1 ac r where acc: "on_accept zero_rand (replicate 32 0) 9 ?sv = Inr (?sv\<lparr>sv_instance := Live sm1, sv_rand := r\<rparr>)"
    and sm1: "sm_map_sessions sm1 = (if sm_map_sessions sm 9 = None then (sm_map_sessions sm)(9 \<mapsto> 0) else sm_map_sessions sm)"
    by (rule on_accept_some [OF inv live sm(2), of 9 "replicate 32 0" zero_rand]) simp_all
  let ?sv' = "?sv\<lparr>sv_instance := Live sm1, sv_rand := r\<rparr>"
  obtain s where s: "session_of 9 ?sv' = Some s" "ac_session_key (ss_crypt s) = 0" "sv_messages ?sv' = []"
    "sv_xor_keys ?sv' = replicate 256 (replicate 16 1 @ [0])"
    by (rule on_accept_crypt [OF acc live sm(1,2)]) (simp_all add: sm(3) zero_rand_def)
  let ?sv1 = "?sv'\<lparr>sv_events := net_events_init(9 := \<lparr>ev_read = Some 1, ev_write = Some 2\<rparr>), sv_world := first_frame\<rparr>"
  have "dispatch_one example_lib zero_rand (replicate 32 0) [0, 0] 0 3 Connection ?sv = Inr ?sv1"
    using acc by (simp add: dispatch_one_def net_event_accept_cases example_lib_def NET_EVENTS_def)
  then show ?thesis
    using s sm(2,3) sm1 by (intro that [OF start, of ?sv1 sm1 s]) (simp_all add: free_sessions_def session_of_def)
qed

theorem first_frame_after_connection_witness:
  "\<exists>sv sv1 sv2 s. reached example_lib zero_rand zero_fresh (replicate 256 0) 0 first_frame 0 3 sv \<and>
     dispatch_one example_lib zero_rand (replicate 32 0) [0, 0] 0 3 Connection sv = Inr sv1 \<and>
     dispatch_one example_lib zero_rand (replicate 32 0) [0, 0] 0 3 (Readable 9) sv1 = Inr sv2 \<and>
     session_of 9 sv2 = Some s \<and> ac_sequence_id (ss_crypt s) = 1 \<and> sv_messages sv2 = [net_message_new] \<and> next_length s = 15408"
proof -
  obtain sv sv1 sm1 s where start: "reached example_lib zero_rand zero_fresh (replicate 256 0) 0 first_frame 0 3 sv"
    and conn: "dispatch_one example_lib zero_rand (replicate 32 0) [0, 0] 0 3 Connection sv = Inr sv1"
    and sv: "free_sessions sv \<noteq> []" "session_of 9 sv = None" "sv_world sv = first_frame" "sv_world sv1 = first_frame" "sv_messages sv1 = []"
    and s: "session_of 9 sv1 = Some s" "ac_session_key (ss_crypt s) = 0" "sv_xor_keys sv1 = replicate 256 (replicate 16 1 @ [0])"
    by (rule example_connected)
  have accept: "lib_accept example_lib 3 (sv_world sv) = (9, first_frame)" by (simp add: example_lib_def sv(3))
  obtain s' where s': "session_of 9 sv1 = Some s'" "ac_sequence_id (ss_crypt s') = 0" "ac_xor_key (ss_crypt s') \<in> set (sv_xor_keys sv1)"
    and got: "\<And>data ml w2. length data \<le> 4086 \<Longrightarrow> length ml = 2 \<Longrightarrow>
       lib_recv example_lib 9 4096 (sv_world sv1) = (Some (peer_frame (ss_crypt s') data), w2) \<Longrightarrow> 2 < stale_length (ss_crypt s') data \<Longrightarrow>
       \<exists>sv2 s2. dispatch_one example_lib zero_rand (replicate 32 0) ml 0 3 (Readable 9) sv1 = Inr sv2 \<and> session_of 9 sv2 = Some s2 \<and>
           ss_crypt s2 = (ss_crypt s')\<lparr>ac_sequence_id := 1\<rparr> \<and> sv_messages sv2 = sv_messages sv1 @ [net_message_new] \<and>
           next_length s2 = stale_length (ss_crypt s') data"
    using first_frame_after_connection [OF start zero_fresh_wf _ example_lib_bounded _ sv(1) accept _ sv(2) conn]
    unfolding Let_def by (elim meta_impE exE conjE) (simp, simp, simp, blast)
  have "s' = s" using s(1) s'(1) by simp
  then have crypt: "ac_sequence_id (ss_crypt s) = 0" "ac_xor_key (ss_crypt s) = replicate 16 1 @ [0]" using s'(2,3) s(3) by simp_all
  then have frame: "peer_frame (ss_crypt s) [] = first_frame" and stale: "stale_length (ss_crypt s) [] = stale_length zero_crypt []"
    by (simp_all add: first_frame_def peer_frame_def peer_plain_def stale_length_def zero_crypt_def s(2))
  have "stale_length zero_crypt [] = 15408" by code_simp
  moreover have "lib_recv example_lib 9 4096 first_frame = (Some first_frame, [])" by (simp add: example_lib_def first_frame_def)
  ultimately show ?thesis
    using start conn got [of "[]" "[0, 0]" "[]"] frame stale \<open>s' = s\<close> sv by auto
qed


end
