(* ===== verification/Heap_Loops.thy ===== *)
theory Heap_Loops
  imports Prelude "HOL-Library.Tree"
begin

text \<open>
  What the two kinds of trees of \<open>include/tree.h\<close> share: pointers to elements, the null pointer and
  the address of the one local node, loops that may run forever (\<open>None\<close>) or fault (\<open>Inl\<close>), and the
  caller's comparison function.
\<close>

section \<open>Pointers and loops\<close>

datatype ptr = NULL | Elem nat | Local

type_synonym 'a run = "'a result option"

definition ret :: "'a \<Rightarrow> 'a run" where
  "ret x = Some (Inr x)"

definition run :: "'a result \<Rightarrow> ('a \<Rightarrow> 'b run) \<Rightarrow> 'b run" where
  "run m k = (case m of Inl e \<Rightarrow> Some (Inl e) | Inr x \<Rightarrow> k x)"

definition run_then :: "'a run \<Rightarrow> ('a \<Rightarrow> 'b run) \<Rightarrow> 'b run" where
  "run_then m k = (case m of None \<Rightarrow> None | Some r \<Rightarrow> run r k)"

lemma run_simps [simp]:
  "run (Inl e) k = Some (Inl e)"
  "run (Inr x) k = k x"
  "run_then None k = None"
  "run_then (Some r) k = run r k"
  "run_then (ret x) k = k x"
  by (simp_all add: run_def run_then_def ret_def)

lemma ret_inject [simp]: "ret x = ret y \<longleftrightarrow> x = y"
  by (simp add: ret_def)

lemma run_mono [partial_function_mono]:
  "(\<And>y. mono_option (\<lambda>f. k y f)) \<Longrightarrow> mono_option (\<lambda>f. run m (\<lambda>y. k y f))"
  by (cases m) (simp_all add: monotone_def option.leq_refl)

section \<open>The comparison\<close>

text \<open>The caller's \<open>cmp\<close> gets two elements; given the null pointer it would dereference it, given the
  local node it would read keys nobody wrote.\<close>

definition cmp_at :: "(nat \<Rightarrow> int) \<Rightarrow> ptr \<Rightarrow> int result" where
  "cmp_at c p = (case p of NULL \<Rightarrow> Inl Null_Pointer | Elem a \<Rightarrow> Inr (c a) | Local \<Rightarrow> Inl Uninitialised)"

lemma cmp_at_simps [simp]: "cmp_at c (Elem a) = Inr (c a)" "cmp_at c NULL = Inl Null_Pointer"
  by (simp_all add: cmp_at_def)

text \<open>What the trees expect of it: it orders the elements by a key.\<close>

definition orders :: "(nat \<Rightarrow> nat \<Rightarrow> int) \<Rightarrow> (nat \<Rightarrow> 'k::linorder) \<Rightarrow> bool" where
  "orders cmp key \<longleftrightarrow> (\<forall>a b. (cmp a b < 0 \<longleftrightarrow> key a < key b) \<and> (0 < cmp a b \<longleftrightarrow> key b < key a))"

lemma orders_zero: "orders cmp key \<Longrightarrow> cmp a b = 0 \<longleftrightarrow> key a = key b"
  unfolding orders_def by (metis less_irrefl linorder_neqE not_less_iff_gr_or_eq)

text \<open>Along a list the sign of a comparison only falls.\<close>

definition falling :: "(nat \<Rightarrow> int) \<Rightarrow> nat list \<Rightarrow> bool" where
  "falling c xs \<longleftrightarrow> sorted_wrt (\<lambda>x y. sgn (c y) \<le> sgn (c x)) xs"

lemma falling_append:
  "falling c (xs @ ys) \<longleftrightarrow> falling c xs \<and> falling c ys \<and> (\<forall>x \<in> set xs. \<forall>y \<in> set ys. sgn (c y) \<le> sgn (c x))"
  by (auto simp: falling_def sorted_wrt_append)

lemma falling_Cons: "falling c (x # xs) \<longleftrightarrow> (\<forall>y \<in> set xs. sgn (c y) \<le> sgn (c x)) \<and> falling c xs"
  by (auto simp: falling_def)

lemma falling_Nil [simp]: "falling c []"
  by (simp add: falling_def)

lemma sgn_negative: "sgn (y :: int) \<le> sgn x \<Longrightarrow> x < 0 \<Longrightarrow> y < 0"
  by (auto simp: sgn_if split: if_splits)

lemma sgn_positive: "sgn (y :: int) \<le> sgn x \<Longrightarrow> 0 < y \<Longrightarrow> 0 < x"
  by (auto simp: sgn_if split: if_splits)

lemma falling_negative: "falling c (xs @ a # ys) \<Longrightarrow> c a < 0 \<Longrightarrow> y \<in> set ys \<Longrightarrow> c y < 0"
  unfolding falling_append falling_Cons using sgn_negative by blast

lemma falling_positive: "falling c (xs @ a # ys) \<Longrightarrow> 0 < c a \<Longrightarrow> x \<in> set xs \<Longrightarrow> 0 < c x"
  unfolding falling_append falling_Cons using sgn_positive [of "c a" "c x"] by auto

lemma falling_const: "falling (\<lambda>_. v) xs"
  by (induction xs) (simp_all add: falling_Cons)

lemma falling_orders:
  assumes "orders cmp key" and "sorted (map key xs)"
  shows "falling (cmp e) xs"
  using assms(2)
proof (induction xs)
  case (Cons x xs)
  have "sgn (cmp e y) \<le> sgn (cmp e x)" if "key x \<le> key y" for y
  proof -
    have "cmp e x < 0 \<longrightarrow> cmp e y < 0" and "\<not> 0 < cmp e x \<longrightarrow> \<not> 0 < cmp e y"
      using assms(1) that unfolding orders_def by (meson le_less_trans less_le_trans)+
    then show ?thesis by (cases "cmp e x" "0 :: int" rule: linorder_cases) (simp_all add: sgn_if)
  qed
  with Cons show ?case by (simp add: falling_Cons)
qed simp

end
