(* ===== verification/Key_Order.thy ===== *)
theory Key_Order
  imports Heap_Loops
begin

text \<open>
  What both kinds of trees promise, said on the list of the elements in the order of their keys: the element
  a search finds, the list after an insertion and after a removal.
\<close>

section \<open>Ascending lists\<close>

lemma ascending_distinct: "sorted_wrt (\<lambda>x y. key x < (key y :: 'k::linorder)) xs \<Longrightarrow> distinct xs"
  by (induction xs) auto

lemma ascending_sorted: "sorted_wrt (\<lambda>x y. key x < (key y :: 'k::linorder)) xs \<Longrightarrow> sorted (map key xs)"
  unfolding sorted_map by (rule sorted_wrt_mono_rel [of _ "\<lambda>x y. key x < key y"]) auto

lemma ascending_insert:
  "sorted_wrt (\<lambda>x y. key x < (key y :: 'k::linorder)) (xs @ ys) \<Longrightarrow> \<forall>x \<in> set xs. key x < key e \<Longrightarrow> \<forall>y \<in> set ys. key e < key y \<Longrightarrow>
   sorted_wrt (\<lambda>x y. key x < key y) (xs @ e # ys)"
  by (auto simp: sorted_wrt_append)

lemma ascending_drop:
  "sorted_wrt (\<lambda>x y. key x < (key y :: 'k::linorder)) (xs @ a # ys) \<Longrightarrow> sorted_wrt (\<lambda>x y. key x < key y) (xs @ ys)"
  by (auto simp: sorted_wrt_append)

lemma insort_between:
  "\<forall>x \<in> set xs. key x < key e \<Longrightarrow> \<forall>y \<in> set ys. (key e :: 'k::linorder) < key y \<Longrightarrow> insort_key key e (xs @ ys) = xs @ e # ys"
  by (induction xs) (cases ys; auto)+

section \<open>Finding and removing by key\<close>

definition found :: "(nat \<Rightarrow> 'k) \<Rightarrow> nat \<Rightarrow> nat list \<Rightarrow> ptr" where
  "found key e xs = (case List.find (\<lambda>x. key x = key e) xs of None \<Rightarrow> NULL | Some x \<Rightarrow> Elem x)"

lemma found_at:
  assumes "sorted_wrt (\<lambda>x y. key x < (key y :: 'k::linorder)) (xs @ a # ys)" and "key a = key e"
  shows "found key e (xs @ a # ys) = Elem a"
proof -
  have "List.find (\<lambda>x. key x = key e) xs = None"
    using assms by (auto simp: find_None_iff sorted_wrt_append)
  then have "List.find (\<lambda>x. key x = key e) (xs @ a # ys) = Some a"
    using assms(2) by (induction xs) (auto split: if_splits)
  then show ?thesis by (simp add: found_def)
qed

lemma found_none: "(\<forall>x \<in> set xs. key x \<noteq> key e) \<Longrightarrow> found key e xs = NULL"
proof -
  assume "\<forall>x \<in> set xs. key x \<noteq> key e"
  then have "List.find (\<lambda>x. key x = key e) xs = None" by (simp add: find_None_iff)
  then show ?thesis by (simp add: found_def)
qed

definition without :: "(nat \<Rightarrow> 'k) \<Rightarrow> nat \<Rightarrow> nat list \<Rightarrow> nat list" where
  "without key e xs = filter (\<lambda>x. key x \<noteq> key e) xs"

lemma without_split:
  assumes "sorted_wrt (\<lambda>x y. key x < (key y :: 'k::linorder)) (xs @ a # ys)" and "key a = key e"
  shows "without key e (xs @ a # ys) = xs @ ys"
proof -
  have "filter (\<lambda>x. key x \<noteq> key e) xs = xs" "filter (\<lambda>x. key x \<noteq> key e) ys = ys"
    using assms by (auto simp: filter_id_conv sorted_wrt_append)
  then show ?thesis using assms(2) by (simp add: without_def)
qed

text \<open>The pointer to the first element, or the null pointer.\<close>

definition first :: "nat list \<Rightarrow> ptr" where
  "first xs = (case xs of [] \<Rightarrow> NULL | x # _ \<Rightarrow> Elem x)"

section \<open>An order\<close>

text \<open>The order the witnesses use: the addresses are the keys.\<close>

definition address_cmp :: "nat \<Rightarrow> nat \<Rightarrow> int" where
  "address_cmp a b = int a - int b"

lemma address_cmp_orders: "orders address_cmp (\<lambda>a. a)"
  by (auto simp: orders_def address_cmp_def)

section \<open>The contract of an ordered tree\<close>

text \<open>Seen from outside, a tree is a finite map from keys to elements. \<open>contents\<close> is the map of a list of
  elements; a call of the three operations answers with a pointer and changes the map.\<close>

definition contents :: "(nat \<Rightarrow> 'k) \<Rightarrow> nat list \<Rightarrow> 'k \<Rightarrow> nat option" where
  "contents key xs k = List.find (\<lambda>x. key x = k) xs"

definition pointer_to :: "nat option \<Rightarrow> ptr" where
  "pointer_to x = (case x of None \<Rightarrow> NULL | Some a \<Rightarrow> Elem a)"

datatype call = Insert nat | Find nat | Remove nat

fun map_call :: "(nat \<Rightarrow> 'k) \<Rightarrow> call \<Rightarrow> ('k \<Rightarrow> nat option) \<Rightarrow> ptr \<times> ('k \<Rightarrow> nat option)" where
  "map_call key (Insert e) m = (pointer_to (m (key e)), if m (key e) = None then m(key e \<mapsto> e) else m)"
| "map_call key (Find e) m = (pointer_to (m (key e)), m)"
| "map_call key (Remove e) m = (Elem e, m(key e := None))"

text \<open>The caller owns the elements: it does not insert one that is linked in already, and removes only one
  that is.\<close>

fun allowed :: "(nat \<Rightarrow> 'k) \<Rightarrow> call \<Rightarrow> ('k \<Rightarrow> nat option) \<Rightarrow> bool" where
  "allowed key (Insert e) m \<longleftrightarrow> m (key e) \<noteq> Some e"
| "allowed key (Find e) m \<longleftrightarrow> True"
| "allowed key (Remove e) m \<longleftrightarrow> m (key e) = Some e"

fun map_calls :: "(nat \<Rightarrow> 'k) \<Rightarrow> call list \<Rightarrow> ('k \<Rightarrow> nat option) \<Rightarrow> ptr list \<times> ('k \<Rightarrow> nat option)" where
  "map_calls key [] m = ([], m)"
| "map_calls key (c # cs) m =
     (let (p, m') = map_call key c m; (ps', m'') = map_calls key cs m' in (p # ps', m''))"

fun all_allowed :: "(nat \<Rightarrow> 'k) \<Rightarrow> call list \<Rightarrow> ('k \<Rightarrow> nat option) \<Rightarrow> bool" where
  "all_allowed key [] m \<longleftrightarrow> True"
| "all_allowed key (c # cs) m \<longleftrightarrow> allowed key c m \<and> all_allowed key cs (snd (map_call key c m))"

text \<open>The same calls made one after another on a heap.\<close>

type_synonym 'h operation = "nat \<Rightarrow> 'h \<Rightarrow> (ptr \<times> 'h) run"

fun perform :: "'h operation \<Rightarrow> 'h operation \<Rightarrow> 'h operation \<Rightarrow> call \<Rightarrow> 'h \<Rightarrow> (ptr \<times> 'h) run" where
  "perform ins fnd rem (Insert e) h = ins e h"
| "perform ins fnd rem (Find e) h = fnd e h"
| "perform ins fnd rem (Remove e) h = rem e h"

fun perform_all :: "'h operation \<Rightarrow> 'h operation \<Rightarrow> 'h operation \<Rightarrow> call list \<Rightarrow> 'h \<Rightarrow> (ptr list \<times> 'h) run" where
  "perform_all ins fnd rem [] h = ret ([], h)"
| "perform_all ins fnd rem (c # cs) h =
     run_then (perform ins fnd rem c h) (\<lambda>(p, h1).
     run_then (perform_all ins fnd rem cs h1) (\<lambda>(ps', h2). ret (p # ps', h2)))"

lemma found_contents: "found key e xs = pointer_to (contents key xs (key e))"
  by (simp add: found_def contents_def pointer_to_def)

lemma contents_None: "contents key xs k = None \<longleftrightarrow> k \<notin> key ` set xs"
  by (auto simp: contents_def find_None_iff)

lemma contents_Some:
  assumes "sorted_wrt (\<lambda>x y. key x < (key y :: 'k::linorder)) xs"
  shows "contents key xs k = Some a \<longleftrightarrow> a \<in> set xs \<and> key a = k"
proof
  assume "contents key xs k = Some a"
  then show "a \<in> set xs \<and> key a = k" by (auto simp: contents_def find_Some_iff)
next
  assume a: "a \<in> set xs \<and> key a = k"
  then obtain ys zs where xs: "xs = ys @ a # zs" by (blast dest: split_list)
  have "found key a xs = Elem a" using found_at assms unfolding xs by blast
  then show "contents key xs k = Some a" using a by (simp add: found_contents pointer_to_def split: option.splits)
qed

lemma ascending_insort:
  assumes "sorted_wrt (\<lambda>x y. key x < (key y :: 'k::linorder)) xs" and "key e \<notin> key ` set xs"
  shows "sorted_wrt (\<lambda>x y. key x < key y) (insort_key key e xs)"
  using assms by (induction xs) (auto simp: set_insort_key)

lemma ascending_without:
  "sorted_wrt (\<lambda>x y. key x < (key y :: 'k::linorder)) xs \<Longrightarrow> sorted_wrt (\<lambda>x y. key x < key y) (without key e xs)"
  unfolding without_def by (rule sorted_wrt_filter)

text \<open>Two ascending lists of the same elements have the same map; so it is enough to know the elements.\<close>

lemma contents_eqI:
  assumes "sorted_wrt (\<lambda>x y. key x < (key y :: 'k::linorder)) xs" and "\<And>k a. m k = Some a \<longleftrightarrow> a \<in> set xs \<and> key a = k"
  shows "contents key xs = m"
proof (rule ext)
  fix k
  show "contents key xs k = m k" using contents_Some [OF assms(1), of k] assms(2) [of k] by (metis option.exhaust)
qed

lemma contents_insort:
  assumes s: "sorted_wrt (\<lambda>x y. key x < (key y :: 'k::linorder)) xs" and new: "contents key xs (key e) = None"
  shows "contents key (insort_key key e xs) = (contents key xs)(key e \<mapsto> e)"
proof (rule contents_eqI)
  show "sorted_wrt (\<lambda>x y. key x < key y) (insort_key key e xs)"
    using ascending_insort [OF s] new by (simp add: contents_None)
  show "((contents key xs)(key e \<mapsto> e)) k = Some a \<longleftrightarrow> a \<in> set (insort_key key e xs) \<and> key a = k" for k a
    using contents_Some [OF s, of k a] new contents_None [of key xs "key e"] by (auto simp: set_insort_key)
qed

lemma contents_without:
  assumes s: "sorted_wrt (\<lambda>x y. key x < (key y :: 'k::linorder)) xs"
  shows "contents key (without key e xs) = (contents key xs)(key e := None)"
proof (rule contents_eqI)
  show "sorted_wrt (\<lambda>x y. key x < key y) (without key e xs)" by (rule ascending_without [OF s])
  show "((contents key xs)(key e := None)) k = Some a \<longleftrightarrow> a \<in> set (without key e xs) \<and> key a = k" for k a
    using contents_Some [OF s, of k a] by (auto simp: without_def)
qed

locale ordered_tree =
  fixes tree :: "'h \<Rightarrow> nat list \<Rightarrow> bool" and key :: "nat \<Rightarrow> 'k::linorder"
    and ins :: "'h operation" and fnd :: "'h operation" and rem :: "'h operation"
  assumes ascending: "tree h xs \<Longrightarrow> sorted_wrt (\<lambda>x y. key x < key y) xs"
    and finds: "tree h xs \<Longrightarrow> \<exists>h'. fnd e h = ret (found key e xs, h') \<and> tree h' xs"
    and inserts: "tree h xs \<Longrightarrow> e \<notin> set xs \<Longrightarrow>
      \<exists>h'. ins e h = ret (found key e xs, h') \<and> tree h' (if found key e xs = NULL then insort_key key e xs else xs)"
    and removes: "tree h xs \<Longrightarrow> e \<in> set xs \<Longrightarrow> \<exists>h'. rem e h = ret (Elem e, h') \<and> tree h' (without key e xs)"
begin

lemma one_call:
  assumes t: "tree h xs" and a: "allowed key c (contents key xs)"
  shows "\<exists>h' xs'. perform ins fnd rem c h = ret (fst (map_call key c (contents key xs)), h') \<and> tree h' xs' \<and>
    contents key xs' = snd (map_call key c (contents key xs))"
proof (cases c)
  case (Insert e)
  then have "e \<notin> set xs" using a contents_Some [OF ascending [OF t], of "key e" e] by auto
  from inserts [OF t this] show ?thesis using contents_insort [OF ascending [OF t], of e]
    by (auto simp: Insert found_contents pointer_to_def split: option.splits if_splits)
next
  case (Find e)
  from finds [OF t, of e] show ?thesis by (auto simp: Find found_contents)
next
  case (Remove e)
  then have "e \<in> set xs" using a contents_Some [OF ascending [OF t], of "key e" e] by auto
  from removes [OF t this] show ?thesis using contents_without [OF ascending [OF t], of e] by (auto simp: Remove)
qed

theorem calls_refine_map:
  assumes "tree h xs" and "all_allowed key cs (contents key xs)"
  shows "\<exists>h' xs'. perform_all ins fnd rem cs h = ret (fst (map_calls key cs (contents key xs)), h') \<and> tree h' xs' \<and>
    contents key xs' = snd (map_calls key cs (contents key xs))"
  using assms
proof (induction cs arbitrary: h xs)
  case (Cons c cs)
  have "allowed key c (contents key xs)" using Cons.prems(2) by simp
  from one_call [OF Cons.prems(1) this] obtain h1 xs1 where h1: "perform ins fnd rem c h = ret (fst (map_call key c (contents key xs)), h1)" "tree h1 xs1"
    "contents key xs1 = snd (map_call key c (contents key xs))" by blast
  have "all_allowed key cs (contents key xs1)" using Cons.prems(2) h1(3) by simp
  from Cons.IH [OF h1(2) this] show ?case using h1(1,3) by (auto simp: case_prod_beta Let_def)
qed auto

end

end
