(* ===== verification/Tree_Splay.thy ===== *)
theory Tree_Splay
  imports Heap_Loops
begin

text \<open>
  The splay trees of \<open>include/tree.h\<close>, macro by macro, on a heap of left and right pointers.
\<close>

section \<open>Nodes and the head\<close>

record splay_heap =
  spe_left :: "ptr \<Rightarrow> ptr"
  spe_right :: "ptr \<Rightarrow> ptr"
  sph_root :: ptr

definition SPLAY_INIT :: "splay_heap \<Rightarrow> splay_heap" where
  "SPLAY_INIT h = h\<lparr>sph_root := NULL\<rparr>"

definition SPLAY_LEFT :: "splay_heap \<Rightarrow> ptr \<Rightarrow> ptr result" where
  "SPLAY_LEFT h p = (if p = NULL then Inl Null_Pointer else Inr (spe_left h p))"

definition SPLAY_RIGHT :: "splay_heap \<Rightarrow> ptr \<Rightarrow> ptr result" where
  "SPLAY_RIGHT h p = (if p = NULL then Inl Null_Pointer else Inr (spe_right h p))"

definition set_left :: "ptr \<Rightarrow> ptr \<Rightarrow> splay_heap \<Rightarrow> splay_heap result" where
  "set_left p v h = (if p = NULL then Inl Null_Pointer else Inr (h\<lparr>spe_left := (spe_left h)(p := v)\<rparr>))"

definition set_right :: "ptr \<Rightarrow> ptr \<Rightarrow> splay_heap \<Rightarrow> splay_heap result" where
  "set_right p v h = (if p = NULL then Inl Null_Pointer else Inr (h\<lparr>spe_right := (spe_right h)(p := v)\<rparr>))"

definition SPLAY_EMPTY :: "splay_heap \<Rightarrow> bool" where
  "SPLAY_EMPTY h \<longleftrightarrow> sph_root h = NULL"

definition SPLAY_ROTATE_RIGHT :: "ptr \<Rightarrow> splay_heap \<Rightarrow> splay_heap result" where
  "SPLAY_ROTATE_RIGHT tmp h =
     chain (SPLAY_RIGHT h tmp) (\<lambda>r.
     chain (set_left (sph_root h) r h) (\<lambda>h1.
     chain (set_right tmp (sph_root h1) h1) (\<lambda>h2.
     Inr (h2\<lparr>sph_root := tmp\<rparr>))))"

definition SPLAY_ROTATE_LEFT :: "ptr \<Rightarrow> splay_heap \<Rightarrow> splay_heap result" where
  "SPLAY_ROTATE_LEFT tmp h =
     chain (SPLAY_LEFT h tmp) (\<lambda>l.
     chain (set_right (sph_root h) l h) (\<lambda>h1.
     chain (set_left tmp (sph_root h1) h1) (\<lambda>h2.
     Inr (h2\<lparr>sph_root := tmp\<rparr>))))"

text \<open>The two link macros return the new value of \<open>tmp\<close> as well.\<close>

definition SPLAY_LINKLEFT :: "ptr \<Rightarrow> splay_heap \<Rightarrow> (ptr \<times> splay_heap) result" where
  "SPLAY_LINKLEFT tmp h =
     chain (set_left tmp (sph_root h) h) (\<lambda>h1.
     chain (SPLAY_LEFT h1 (sph_root h1)) (\<lambda>l.
     Inr (sph_root h1, h1\<lparr>sph_root := l\<rparr>)))"

definition SPLAY_LINKRIGHT :: "ptr \<Rightarrow> splay_heap \<Rightarrow> (ptr \<times> splay_heap) result" where
  "SPLAY_LINKRIGHT tmp h =
     chain (set_right tmp (sph_root h) h) (\<lambda>h1.
     chain (SPLAY_RIGHT h1 (sph_root h1)) (\<lambda>r.
     Inr (sph_root h1, h1\<lparr>sph_root := r\<rparr>)))"

definition SPLAY_ASSEMBLE :: "ptr \<Rightarrow> ptr \<Rightarrow> ptr \<Rightarrow> splay_heap \<Rightarrow> splay_heap result" where
  "SPLAY_ASSEMBLE node leftp rightp h =
     chain (SPLAY_LEFT h (sph_root h)) (\<lambda>l.
     chain (set_right leftp l h) (\<lambda>h1.
     chain (SPLAY_RIGHT h1 (sph_root h1)) (\<lambda>r.
     chain (set_left rightp r h1) (\<lambda>h2.
     chain (SPLAY_RIGHT h2 node) (\<lambda>nr.
     chain (set_left (sph_root h2) nr h2) (\<lambda>h3.
     chain (SPLAY_LEFT h3 node) (\<lambda>nl.
     set_right (sph_root h3) nl h3)))))))"

section \<open>Splaying\<close>

text \<open>The loop of \<open>SPLAY\<close>; \<open>c\<close> is \<open>cmp(elm, _)\<close>. It ends with the heap, \<open>__left\<close> and \<open>__right\<close>.\<close>

partial_function (option) splay_loop :: "(nat \<Rightarrow> int) \<Rightarrow> splay_heap \<Rightarrow> ptr \<Rightarrow> ptr \<Rightarrow> (splay_heap \<times> ptr \<times> ptr) run" where
  "splay_loop c h leftp rightp =
     run (cmp_at c (sph_root h)) (\<lambda>cv.
     if cv = 0 then ret (h, leftp, rightp)
     else if cv < 0 then
       run (SPLAY_LEFT h (sph_root h)) (\<lambda>tmp.
       if tmp = NULL then ret (h, leftp, rightp)
       else
         run (cmp_at c tmp) (\<lambda>c2.
         if c2 < 0 then
           run (SPLAY_ROTATE_RIGHT tmp h) (\<lambda>h1.
           run (SPLAY_LEFT h1 (sph_root h1)) (\<lambda>l.
           if l = NULL then ret (h1, leftp, rightp)
           else run (SPLAY_LINKLEFT rightp h1) (\<lambda>lk. splay_loop c (snd lk) leftp (fst lk))))
         else run (SPLAY_LINKLEFT rightp h) (\<lambda>lk. splay_loop c (snd lk) leftp (fst lk))))
     else
       run (SPLAY_RIGHT h (sph_root h)) (\<lambda>tmp.
       if tmp = NULL then ret (h, leftp, rightp)
       else
         run (cmp_at c tmp) (\<lambda>c2.
         if 0 < c2 then
           run (SPLAY_ROTATE_LEFT tmp h) (\<lambda>h1.
           run (SPLAY_RIGHT h1 (sph_root h1)) (\<lambda>r.
           if r = NULL then ret (h1, leftp, rightp)
           else run (SPLAY_LINKRIGHT leftp h1) (\<lambda>lk. splay_loop c (snd lk) (fst lk) rightp)))
         else run (SPLAY_LINKRIGHT leftp h) (\<lambda>lk. splay_loop c (snd lk) (fst lk) rightp))))"

definition SPLAY :: "(nat \<Rightarrow> int) \<Rightarrow> splay_heap \<Rightarrow> splay_heap run" where
  "SPLAY c h =
     run (chain (set_left Local NULL h) (set_right Local NULL)) (\<lambda>h1.
     run_then (splay_loop c h1 Local Local) (\<lambda>(h2, leftp, rightp).
     run (SPLAY_ASSEMBLE Local leftp rightp h2) ret))"

text \<open>The loop of \<open>SPLAY_MINMAX\<close>, with its constant \<open>__comp\<close>; with 0 it has no way out.\<close>

partial_function (option) minmax_loop :: "int \<Rightarrow> splay_heap \<Rightarrow> ptr \<Rightarrow> ptr \<Rightarrow> (splay_heap \<times> ptr \<times> ptr) run" where
  "minmax_loop cv h leftp rightp =
     (if cv < 0 then
       run (SPLAY_LEFT h (sph_root h)) (\<lambda>tmp.
       if tmp = NULL then ret (h, leftp, rightp)
       else
         run (SPLAY_ROTATE_RIGHT tmp h) (\<lambda>h1.
         run (SPLAY_LEFT h1 (sph_root h1)) (\<lambda>l.
         if l = NULL then ret (h1, leftp, rightp)
         else run (SPLAY_LINKLEFT rightp h1) (\<lambda>lk. minmax_loop cv (snd lk) leftp (fst lk)))))
     else if 0 < cv then
       run (SPLAY_RIGHT h (sph_root h)) (\<lambda>tmp.
       if tmp = NULL then ret (h, leftp, rightp)
       else
         run (SPLAY_ROTATE_LEFT tmp h) (\<lambda>h1.
         run (SPLAY_RIGHT h1 (sph_root h1)) (\<lambda>r.
         if r = NULL then ret (h1, leftp, rightp)
         else run (SPLAY_LINKRIGHT leftp h1) (\<lambda>lk. minmax_loop cv (snd lk) (fst lk) rightp))))
     else minmax_loop cv h leftp rightp)"

definition SPLAY_MINMAX :: "int \<Rightarrow> splay_heap \<Rightarrow> splay_heap run" where
  "SPLAY_MINMAX cv h =
     run (chain (set_left Local NULL h) (set_right Local NULL)) (\<lambda>h1.
     run_then (minmax_loop cv h1 Local Local) (\<lambda>(h2, leftp, rightp).
     run (SPLAY_ASSEMBLE Local leftp rightp h2) ret))"

section \<open>The operations\<close>

text \<open>Each returns the pointer it returns and the heap. \<open>elm\<close> is the address of an element.\<close>

definition SPLAY_FIND :: "(nat \<Rightarrow> nat \<Rightarrow> int) \<Rightarrow> nat \<Rightarrow> splay_heap \<Rightarrow> (ptr \<times> splay_heap) run" where
  "SPLAY_FIND cmp elm h =
     (if SPLAY_EMPTY h then ret (NULL, h)
      else run_then (SPLAY (cmp elm) h) (\<lambda>h1.
        run (cmp_at (cmp elm) (sph_root h1)) (\<lambda>cv.
        ret (if cv = 0 then sph_root h1 else NULL, h1))))"

partial_function (option) leftmost :: "splay_heap \<Rightarrow> ptr \<Rightarrow> ptr run" where
  "leftmost h elm =
     run (SPLAY_LEFT h elm) (\<lambda>l. if l = NULL then ret elm else leftmost h l)"

definition SPLAY_NEXT :: "(nat \<Rightarrow> nat \<Rightarrow> int) \<Rightarrow> nat \<Rightarrow> splay_heap \<Rightarrow> (ptr \<times> splay_heap) run" where
  "SPLAY_NEXT cmp elm h =
     run_then (SPLAY (cmp elm) h) (\<lambda>h1.
     run (SPLAY_RIGHT h1 (Elem elm)) (\<lambda>r.
     if r = NULL then ret (NULL, h1) else run_then (leftmost h1 r) (\<lambda>m. ret (m, h1))))"

definition SPLAY_MIN_MAX :: "int \<Rightarrow> splay_heap \<Rightarrow> (ptr \<times> splay_heap) run" where
  "SPLAY_MIN_MAX val h = run_then (SPLAY_MINMAX val h) (\<lambda>h1. ret (sph_root h1, h1))"

definition SPLAY_INSERT :: "(nat \<Rightarrow> nat \<Rightarrow> int) \<Rightarrow> nat \<Rightarrow> splay_heap \<Rightarrow> (ptr \<times> splay_heap) run" where
  "SPLAY_INSERT cmp elm h =
     (if SPLAY_EMPTY h then
        run (chain (set_right (Elem elm) NULL h) (set_left (Elem elm) NULL)) (\<lambda>h1.
        ret (NULL, h1\<lparr>sph_root := Elem elm\<rparr>))
      else run_then (SPLAY (cmp elm) h) (\<lambda>h1.
        run (cmp_at (cmp elm) (sph_root h1)) (\<lambda>cv.
        if cv < 0 then
          run (chain (SPLAY_LEFT h1 (sph_root h1)) (\<lambda>l.
               chain (set_left (Elem elm) l h1) (\<lambda>h2.
               chain (set_right (Elem elm) (sph_root h2) h2) (\<lambda>h3.
               set_left (sph_root h3) NULL h3)))) (\<lambda>h4.
          ret (NULL, h4\<lparr>sph_root := Elem elm\<rparr>))
        else if 0 < cv then
          run (chain (SPLAY_RIGHT h1 (sph_root h1)) (\<lambda>r.
               chain (set_right (Elem elm) r h1) (\<lambda>h2.
               chain (set_left (Elem elm) (sph_root h2) h2) (\<lambda>h3.
               set_right (sph_root h3) NULL h3)))) (\<lambda>h4.
          ret (NULL, h4\<lparr>sph_root := Elem elm\<rparr>))
        else ret (sph_root h1, h1))))"

definition SPLAY_REMOVE :: "(nat \<Rightarrow> nat \<Rightarrow> int) \<Rightarrow> nat \<Rightarrow> splay_heap \<Rightarrow> (ptr \<times> splay_heap) run" where
  "SPLAY_REMOVE cmp elm h =
     (if SPLAY_EMPTY h then ret (NULL, h)
      else run_then (SPLAY (cmp elm) h) (\<lambda>h1.
        run (cmp_at (cmp elm) (sph_root h1)) (\<lambda>cv.
        if cv = 0 then
          run (SPLAY_LEFT h1 (sph_root h1)) (\<lambda>l.
          if l = NULL then run (SPLAY_RIGHT h1 (sph_root h1)) (\<lambda>r. ret (Elem elm, h1\<lparr>sph_root := r\<rparr>))
          else
            run (SPLAY_RIGHT h1 (sph_root h1)) (\<lambda>tmp.
            run_then (SPLAY (cmp elm) (h1\<lparr>sph_root := l\<rparr>)) (\<lambda>h2.
            run (set_right (sph_root h2) tmp h2) (\<lambda>h3. ret (Elem elm, h3)))))
        else ret (NULL, h1))))"

definition SPLAY_NEGINF :: int where "SPLAY_NEGINF = - 1"
definition SPLAY_INF :: int where "SPLAY_INF = 1"

definition SPLAY_MIN :: "splay_heap \<Rightarrow> (ptr \<times> splay_heap) run" where
  "SPLAY_MIN h = (if SPLAY_EMPTY h then ret (NULL, h) else SPLAY_MIN_MAX SPLAY_NEGINF h)"

definition SPLAY_MAX :: "splay_heap \<Rightarrow> (ptr \<times> splay_heap) run" where
  "SPLAY_MAX h = (if SPLAY_EMPTY h then ret (NULL, h) else SPLAY_MIN_MAX SPLAY_INF h)"

text \<open>\<open>SPLAY_FOREACH\<close>: the elements its body sees, in order.\<close>

partial_function (option) foreach_from :: "(nat \<Rightarrow> nat \<Rightarrow> int) \<Rightarrow> ptr \<Rightarrow> splay_heap \<Rightarrow> ptr list \<Rightarrow> (ptr list \<times> splay_heap) run" where
  "foreach_from cmp x h seen =
     (case x of
        NULL \<Rightarrow> ret (seen, h)
      | Local \<Rightarrow> ret (seen, h)
      | Elem a \<Rightarrow>
          (case SPLAY_NEXT cmp a h of
             None \<Rightarrow> None
           | Some m \<Rightarrow> run m (\<lambda>nx. foreach_from cmp (fst nx) (snd nx) (seen @ [x]))))"

definition SPLAY_FOREACH :: "(nat \<Rightarrow> nat \<Rightarrow> int) \<Rightarrow> splay_heap \<Rightarrow> (ptr list \<times> splay_heap) run" where
  "SPLAY_FOREACH cmp h = run_then (SPLAY_MIN h) (\<lambda>(x, h1). foreach_from cmp x h1 [])"

section \<open>Trees in the heap\<close>

text \<open>The tree of addresses a pointer is the root of, and the two spines \<open>SPLAY\<close> builds: the nodes that hang
  on the right links from the local node, each with its left subtree, and the mirror image.\<close>

fun tree_at :: "splay_heap \<Rightarrow> ptr \<Rightarrow> nat tree \<Rightarrow> bool" where
  "tree_at h p Leaf = (p = NULL)"
| "tree_at h p (Node l a r) =
     (p = Elem a \<and> tree_at h (spe_left h (Elem a)) l \<and> tree_at h (spe_right h (Elem a)) r)"

fun left_spine :: "splay_heap \<Rightarrow> ptr \<Rightarrow> (nat tree \<times> nat) list \<Rightarrow> ptr \<Rightarrow> bool" where
  "left_spine h p [] q = (p = q)"
| "left_spine h p ((l, a) # ls) q =
     (spe_right h p = Elem a \<and> tree_at h (spe_left h (Elem a)) l \<and> left_spine h (Elem a) ls q)"

fun right_spine :: "splay_heap \<Rightarrow> ptr \<Rightarrow> (nat tree \<times> nat) list \<Rightarrow> ptr \<Rightarrow> bool" where
  "right_spine h p [] q = (p = q)"
| "right_spine h p ((r, a) # rs) q =
     (spe_left h p = Elem a \<and> tree_at h (spe_right h (Elem a)) r \<and> right_spine h (Elem a) rs q)"

text \<open>What a spine becomes when a tree is hung on its free link, and its elements in order.\<close>

fun hang_left :: "(nat tree \<times> nat) list \<Rightarrow> nat tree \<Rightarrow> nat tree" where
  "hang_left [] t = t"
| "hang_left ((l, a) # ls) t = Node l a (hang_left ls t)"

fun hang_right :: "(nat tree \<times> nat) list \<Rightarrow> nat tree \<Rightarrow> nat tree" where
  "hang_right [] t = t"
| "hang_right ((r, a) # rs) t = Node (hang_right rs t) a r"

fun lefts :: "(nat tree \<times> nat) list \<Rightarrow> nat list" where
  "lefts [] = []"
| "lefts ((l, a) # ls) = inorder l @ a # lefts ls"

fun rights :: "(nat tree \<times> nat) list \<Rightarrow> nat list" where
  "rights [] = []"
| "rights ((r, a) # rs) = rights rs @ a # inorder r"

lemma inorder_hang_left: "inorder (hang_left ls t) = lefts ls @ inorder t"
  by (induction ls rule: lefts.induct) simp_all

lemma inorder_hang_right: "inorder (hang_right rs t) = inorder t @ rights rs"
  by (induction rs rule: rights.induct) simp_all

lemma lefts_append: "lefts (ls @ ls') = lefts ls @ lefts ls'"
  by (induction ls rule: lefts.induct) simp_all

lemma rights_append: "rights (rs @ rs') = rights rs' @ rights rs"
  by (induction rs rule: rights.induct) simp_all

lemma left_spine_snoc:
  "left_spine h p ls q \<Longrightarrow> spe_right h q = Elem a \<Longrightarrow> tree_at h (spe_left h (Elem a)) l \<Longrightarrow> left_spine h p (ls @ [(l, a)]) (Elem a)"
  by (induction ls arbitrary: p rule: lefts.induct) simp_all

lemma left_spine_end: "left_spine h p ls q \<Longrightarrow> ls = [] \<and> p = q \<or> (\<exists>b \<in> set (lefts ls). q = Elem b)"
  by (induction ls arbitrary: p rule: lefts.induct) auto

text \<open>Only the links of its own nodes matter to a tree; a spine depends on one link more, that of its start,
  and not on the free link of its end.\<close>

lemma tree_at_cong:
  "(\<And>a. a \<in> set_tree t \<Longrightarrow> spe_left h' (Elem a) = spe_left h (Elem a) \<and> spe_right h' (Elem a) = spe_right h (Elem a)) \<Longrightarrow>
   tree_at h' p t = tree_at h p t"
  by (induction t arbitrary: p) auto

lemma left_spine_cong:
  "(\<And>a. a \<in> set (lefts ls) \<Longrightarrow> spe_left h' (Elem a) = spe_left h (Elem a)) \<Longrightarrow>
   (\<And>a. a \<in> set (lefts ls) \<Longrightarrow> Elem a \<noteq> q \<Longrightarrow> spe_right h' (Elem a) = spe_right h (Elem a)) \<Longrightarrow>
   (p \<noteq> q \<Longrightarrow> spe_right h' p = spe_right h p) \<Longrightarrow> (ls \<noteq> [] \<Longrightarrow> p \<noteq> q) \<Longrightarrow> distinct (lefts ls) \<Longrightarrow>
   left_spine h p ls q \<Longrightarrow> left_spine h' p ls q"
proof (induction ls arbitrary: p rule: lefts.induct)
  case 1
  then show ?case by simp
next
  case (2 l a ls)
  note st = "2.prems" [unfolded lefts.simps left_spine.simps]
  have sp: "left_spine h (Elem a) ls q" using st(6) by simp
  note q = left_spine_end [OF sp]
  have t: "tree_at h' p' l = tree_at h p' l" for p'
  proof (rule tree_at_cong)
    fix b assume b: "b \<in> set_tree l"
    then have "Elem b \<noteq> q" using q st(5) by auto
    then show "spe_left h' (Elem b) = spe_left h (Elem b) \<and> spe_right h' (Elem b) = spe_right h (Elem b)"
      using st(1,2) b by simp
  qed
  have "left_spine h' (Elem a) ls q"
  proof (rule "2.IH")
    show "\<And>b. b \<in> set (lefts ls) \<Longrightarrow> spe_left h' (Elem b) = spe_left h (Elem b)" using st(1) by simp
    show "\<And>b. b \<in> set (lefts ls) \<Longrightarrow> Elem b \<noteq> q \<Longrightarrow> spe_right h' (Elem b) = spe_right h (Elem b)" using st(2) by simp
    show "Elem a \<noteq> q \<Longrightarrow> spe_right h' (Elem a) = spe_right h (Elem a)" using st(2) by simp
    show "ls \<noteq> [] \<Longrightarrow> Elem a \<noteq> q" using q st(5) by auto
    show "distinct (lefts ls)" "left_spine h (Elem a) ls q" using st(5,6) by simp_all
  qed
  moreover have "spe_right h' p = Elem a" using st(3,4,6) by simp
  moreover have "spe_left h' (Elem a) = spe_left h (Elem a)" using st(1) by simp
  ultimately show ?case using st(6) t by simp
qed

text \<open>The mirror image of a heap carries every fact about left spines over to right ones.\<close>

definition flip :: "splay_heap \<Rightarrow> splay_heap" where
  "flip h = h\<lparr>spe_left := spe_right h, spe_right := spe_left h\<rparr>"

lemma flip_simps [simp]: "spe_left (flip h) = spe_right h" "spe_right (flip h) = spe_left h"
  by (simp_all add: flip_def)

lemma tree_at_flip [simp]: "tree_at (flip h) p (mirror t) = tree_at h p t"
  by (induction t arbitrary: p) auto

definition mirrors :: "(nat tree \<times> nat) list \<Rightarrow> (nat tree \<times> nat) list" where
  "mirrors rs = map (\<lambda>(r, a). (mirror r, a)) rs"

lemma mirrors_simps [simp]: "mirrors [] = []" "mirrors ((r, a) # rs) = (mirror r, a) # mirrors rs"
  "mirrors (rs @ rs') = mirrors rs @ mirrors rs'" "mirrors rs = [] \<longleftrightarrow> rs = []"
  by (simp_all add: mirrors_def)

lemma lefts_mirrors [simp]: "lefts (mirrors rs) = rev (rights rs)"
  by (induction rs rule: rights.induct) (simp_all add: inorder_mirror)

lemma right_spine_flip: "right_spine h p rs q = left_spine (flip h) p (mirrors rs) q"
  by (induction rs arbitrary: p rule: rights.induct) simp_all

lemma right_spine_snoc:
  "right_spine h p rs q \<Longrightarrow> spe_left h q = Elem a \<Longrightarrow> tree_at h (spe_right h (Elem a)) r \<Longrightarrow> right_spine h p (rs @ [(r, a)]) (Elem a)"
  by (simp add: right_spine_flip left_spine_snoc)

lemma right_spine_end: "right_spine h p rs q \<Longrightarrow> rs = [] \<and> p = q \<or> (\<exists>b \<in> set (rights rs). q = Elem b)"
  using left_spine_end [of "flip h" p "mirrors rs" q] by (simp add: right_spine_flip)

lemma right_spine_cong:
  "(\<And>a. a \<in> set (rights rs) \<Longrightarrow> spe_right h' (Elem a) = spe_right h (Elem a)) \<Longrightarrow>
   (\<And>a. a \<in> set (rights rs) \<Longrightarrow> Elem a \<noteq> q \<Longrightarrow> spe_left h' (Elem a) = spe_left h (Elem a)) \<Longrightarrow>
   (p \<noteq> q \<Longrightarrow> spe_left h' p = spe_left h p) \<Longrightarrow> (rs \<noteq> [] \<Longrightarrow> p \<noteq> q) \<Longrightarrow> distinct (rights rs) \<Longrightarrow>
   right_spine h p rs q \<Longrightarrow> right_spine h' p rs q"
  unfolding right_spine_flip by (rule left_spine_cong) simp_all

text \<open>Hanging a tree on the free link of a spine.\<close>

lemma left_spine_hang:
  "left_spine h p ls q \<Longrightarrow> tree_at h (spe_right h q) t \<Longrightarrow> tree_at h (spe_right h p) (hang_left ls t)"
  by (induction ls arbitrary: p rule: lefts.induct) auto

lemma right_spine_hang:
  "right_spine h p rs q \<Longrightarrow> tree_at h (spe_left h q) t \<Longrightarrow> tree_at h (spe_left h p) (hang_right rs t)"
  by (induction rs arbitrary: p rule: rights.induct) auto

section \<open>The invariant of the loop\<close>

definition spl_inv :: "splay_heap \<Rightarrow> ptr \<Rightarrow> ptr \<Rightarrow> (nat tree \<times> nat) list \<Rightarrow> nat tree \<Rightarrow> (nat tree \<times> nat) list \<Rightarrow> bool" where
  "spl_inv h lp rp ls t rs \<longleftrightarrow> tree_at h (sph_root h) t \<and> left_spine h Local ls lp \<and> right_spine h Local rs rp \<and>
     distinct (lefts ls @ inorder t @ rights rs)"

definition only_changes :: "nat set \<Rightarrow> splay_heap \<Rightarrow> splay_heap \<Rightarrow> bool" where
  "only_changes S h h' \<longleftrightarrow>
     (\<forall>p. p \<noteq> Local \<and> p \<notin> Elem ` S \<longrightarrow> spe_left h' p = spe_left h p \<and> spe_right h' p = spe_right h p)"

lemma only_changes_refl [simp]: "only_changes S h h"
  by (simp add: only_changes_def)

lemma only_changes_trans: "only_changes S h h1 \<Longrightarrow> only_changes S h1 h2 \<Longrightarrow> only_changes S h h2"
  by (simp add: only_changes_def)

definition nodes :: "(nat tree \<times> nat) list \<Rightarrow> nat tree \<Rightarrow> (nat tree \<times> nat) list \<Rightarrow> nat list" where
  "nodes ls t rs = lefts ls @ inorder t @ rights rs"

lemma spl_inv_flip: "spl_inv (flip h) rp lp (mirrors rs) (mirror t) (mirrors ls) \<longleftrightarrow> spl_inv h lp rp ls t rs"
proof -
  have "left_spine (flip h) Local (mirrors rs) rp = right_spine h Local rs rp" by (simp add: right_spine_flip)
  moreover have "right_spine (flip h) Local (mirrors ls) lp = left_spine h Local ls lp"
  proof -
    have "mirrors (mirrors ls) = ls" "flip (flip h) = h" by (simp_all add: mirrors_def flip_def split_def comp_def)
    then show ?thesis by (simp add: right_spine_flip)
  qed
  moreover have "rights (mirrors ls) = rev (lefts ls)"
    by (induction ls rule: lefts.induct) (simp_all add: inorder_mirror)
  moreover have "sph_root (flip h) = sph_root h" by (simp add: flip_def)
  ultimately show ?thesis by (auto simp: spl_inv_def inorder_mirror)
qed

text \<open>A rotation moves the left child of the root up.\<close>

lemma rotate_right:
  assumes inv: "spl_inv h lp rp ls (Node (Node ll b lr) a r) rs"
  shows "\<exists>h'. SPLAY_ROTATE_RIGHT (Elem b) h = Inr h' \<and> spl_inv h' lp rp ls (Node ll b (Node lr a r)) rs \<and>
    only_changes {a, b} h h'"
proof -
  let ?t = "Node (Node ll b lr) a r"
  have root: "sph_root h = Elem a" and tr: "tree_at h (Elem a) ?t" and lb: "spe_left h (Elem a) = Elem b"
    using inv by (auto simp: spl_inv_def)
  have d: "distinct (lefts ls @ inorder ?t @ rights rs)" using inv by (simp add: spl_inv_def)
  then have ab: "a \<noteq> b" by auto
  let ?h = "h\<lparr>spe_left := (spe_left h)(Elem a := spe_right h (Elem b)), spe_right := (spe_right h)(Elem b := Elem a), sph_root := Elem b\<rparr>"
  have rot: "SPLAY_ROTATE_RIGHT (Elem b) h = Inr ?h"
    by (simp add: SPLAY_ROTATE_RIGHT_def SPLAY_RIGHT_def set_left_def set_right_def root)
  have cong: "tree_at ?h p t = tree_at h p t" if "a \<notin> set_tree t" "b \<notin> set_tree t" for p t
    using that by (intro tree_at_cong) auto
  have "tree_at ?h (Elem b) (Node ll b (Node lr a r))"
    using tr lb ab d cong by simp
  moreover have "left_spine ?h Local ls lp"
    by (rule left_spine_cong [of ls ?h h]) (use inv d in \<open>auto simp: spl_inv_def dest!: left_spine_end\<close>)
  moreover have "right_spine ?h Local rs rp"
    by (rule right_spine_cong [of rs ?h h]) (use inv d in \<open>auto simp: spl_inv_def dest!: right_spine_end\<close>)
  ultimately have "spl_inv ?h lp rp ls (Node ll b (Node lr a r)) rs" using d by (auto simp: spl_inv_def)
  with rot show ?thesis by (auto simp: only_changes_def)
qed

text \<open>A link to the left hangs the root and its right subtree on the right spine.\<close>

lemma link_left:
  assumes inv: "spl_inv h lp rp ls (Node l a r) rs"
  shows "\<exists>h'. SPLAY_LINKLEFT rp h = Inr (Elem a, h') \<and> spl_inv h' lp (Elem a) ls l (rs @ [(r, a)]) \<and>
    only_changes (set (rights rs)) h h'"
proof -
  let ?t = "Node l a r"
  have root: "sph_root h = Elem a" and tr: "tree_at h (Elem a) ?t"
    and ls: "left_spine h Local ls lp" and rs: "right_spine h Local rs rp" using inv by (auto simp: spl_inv_def)
  have d: "distinct (lefts ls @ inorder ?t @ rights rs)" using inv by (simp add: spl_inv_def)
  have rp: "rp = Local \<and> rs = [] \<or> rp \<in> Elem ` set (rights rs)" using right_spine_end [OF rs] by auto
  then have ra: "rp \<noteq> Elem a" and rl: "rp \<notin> Elem ` (set (lefts ls) \<union> set_tree l \<union> set_tree r)" and rn: "rp \<noteq> NULL" using d by auto
  let ?h1 = "h\<lparr>spe_left := (spe_left h)(rp := Elem a)\<rparr>"
  let ?h = "?h1\<lparr>sph_root := spe_left h (Elem a)\<rparr>"
  have link: "SPLAY_LINKLEFT rp h = Inr (Elem a, ?h)"
    using ra rn by (simp add: SPLAY_LINKLEFT_def SPLAY_LEFT_def set_left_def root)
  have cong: "tree_at ?h p t = tree_at h p t" if "rp \<notin> Elem ` set_tree t" for p t
    using that by (intro tree_at_cong) auto
  have l: "tree_at ?h (spe_left h (Elem a)) l" and r: "tree_at ?h (spe_right ?h (Elem a)) r" using tr rl cong by (auto simp del: fun_upd_apply)
  have ls': "left_spine ?h Local ls lp"
    by (rule left_spine_cong [of ls ?h h]) (use ls rl d in \<open>auto dest!: left_spine_end\<close>)
  have rs': "right_spine ?h Local rs rp"
    by (rule right_spine_cong [of rs ?h h]) (use rs d rp in auto)
  have "right_spine ?h Local (rs @ [(r, a)]) (Elem a)"
    by (rule right_spine_snoc [OF rs' _ r]) simp
  then have "spl_inv ?h lp (Elem a) ls l (rs @ [(r, a)])" using d l ls' by (auto simp: spl_inv_def rights_append)
  moreover have "only_changes (set (rights rs)) h ?h" using rp by (auto simp: only_changes_def)
  ultimately show ?thesis using link by blast
qed

text \<open>The mirror images.\<close>

lemma mirror_involutions [simp]: "mirrors (mirrors ls) = ls" "flip (flip h) = h"
  by (simp_all add: mirrors_def flip_def split_def comp_def)

lemma rights_mirrors [simp]: "rights (mirrors ls) = rev (lefts ls)"
  by (induction ls rule: lefts.induct) (simp_all add: inorder_mirror)

lemma only_changes_flip: "only_changes S (flip h) h' \<Longrightarrow> only_changes S h (flip h')"
  by (simp add: only_changes_def)

lemma flip_upd: "SPLAY_LEFT (flip h) p = SPLAY_RIGHT h p" "SPLAY_RIGHT (flip h) p = SPLAY_LEFT h p"
  "set_left p v (flip h) = map_sum id flip (set_right p v h)" "set_right p v (flip h) = map_sum id flip (set_left p v h)"
  "sph_root (flip h) = sph_root h" "flip h\<lparr>sph_root := v\<rparr> = flip (h\<lparr>sph_root := v\<rparr>)"
  by (simp_all add: SPLAY_LEFT_def SPLAY_RIGHT_def set_left_def set_right_def flip_def)

lemma rotate_flip: "SPLAY_ROTATE_RIGHT p (flip h) = map_sum id flip (SPLAY_ROTATE_LEFT p h)"
  unfolding SPLAY_ROTATE_RIGHT_def SPLAY_ROTATE_LEFT_def flip_upd
  by (simp add: chain_def flip_upd split: sum.split)

lemma link_flip: "SPLAY_LINKLEFT p (flip h) = map_sum id (map_prod id flip) (SPLAY_LINKRIGHT p h)"
  unfolding SPLAY_LINKLEFT_def SPLAY_LINKRIGHT_def flip_upd
  by (simp add: chain_def flip_upd split: sum.split)

lemma rotate_left:
  assumes inv: "spl_inv h lp rp ls (Node l a (Node rl b rr)) rs"
  shows "\<exists>h'. SPLAY_ROTATE_LEFT (Elem b) h = Inr h' \<and> spl_inv h' lp rp ls (Node (Node l a rl) b rr) rs \<and>
    only_changes {a, b} h h'"
proof -
  have "spl_inv (flip h) rp lp (mirrors rs) (Node (Node (mirror rr) b (mirror rl)) a (mirror l)) (mirrors ls)"
    using inv spl_inv_flip [of h rp lp rs "Node l a (Node rl b rr)" ls] by simp
  from rotate_right [OF this] obtain h1 where h1: "SPLAY_ROTATE_RIGHT (Elem b) (flip h) = Inr h1"
    "spl_inv h1 rp lp (mirrors rs) (mirror (Node (Node l a rl) b rr)) (mirrors ls)" "only_changes {a, b} (flip h) h1" by auto
  obtain h2 where h2: "SPLAY_ROTATE_LEFT (Elem b) h = Inr h2" "h1 = flip h2"
    using h1(1) unfolding rotate_flip by (cases "SPLAY_ROTATE_LEFT (Elem b) h") simp_all
  then show ?thesis using h1(2) only_changes_flip [OF h1(3)] unfolding h2(2) spl_inv_flip by auto
qed

lemma link_right:
  assumes inv: "spl_inv h lp rp ls (Node l a r) rs"
  shows "\<exists>h'. SPLAY_LINKRIGHT lp h = Inr (Elem a, h') \<and> spl_inv h' (Elem a) rp (ls @ [(l, a)]) r rs \<and>
    only_changes (set (lefts ls)) h h'"
proof -
  have "spl_inv (flip h) rp lp (mirrors rs) (Node (mirror r) a (mirror l)) (mirrors ls)"
    using inv spl_inv_flip [of h rp lp rs "Node l a r" ls] by simp
  from link_left [OF this] obtain h1 where h1: "SPLAY_LINKLEFT lp (flip h) = Inr (Elem a, h1)"
    "spl_inv h1 rp (Elem a) (mirrors rs) (mirror r) (mirrors (ls @ [(l, a)]))" "only_changes (set (lefts ls)) (flip h) h1" by auto
  obtain h2 where h2: "SPLAY_LINKRIGHT lp h = Inr (Elem a, h2)" "h1 = flip h2"
    using h1(1) unfolding link_flip by (cases "SPLAY_LINKRIGHT lp h") auto
  then show ?thesis using h1(2) only_changes_flip [OF h1(3)] unfolding h2(2) spl_inv_flip by auto
qed

section \<open>The final assembly\<close>

lemma assemble:
  assumes inv: "spl_inv h lp rp ls (Node l a r) rs"
  shows "\<exists>h'. SPLAY_ASSEMBLE Local lp rp h = Inr h' \<and> sph_root h' = Elem a \<and>
    tree_at h' (Elem a) (Node (hang_left ls l) a (hang_right rs r)) \<and> only_changes (set (nodes ls (Node l a r) rs)) h h'"
proof -
  let ?t = "Node l a r"
  have root: "sph_root h = Elem a" and tr: "tree_at h (Elem a) ?t"
    and ls: "left_spine h Local ls lp" and rs: "right_spine h Local rs rp" using inv by (auto simp: spl_inv_def)
  have d: "distinct (lefts ls @ inorder ?t @ rights rs)" using inv by (simp add: spl_inv_def)
  have lp: "lp = Local \<and> ls = [] \<or> lp \<in> Elem ` set (lefts ls)" using left_spine_end [OF ls] by auto
  have rp: "rp = Local \<and> rs = [] \<or> rp \<in> Elem ` set (rights rs)" using right_spine_end [OF rs] by auto
  have ne: "lp \<noteq> Elem a" "rp \<noteq> Elem a" "lp \<noteq> NULL" "rp \<noteq> NULL"
    and out: "lp \<notin> Elem ` (set_tree l \<union> set_tree r)" "rp \<notin> Elem ` (set_tree l \<union> set_tree r)"
    and lr: "lp \<notin> Elem ` set (rights rs)" "rp \<notin> Elem ` set (lefts ls)" using lp rp d by auto
  let ?h2 = "h\<lparr>spe_right := (spe_right h)(lp := spe_left h (Elem a)), spe_left := (spe_left h)(rp := spe_right h (Elem a))\<rparr>"
  let ?h4 = "?h2\<lparr>spe_left := (spe_left ?h2)(Elem a := spe_right ?h2 Local), spe_right := (spe_right ?h2)(Elem a := spe_left ?h2 Local)\<rparr>"
  have asm: "SPLAY_ASSEMBLE Local lp rp h = Inr ?h4"
    using ne by (simp add: SPLAY_ASSEMBLE_def SPLAY_LEFT_def SPLAY_RIGHT_def set_left_def set_right_def root)
  have cong: "tree_at ?h2 p t = tree_at h p t" if "lp \<notin> Elem ` set_tree t" "rp \<notin> Elem ` set_tree t" for p t
    using that by (intro tree_at_cong) auto
  have ls2: "left_spine ?h2 Local ls lp"
    by (rule left_spine_cong [of ls ?h2 h]) (use ls lr d lp in auto)
  have rs2: "right_spine ?h2 Local rs rp"
    by (rule right_spine_cong [of rs ?h2 h]) (use rs lr d rp in auto)
  have "tree_at ?h2 (spe_right ?h2 lp) l" using cong [of l] out tr by (simp add: image_Un)
  then have hl: "tree_at ?h2 (spe_right ?h2 Local) (hang_left ls l)" by (rule left_spine_hang [OF ls2])
  have "tree_at ?h2 (spe_left ?h2 rp) r" using cong [of r] out tr by (simp add: image_Un)
  then have hr: "tree_at ?h2 (spe_left ?h2 Local) (hang_right rs r)" by (rule right_spine_hang [OF rs2])
  have al: "a \<notin> set_tree (hang_left ls l)" and ar: "a \<notin> set_tree (hang_right rs r)"
    using d unfolding set_inorder [symmetric] inorder_hang_left inorder_hang_right by auto
  have "tree_at ?h4 p t = tree_at ?h2 p t" if "a \<notin> set_tree t" for p t
    using that by (intro tree_at_cong) auto
  then have "tree_at ?h4 (Elem a) (Node (hang_left ls l) a (hang_right rs r))"
    using hl hr al ar by simp
  moreover have "only_changes (set (nodes ls ?t rs)) h ?h4" using lp rp by (auto simp: only_changes_def nodes_def)
  ultimately show ?thesis using asm root by simp
qed

section \<open>The loops\<close>

text \<open>
  What the loops of \<open>SPLAY\<close> and \<open>SPLAY_MINMAX\<close> have in common on a tree: they stop when the
  comparison is zero or there is no child on the side it asks for, rotate when it asks for the same side
  twice, and link.
\<close>

locale splayer =
  fixes c :: "nat \<Rightarrow> int"
    and loop :: "splay_heap \<Rightarrow> ptr \<Rightarrow> ptr \<Rightarrow> (splay_heap \<times> ptr \<times> ptr) run"
  assumes stop: "sph_root h = Elem a \<Longrightarrow> c a = 0 \<Longrightarrow> loop h lp rp = ret (h, lp, rp)"
    and left_end: "sph_root h = Elem a \<Longrightarrow> c a < 0 \<Longrightarrow> spe_left h (Elem a) = NULL \<Longrightarrow> loop h lp rp = ret (h, lp, rp)"
    and left_twice: "sph_root h = Elem a \<Longrightarrow> c a < 0 \<Longrightarrow> spe_left h (Elem a) = Elem b \<Longrightarrow> c b < 0 \<Longrightarrow>
      loop h lp rp = run (SPLAY_ROTATE_RIGHT (Elem b) h) (\<lambda>h1.
         run (SPLAY_LEFT h1 (sph_root h1)) (\<lambda>l.
         if l = NULL then ret (h1, lp, rp)
         else run (SPLAY_LINKLEFT rp h1) (\<lambda>lk. loop (snd lk) lp (fst lk))))"
    and left_once: "sph_root h = Elem a \<Longrightarrow> c a < 0 \<Longrightarrow> spe_left h (Elem a) = Elem b \<Longrightarrow> \<not> c b < 0 \<Longrightarrow>
      loop h lp rp = run (SPLAY_LINKLEFT rp h) (\<lambda>lk. loop (snd lk) lp (fst lk))"
    and right_end: "sph_root h = Elem a \<Longrightarrow> 0 < c a \<Longrightarrow> spe_right h (Elem a) = NULL \<Longrightarrow> loop h lp rp = ret (h, lp, rp)"
    and right_twice: "sph_root h = Elem a \<Longrightarrow> 0 < c a \<Longrightarrow> spe_right h (Elem a) = Elem b \<Longrightarrow> 0 < c b \<Longrightarrow>
      loop h lp rp = run (SPLAY_ROTATE_LEFT (Elem b) h) (\<lambda>h1.
         run (SPLAY_RIGHT h1 (sph_root h1)) (\<lambda>r.
         if r = NULL then ret (h1, lp, rp)
         else run (SPLAY_LINKRIGHT lp h1) (\<lambda>lk. loop (snd lk) (fst lk) rp)))"
    and right_once: "sph_root h = Elem a \<Longrightarrow> 0 < c a \<Longrightarrow> spe_right h (Elem a) = Elem b \<Longrightarrow> \<not> 0 < c b \<Longrightarrow>
      loop h lp rp = run (SPLAY_LINKRIGHT lp h) (\<lambda>lk. loop (snd lk) (fst lk) rp)"
begin

definition done_at :: "nat \<Rightarrow> nat tree \<Rightarrow> nat tree \<Rightarrow> bool" where
  "done_at a l r \<longleftrightarrow> c a = 0 \<or> c a < 0 \<and> l = Leaf \<or> 0 < c a \<and> r = Leaf"

text \<open>One turn towards the left: the loop ends here, or goes on with a smaller tree.\<close>

lemma left_turn:
  assumes inv: "spl_inv h lp rp ls (Node l a r) rs" and fall: "falling c (inorder (Node l a r))"
    and neg: "c a < 0" and rs: "\<forall>x \<in> set (rights rs). c x < 0"
  obtains (ends) h' l' b r' where "loop h lp rp = ret (h', lp, rp)" "spl_inv h' lp rp ls (Node l' b r') rs"
      "inorder (Node l' b r') = inorder (Node l a r)" "done_at b l' r'" "only_changes (set (nodes ls (Node l a r) rs)) h h'"
  | (goes_on) h1 rp1 t1 rs1 where "loop h lp rp = loop h1 lp rp1" "spl_inv h1 lp rp1 ls t1 rs1" "t1 \<noteq> Leaf"
      "size t1 < size (Node l a r)" "nodes ls t1 rs1 = nodes ls (Node l a r) rs" "falling c (inorder t1)"
      "\<forall>x \<in> set (rights rs1). c x < 0" "only_changes (set (nodes ls (Node l a r) rs)) h h1"
proof (cases l)
  case Leaf
  have root: "sph_root h = Elem a" "spe_left h (Elem a) = NULL" using inv Leaf by (auto simp: spl_inv_def)
  show ?thesis using left_end [OF root(1) neg root(2)] inv neg Leaf by (intro ends) (auto simp: done_at_def)
next
  case l: (Node ll b lr)
  have root: "sph_root h = Elem a" and lb: "spe_left h (Elem a) = Elem b" using inv l by (auto simp: spl_inv_def)
  have R: "\<forall>x \<in> set_tree r. c x < 0" using falling_negative [of c "inorder l" a "inorder r"] fall neg by auto
  show ?thesis
  proof (cases "c b < 0")
    case False
    obtain h1 where h1: "SPLAY_LINKLEFT rp h = Inr (Elem a, h1)" "spl_inv h1 lp (Elem a) ls l (rs @ [(r, a)])"
      "only_changes (set (rights rs)) h h1" using link_left [OF inv] by blast
    have "loop h lp rp = loop h1 lp (Elem a)" by (simp add: left_once [OF root neg lb False] h1(1))
    then show ?thesis
      using h1(2,3) l fall neg R rs
      by (intro goes_on) (assumption | auto simp: nodes_def rights_append falling_append falling_Cons only_changes_def)+
  next
    case bneg: True
    let ?t1 = "Node ll b (Node lr a r)"
    obtain h1 where h1: "SPLAY_ROTATE_RIGHT (Elem b) h = Inr h1" "spl_inv h1 lp rp ls ?t1 rs"
      "only_changes {a, b} h h1" using rotate_right [OF inv [unfolded l]] by blast
    have root1: "sph_root h1 = Elem b" and tr1: "tree_at h1 (spe_left h1 (Elem b)) ll" using h1(2) by (auto simp: spl_inv_def)
    have O: "only_changes (set (nodes ls (Node l a r) rs)) h h1" using h1(3) by (auto simp: only_changes_def nodes_def l)
    show ?thesis
    proof (cases ll)
      case Leaf
      then have "loop h lp rp = ret (h1, lp, rp)"
        using tr1 by (simp add: left_twice [OF root neg lb bneg] h1(1) SPLAY_LEFT_def root1)
      then show ?thesis using h1(2) bneg Leaf O l by (intro ends) (assumption | simp add: done_at_def)+
    next
      case ll: (Node lll d llr)
      have R1: "\<forall>x \<in> set_tree lr. c x < 0"
        using falling_negative [of c "inorder ll" b "inorder lr @ a # inorder r"] fall bneg l by auto
      obtain h2 where h2: "SPLAY_LINKLEFT rp h1 = Inr (Elem b, h2)" "spl_inv h2 lp (Elem b) ls ll (rs @ [(Node lr a r, b)])"
        "only_changes (set (rights rs)) h1 h2" using link_left [OF h1(2)] by blast
      have "loop h lp rp = loop h2 lp (Elem b)"
        using tr1 ll by (simp add: left_twice [OF root neg lb bneg] h1(1) h2(1) SPLAY_LEFT_def root1)
      moreover have "only_changes (set (nodes ls (Node l a r) rs)) h h2"
        by (rule only_changes_trans [OF O]) (use h2(3) in \<open>auto simp: only_changes_def nodes_def\<close>)
      ultimately show ?thesis
        using h2(2) l ll fall neg bneg R R1 rs
        by (intro goes_on) (assumption | auto simp: nodes_def rights_append falling_append falling_Cons)+
    qed
  qed
qed

lemma right_turn:
  assumes inv: "spl_inv h lp rp ls (Node l a r) rs" and fall: "falling c (inorder (Node l a r))"
    and pos: "0 < c a" and ls: "\<forall>x \<in> set (lefts ls). 0 < c x"
  obtains (ends) h' l' b r' where "loop h lp rp = ret (h', lp, rp)" "spl_inv h' lp rp ls (Node l' b r') rs"
      "inorder (Node l' b r') = inorder (Node l a r)" "done_at b l' r'" "only_changes (set (nodes ls (Node l a r) rs)) h h'"
  | (goes_on) h1 lp1 t1 ls1 where "loop h lp rp = loop h1 lp1 rp" "spl_inv h1 lp1 rp ls1 t1 rs" "t1 \<noteq> Leaf"
      "size t1 < size (Node l a r)" "nodes ls1 t1 rs = nodes ls (Node l a r) rs" "falling c (inorder t1)"
      "\<forall>x \<in> set (lefts ls1). 0 < c x" "only_changes (set (nodes ls (Node l a r) rs)) h h1"
proof (cases r)
  case Leaf
  have root: "sph_root h = Elem a" "spe_right h (Elem a) = NULL" using inv Leaf by (auto simp: spl_inv_def)
  show ?thesis using right_end [OF root(1) pos root(2)] inv pos Leaf by (intro ends) (auto simp: done_at_def)
next
  case r: (Node rl b rr)
  have root: "sph_root h = Elem a" and rb: "spe_right h (Elem a) = Elem b" using inv r by (auto simp: spl_inv_def)
  have L: "\<forall>x \<in> set_tree l. 0 < c x" using falling_positive [of c "inorder l" a "inorder r"] fall pos by auto
  show ?thesis
  proof (cases "0 < c b")
    case False
    obtain h1 where h1: "SPLAY_LINKRIGHT lp h = Inr (Elem a, h1)" "spl_inv h1 (Elem a) rp (ls @ [(l, a)]) r rs"
      "only_changes (set (lefts ls)) h h1" using link_right [OF inv] by blast
    have "loop h lp rp = loop h1 (Elem a) rp" by (simp add: right_once [OF root pos rb False] h1(1))
    then show ?thesis
      using h1(2,3) r fall pos L ls
      by (intro goes_on) (assumption | auto simp: nodes_def lefts_append falling_append falling_Cons only_changes_def)+
  next
    case bpos: True
    let ?t1 = "Node (Node l a rl) b rr"
    obtain h1 where h1: "SPLAY_ROTATE_LEFT (Elem b) h = Inr h1" "spl_inv h1 lp rp ls ?t1 rs"
      "only_changes {a, b} h h1" using rotate_left [OF inv [unfolded r]] by blast
    have root1: "sph_root h1 = Elem b" and tr1: "tree_at h1 (spe_right h1 (Elem b)) rr" using h1(2) by (auto simp: spl_inv_def)
    have O: "only_changes (set (nodes ls (Node l a r) rs)) h h1" using h1(3) by (auto simp: only_changes_def nodes_def r)
    show ?thesis
    proof (cases rr)
      case Leaf
      then have "loop h lp rp = ret (h1, lp, rp)"
        using tr1 by (simp add: right_twice [OF root pos rb bpos] h1(1) SPLAY_RIGHT_def root1)
      then show ?thesis using h1(2) bpos Leaf O r by (intro ends) (assumption | simp add: done_at_def)+
    next
      case rr: (Node rrl d rrr)
      have L1: "\<forall>x \<in> set_tree rl. 0 < c x"
        using falling_positive [of c "inorder l @ a # inorder rl" b "inorder rr"] fall bpos r by auto
      obtain h2 where h2: "SPLAY_LINKRIGHT lp h1 = Inr (Elem b, h2)" "spl_inv h2 (Elem b) rp (ls @ [(Node l a rl, b)]) rr rs"
        "only_changes (set (lefts ls)) h1 h2" using link_right [OF h1(2)] by blast
      have "loop h lp rp = loop h2 (Elem b) rp"
        using tr1 rr by (simp add: right_twice [OF root pos rb bpos] h1(1) h2(1) SPLAY_RIGHT_def root1)
      moreover have "only_changes (set (nodes ls (Node l a r) rs)) h h2"
        by (rule only_changes_trans [OF O]) (use h2(3) in \<open>auto simp: only_changes_def nodes_def\<close>)
      ultimately show ?thesis
        using h2(2) r rr fall pos bpos L L1 ls
        by (intro goes_on) (assumption | auto simp: nodes_def lefts_append falling_append falling_Cons)+
    qed
  qed
qed

text \<open>From any state of the invariant the loop returns, with the same nodes in the same order, nothing on
  the left spine that is not smaller and nothing on the right spine that is not greater.\<close>

lemma loop_returns:
  "spl_inv h lp rp ls t rs \<Longrightarrow> t \<noteq> Leaf \<Longrightarrow> falling c (inorder t) \<Longrightarrow>
   \<forall>x \<in> set (lefts ls). 0 < c x \<Longrightarrow> \<forall>x \<in> set (rights rs). c x < 0 \<Longrightarrow>
   \<exists>h' lp' rp' ls' l a r rs'. loop h lp rp = ret (h', lp', rp') \<and> spl_inv h' lp' rp' ls' (Node l a r) rs' \<and>
     nodes ls' (Node l a r) rs' = nodes ls t rs \<and> falling c (inorder (Node l a r)) \<and>
     (\<forall>x \<in> set (lefts ls'). 0 < c x) \<and> (\<forall>x \<in> set (rights rs'). c x < 0) \<and> done_at a l r \<and>
     only_changes (set (nodes ls t rs)) h h'"
proof (induction "size t" arbitrary: h lp rp ls t rs rule: less_induct)
  case less
  obtain l a r where t: "t = Node l a r" using less.prems(2) by (cases t) auto
  note inv = less.prems(1) [unfolded t] and fall = less.prems(3) [unfolded t]
  have here: ?case
    if "loop h lp rp = ret (h', lp, rp)" "spl_inv h' lp rp ls (Node l' b r') rs"
      "inorder (Node l' b r') = inorder (Node l a r)" "done_at b l' r'" "only_changes (set (nodes ls (Node l a r) rs)) h h'"
    for h' l' b r'
  proof -
    have "nodes ls (Node l' b r') rs = nodes ls t rs" "falling c (inorder (Node l' b r'))"
      unfolding nodes_def that(3) t by (simp_all only: fall)
    then show ?thesis using that less.prems(4,5) unfolding t by blast
  qed
  have later: ?case
    if L: "loop h lp rp = loop h1 lp1 rp1" and I: "spl_inv h1 lp1 rp1 ls1 t1 rs1" and "t1 \<noteq> Leaf" "size t1 < size (Node l a r)"
      and N: "nodes ls1 t1 rs1 = nodes ls (Node l a r) rs" and "falling c (inorder t1)"
      and "\<forall>x \<in> set (lefts ls1). 0 < c x" "\<forall>x \<in> set (rights rs1). c x < 0"
      and O: "only_changes (set (nodes ls (Node l a r) rs)) h h1"
    for h1 lp1 rp1 ls1 t1 rs1
    using less.hyps [of t1 h1 lp1 rp1 ls1 rs1] that unfolding L N t by (blast intro: only_changes_trans)
  consider "c a = 0" | "c a < 0" | "0 < c a" by linarith
  then show ?case
  proof cases
    case 1
    have "sph_root h = Elem a" using inv by (simp add: spl_inv_def)
    moreover have "done_at a l r" by (simp add: done_at_def 1)
    ultimately show ?thesis using stop [OF _ 1] inv by (intro here) (assumption | rule only_changes_refl | simp only:)+
  next
    case 2
    from inv fall 2 less.prems(5) show ?thesis
    proof (cases rule: left_turn)
      case (ends h' l' b r')
      then show ?thesis by (rule here)
    next
      case (goes_on h1 rp1 t1 rs1)
      then show ?thesis by (intro later) (assumption | rule less.prems(4))+
    qed
  next
    case 3
    from inv fall 3 less.prems(4) show ?thesis
    proof (cases rule: right_turn)
      case (ends h' l' b r')
      then show ?thesis by (rule here)
    next
      case (goes_on h1 lp1 t1 ls1)
      then show ?thesis by (intro later) (assumption | rule less.prems(5))+
    qed
  qed
qed

text \<open>The whole operation: two null links, the loop, the assembly.\<close>

lemma splay_spec:
  assumes tr: "tree_at h (sph_root h) t" and ne: "t \<noteq> Leaf" and d: "distinct (inorder t)" and fall: "falling c (inorder t)"
  shows "\<exists>h' l a r. run (chain (set_left Local NULL h) (set_right Local NULL)) (\<lambda>h1.
       run_then (loop h1 Local Local) (\<lambda>(h2, left, right). run (SPLAY_ASSEMBLE Local left right h2) ret)) = ret h' \<and>
     sph_root h' = Elem a \<and> tree_at h' (Elem a) (Node l a r) \<and> inorder (Node l a r) = inorder t \<and>
     (c a = 0 \<or> (\<forall>x \<in> set_tree l. 0 < c x) \<and> (\<forall>x \<in> set_tree r. c x < 0)) \<and> only_changes (set_tree t) h h'"
proof -
  let ?h1 = "h\<lparr>spe_left := (spe_left h)(Local := NULL), spe_right := (spe_right h)(Local := NULL)\<rparr>"
  have "tree_at ?h1 (sph_root ?h1) t" using tr tree_at_cong [of t ?h1 h] by simp
  then have inv: "spl_inv ?h1 Local Local [] t []" using d by (simp add: spl_inv_def)
  obtain h2 lp rp ls l a r rs where loop: "loop ?h1 Local Local = ret (h2, lp, rp)" and inv2: "spl_inv h2 lp rp ls (Node l a r) rs"
    and n: "nodes ls (Node l a r) rs = nodes [] t []" and fall2: "falling c (inorder (Node l a r))"
    and side: "\<forall>x \<in> set (lefts ls). 0 < c x" "\<forall>x \<in> set (rights rs). c x < 0" and e: "done_at a l r"
    and o: "only_changes (set (nodes [] t [])) ?h1 h2"
    using loop_returns [OF inv ne fall] by auto
  obtain h3 where h3: "SPLAY_ASSEMBLE Local lp rp h2 = Inr h3" "sph_root h3 = Elem a"
    "tree_at h3 (Elem a) (Node (hang_left ls l) a (hang_right rs r))" "only_changes (set (nodes ls (Node l a r) rs)) h2 h3"
    using assemble [OF inv2] by blast
  have "run (chain (set_left Local NULL h) (set_right Local NULL)) (\<lambda>h1.
       run_then (loop h1 Local Local) (\<lambda>(h2, left, right). run (SPLAY_ASSEMBLE Local left right h2) ret)) = ret h3"
    by (simp add: set_left_def set_right_def loop h3(1))
  moreover have "inorder (Node (hang_left ls l) a (hang_right rs r)) = inorder t"
    using n by (simp add: nodes_def inorder_hang_left inorder_hang_right)
  moreover have "c a = 0 \<or> (\<forall>x \<in> set_tree (hang_left ls l). 0 < c x) \<and> (\<forall>x \<in> set_tree (hang_right rs r). c x < 0)"
    using e side falling_negative [of c "inorder l" a "inorder r"] falling_positive [of c "inorder l" a "inorder r"] fall2
    unfolding set_inorder [symmetric] inorder_hang_left inorder_hang_right done_at_def by auto
  moreover have "only_changes (set_tree t) h h3"
  proof -
    have "only_changes (set_tree t) h ?h1" by (simp add: only_changes_def)
    moreover have "set (nodes [] t []) = set_tree t" by (simp add: nodes_def)
    then have "only_changes (set_tree t) ?h1 h2" "only_changes (set_tree t) h2 h3" using o h3(4) unfolding n by simp_all
    ultimately show ?thesis by (blast intro: only_changes_trans)
  qed
  ultimately show ?thesis using h3(2,3) by blast
qed

end

end
