(* ===== verification/Splay_Ops.thy ===== *)
theory Splay_Ops
  imports Tree_Splay Key_Order
begin

text \<open>
  The operations on splay trees refine operations on the list of the elements in the order of their keys.
  Both loops of \<open>Tree_Splay\<close> are instances of the locale there.
\<close>

section \<open>The two loops\<close>

interpretation to_key: splayer c "splay_loop c" for c
  by unfold_locales (subst splay_loop.simps, simp add: SPLAY_LEFT_def SPLAY_RIGHT_def)+

lemma min_step:
  "minmax_loop SPLAY_NEGINF h lp rp =
     run (SPLAY_LEFT h (sph_root h)) (\<lambda>tmp.
     if tmp = NULL then ret (h, lp, rp)
     else
       run (SPLAY_ROTATE_RIGHT tmp h) (\<lambda>h1.
       run (SPLAY_LEFT h1 (sph_root h1)) (\<lambda>l.
       if l = NULL then ret (h1, lp, rp)
       else run (SPLAY_LINKLEFT rp h1) (\<lambda>lk. minmax_loop SPLAY_NEGINF (snd lk) lp (fst lk)))))"
  by (subst minmax_loop.simps) (simp add: SPLAY_NEGINF_def)

lemma max_step:
  "minmax_loop SPLAY_INF h lp rp =
     run (SPLAY_RIGHT h (sph_root h)) (\<lambda>tmp.
     if tmp = NULL then ret (h, lp, rp)
     else
       run (SPLAY_ROTATE_LEFT tmp h) (\<lambda>h1.
       run (SPLAY_RIGHT h1 (sph_root h1)) (\<lambda>r.
       if r = NULL then ret (h1, lp, rp)
       else run (SPLAY_LINKRIGHT lp h1) (\<lambda>lk. minmax_loop SPLAY_INF (snd lk) (fst lk) rp))))"
  by (subst minmax_loop.simps) (simp add: SPLAY_INF_def)

lemma end_signs: "SPLAY_NEGINF < 0" "\<not> 0 < SPLAY_NEGINF" "SPLAY_NEGINF \<noteq> 0" "0 < SPLAY_INF" "\<not> SPLAY_INF < 0" "SPLAY_INF \<noteq> 0"
  by (simp_all add: SPLAY_NEGINF_def SPLAY_INF_def)

interpretation to_min: splayer "\<lambda>_. SPLAY_NEGINF" "minmax_loop SPLAY_NEGINF"
  by unfold_locales (simp add: end_signs; fail | subst min_step, simp add: SPLAY_LEFT_def end_signs; fail)+

interpretation to_max: splayer "\<lambda>_. SPLAY_INF" "minmax_loop SPLAY_INF"
  by unfold_locales (simp add: end_signs; fail | subst max_step, simp add: SPLAY_RIGHT_def end_signs; fail)+

section \<open>Ordered trees\<close>

text \<open>The abstraction: the head holds a tree of these elements, in strictly increasing order of their keys.\<close>

definition splay_tree :: "(nat \<Rightarrow> 'k::linorder) \<Rightarrow> splay_heap \<Rightarrow> nat list \<Rightarrow> bool" where
  "splay_tree key h xs \<longleftrightarrow> sorted_wrt (\<lambda>x y. key x < key y) xs \<and> (\<exists>t. tree_at h (sph_root h) t \<and> inorder t = xs)"

lemma splay_tree_empty: "splay_tree key h xs \<Longrightarrow> SPLAY_EMPTY h \<longleftrightarrow> xs = []"
proof -
  assume "splay_tree key h xs"
  then obtain t where t: "tree_at h (sph_root h) t" "inorder t = xs" by (auto simp: splay_tree_def)
  show ?thesis using t(1) unfolding SPLAY_EMPTY_def t(2) [symmetric] by (cases t) auto
qed

lemma splay_tree_NULL: "sph_root h = NULL \<Longrightarrow> splay_tree key h []"
  by (simp add: splay_tree_def)

text \<open>A tree split at its root.\<close>

definition rooted :: "(nat \<Rightarrow> 'k::linorder) \<Rightarrow> splay_heap \<Rightarrow> nat tree \<Rightarrow> nat \<Rightarrow> nat tree \<Rightarrow> bool" where
  "rooted key h l a r \<longleftrightarrow> sph_root h = Elem a \<and> tree_at h (spe_left h (Elem a)) l \<and> tree_at h (spe_right h (Elem a)) r \<and>
     sorted_wrt (\<lambda>x y. key x < key y) (inorder l @ a # inorder r)"

lemma rooted_tree: "rooted key h l a r \<Longrightarrow> splay_tree key h (inorder l @ a # inorder r)"
proof -
  assume r: "rooted key h l a r"
  then have "tree_at h (sph_root h) (Node l a r)" by (simp add: rooted_def)
  then show ?thesis using r unfolding splay_tree_def rooted_def by fastforce
qed

lemma SPLAY_splits:
  assumes o: "orders cmp key" and tr: "splay_tree key h xs" and ne: "xs \<noteq> []"
  obtains h' l a r where "SPLAY (cmp e) h = ret h'" "rooted key h' l a r" "xs = inorder l @ a # inorder r"
    "key a = key e \<or> (\<forall>x \<in> set_tree l. key x < key e) \<and> (\<forall>x \<in> set_tree r. key e < key x)"
    "only_changes (set xs) h h'"
proof -
  obtain t where t: "tree_at h (sph_root h) t" "inorder t = xs" and s: "sorted_wrt (\<lambda>x y. key x < key y) xs"
    using tr by (auto simp: splay_tree_def)
  have "t \<noteq> Leaf" using ne t(2) by auto
  moreover have "distinct (inorder t)" unfolding t(2) by (rule ascending_distinct [OF s])
  moreover have "falling (cmp e) (inorder t)" unfolding t(2) by (rule falling_orders [OF o ascending_sorted [OF s]])
  ultimately obtain h' l a r where h': "SPLAY (cmp e) h = ret h'" "sph_root h' = Elem a" "tree_at h' (Elem a) (Node l a r)"
    "inorder (Node l a r) = inorder t" "cmp e a = 0 \<or> (\<forall>x \<in> set_tree l. 0 < cmp e x) \<and> (\<forall>x \<in> set_tree r. cmp e x < 0)"
    "only_changes (set_tree t) h h'"
    using to_key.splay_spec [OF t(1), of "cmp e"] unfolding SPLAY_def by blast
  show thesis
  proof (rule that)
    show "SPLAY (cmp e) h = ret h'" by (rule h'(1))
    show xs: "xs = inorder l @ a # inorder r" using h'(4) t(2) by simp
    show "rooted key h' l a r" using h'(2,3) s unfolding rooted_def xs by simp
    show "key a = key e \<or> (\<forall>x \<in> set_tree l. key x < key e) \<and> (\<forall>x \<in> set_tree r. key e < key x)"
      using h'(5) orders_zero [OF o, of e a] o unfolding orders_def by auto
    show "only_changes (set xs) h h'" using h'(6) unfolding t(2) [symmetric] by simp
  qed
qed

text \<open>With the smallest and the greatest element wanted, the root is the first and the last one.\<close>

lemma SPLAY_MINMAX_ends:
  assumes tr: "splay_tree key h xs" and ne: "xs \<noteq> []"
  shows "\<exists>h'. SPLAY_MINMAX SPLAY_NEGINF h = ret h' \<and> splay_tree key h' xs \<and> sph_root h' = Elem (hd xs) \<and> only_changes (set xs) h h'"
    and "\<exists>h'. SPLAY_MINMAX SPLAY_INF h = ret h' \<and> splay_tree key h' xs \<and> sph_root h' = Elem (last xs) \<and> only_changes (set xs) h h'"
proof -
  obtain t where t: "tree_at h (sph_root h) t" "inorder t = xs" and s: "sorted_wrt (\<lambda>x y. key x < key y) xs"
    using tr by (auto simp: splay_tree_def)
  have ne': "t \<noteq> Leaf" using ne t(2) by auto
  have d: "distinct (inorder t)" unfolding t(2) by (rule ascending_distinct [OF s])
  obtain h' l a r where h': "SPLAY_MINMAX SPLAY_NEGINF h = ret h'" "sph_root h' = Elem a" "tree_at h' (Elem a) (Node l a r)"
    "inorder (Node l a r) = inorder t" "\<forall>x \<in> set_tree l. 0 < SPLAY_NEGINF" "only_changes (set_tree t) h h'"
    using to_min.splay_spec [OF t(1) ne' d falling_const] unfolding SPLAY_MINMAX_def by (auto simp: SPLAY_NEGINF_def)
  then have "l = Leaf" by (cases l) (auto simp: SPLAY_NEGINF_def)
  then have "hd xs = a" using h'(4) t(2) by auto
  moreover have "splay_tree key h' xs" using h'(2-4) s t(2) unfolding splay_tree_def by metis
  ultimately show "\<exists>h'. SPLAY_MINMAX SPLAY_NEGINF h = ret h' \<and> splay_tree key h' xs \<and> sph_root h' = Elem (hd xs) \<and> only_changes (set xs) h h'"
    using h'(1,2,6) unfolding t(2) [symmetric] by auto
  obtain h' l a r where h': "SPLAY_MINMAX SPLAY_INF h = ret h'" "sph_root h' = Elem a" "tree_at h' (Elem a) (Node l a r)"
    "inorder (Node l a r) = inorder t" "\<forall>x \<in> set_tree r. SPLAY_INF < 0" "only_changes (set_tree t) h h'"
    using to_max.splay_spec [OF t(1) ne' d falling_const] unfolding SPLAY_MINMAX_def by (auto simp: SPLAY_INF_def)
  then have "r = Leaf" by (cases r) (auto simp: SPLAY_INF_def)
  then have "last xs = a" using h'(4) t(2) by auto
  moreover have "splay_tree key h' xs" using h'(2-4) s t(2) unfolding splay_tree_def by metis
  ultimately show "\<exists>h'. SPLAY_MINMAX SPLAY_INF h = ret h' \<and> splay_tree key h' xs \<and> sph_root h' = Elem (last xs) \<and> only_changes (set xs) h h'"
    using h'(1,2,6) unfolding t(2) [symmetric] by auto
qed

section \<open>Finding\<close>

lemma find_returns:
  assumes o: "orders cmp key" and tr: "splay_tree key h xs"
  shows "\<exists>h'. SPLAY_FIND cmp e h = ret (found key e xs, h') \<and> splay_tree key h' xs \<and> only_changes (set xs) h h'"
proof (cases "xs = []")
  case True
  then show ?thesis using splay_tree_empty [OF tr] tr by (auto simp: SPLAY_FIND_def found_def)
next
  case False
  from SPLAY_splits [OF o tr False, where e = e] obtain h' l a r
    where h': "SPLAY (cmp e) h = ret h'" "rooted key h' l a r" "xs = inorder l @ a # inorder r"
    "key a = key e \<or> (\<forall>x \<in> set_tree l. key x < key e) \<and> (\<forall>x \<in> set_tree r. key e < key x)" "only_changes (set xs) h h'" .
  have root: "sph_root h' = Elem a" using h'(2) by (simp add: rooted_def)
  have s: "sorted_wrt (\<lambda>x y. key x < key y) (inorder l @ a # inorder r)" using h'(2) by (simp add: rooted_def)
  have "found key e xs = (if cmp e a = 0 then Elem a else NULL)"
  proof (cases "key a = key e")
    case True
    then show ?thesis using found_at [OF s True] orders_zero [OF o, of e a] by (simp add: h'(3))
  next
    case no: False
    then have "\<forall>x \<in> set xs. key x \<noteq> key e" using h'(3,4) by auto
    then show ?thesis using found_none orders_zero [OF o, of e a] no by metis
  qed
  then show ?thesis
    using h'(1,5) rooted_tree [OF h'(2)] splay_tree_empty [OF tr] False
    by (auto simp: SPLAY_FIND_def root h'(3))
qed

section \<open>Inserting and removing\<close>

lemma tree_at_root [simp]: "tree_at (h\<lparr>sph_root := v\<rparr>) p t = tree_at h p t"
  by (rule tree_at_cong) simp

text \<open>The new root takes over one subtree of the old one, which becomes the other child.\<close>

lemma new_root_before:
  assumes R: "rooted key h l a r" and new: "e \<notin> set (inorder l @ a # inorder r)"
    and below: "\<forall>x \<in> set (inorder l). key x < key e" and above: "\<forall>x \<in> set (a # inorder r). key e < key x"
  shows "splay_tree key (h\<lparr>spe_left := (spe_left h)(Elem e := spe_left h (Elem a), Elem a := NULL),
    spe_right := (spe_right h)(Elem e := Elem a), sph_root := Elem e\<rparr>) (inorder l @ e # a # inorder r)"
proof -
  let ?h = "h\<lparr>spe_left := (spe_left h)(Elem e := spe_left h (Elem a), Elem a := NULL),
    spe_right := (spe_right h)(Elem e := Elem a), sph_root := Elem e\<rparr>"
  have s: "sorted_wrt (\<lambda>x y. key x < key y) (inorder l @ a # inorder r)" using R by (simp add: rooted_def)
  have d: "e \<noteq> a" "e \<notin> set_tree l" "e \<notin> set_tree r" "a \<notin> set_tree l" "a \<notin> set_tree r"
    using new ascending_distinct [OF s] by auto
  have "tree_at ?h p l = tree_at h p l" "tree_at ?h p r = tree_at h p r" for p
    by (rule tree_at_cong; use d in auto)+
  then have "tree_at ?h (sph_root ?h) (Node l e (Node Leaf a r))" using R d by (simp add: rooted_def)
  moreover have "sorted_wrt (\<lambda>x y. key x < key y) (inorder (Node l e (Node Leaf a r)))"
    using ascending_insert [OF s below above] by simp
  ultimately show ?thesis unfolding splay_tree_def by fastforce
qed

lemma new_root_after:
  assumes R: "rooted key h l a r" and new: "e \<notin> set (inorder l @ a # inorder r)"
    and below: "\<forall>x \<in> set (inorder l @ [a]). key x < key e" and above: "\<forall>x \<in> set (inorder r). key e < key x"
  shows "splay_tree key (h\<lparr>spe_right := (spe_right h)(Elem e := spe_right h (Elem a), Elem a := NULL),
    spe_left := (spe_left h)(Elem e := Elem a), sph_root := Elem e\<rparr>) (inorder l @ a # e # inorder r)"
proof -
  let ?h = "h\<lparr>spe_right := (spe_right h)(Elem e := spe_right h (Elem a), Elem a := NULL),
    spe_left := (spe_left h)(Elem e := Elem a), sph_root := Elem e\<rparr>"
  have s: "sorted_wrt (\<lambda>x y. key x < key y) (inorder l @ a # inorder r)" using R by (simp add: rooted_def)
  have d: "e \<noteq> a" "e \<notin> set_tree l" "e \<notin> set_tree r" "a \<notin> set_tree l" "a \<notin> set_tree r"
    using new ascending_distinct [OF s] by auto
  have "tree_at ?h p l = tree_at h p l" "tree_at ?h p r = tree_at h p r" for p
    by (rule tree_at_cong; use d in auto)+
  then have "tree_at ?h (sph_root ?h) (Node (Node l a Leaf) e r)" using R d by (simp add: rooted_def)
  moreover have "sorted_wrt (\<lambda>x y. key x < key y) (inorder (Node (Node l a Leaf) e r))"
    using ascending_insert [of key "inorder l @ [a]" "inorder r" e] s below above by simp
  ultimately show ?thesis unfolding splay_tree_def by fastforce
qed

lemma insert_returns:
  assumes o: "orders cmp key" and tr: "splay_tree key h xs" and new: "e \<notin> set xs"
  shows "\<exists>h'. SPLAY_INSERT cmp e h = ret (found key e xs, h') \<and>
    splay_tree key h' (if found key e xs = NULL then insort_key key e xs else xs) \<and> only_changes (insert e (set xs)) h h'"
proof (cases "xs = []")
  case True
  let ?h = "h\<lparr>spe_right := (spe_right h)(Elem e := NULL), spe_left := (spe_left h)(Elem e := NULL), sph_root := Elem e\<rparr>"
  have "tree_at ?h (sph_root ?h) (Node Leaf e Leaf)" by simp
  then have "splay_tree key ?h [e]" unfolding splay_tree_def by fastforce
  then show ?thesis
    using splay_tree_empty [OF tr] True
    by (auto simp: SPLAY_INSERT_def found_def set_left_def set_right_def only_changes_def)
next
  case False
  from SPLAY_splits [OF o tr False, where e = e] obtain h1 l a r
    where h1: "SPLAY (cmp e) h = ret h1" "rooted key h1 l a r" "xs = inorder l @ a # inorder r"
    "key a = key e \<or> (\<forall>x \<in> set_tree l. key x < key e) \<and> (\<forall>x \<in> set_tree r. key e < key x)" "only_changes (set xs) h h1" .
  have root: "sph_root h1 = Elem a" and s: "sorted_wrt (\<lambda>x y. key x < key y) (inorder l @ a # inorder r)"
    using h1(2) by (simp_all add: rooted_def)
  have ne: "\<not> SPLAY_EMPTY h" using splay_tree_empty [OF tr] False by simp
  have d: "e \<noteq> a" using new by (auto simp: h1(3))
  have o1: "only_changes (insert e (set xs)) h h1" using h1(5) by (auto simp: only_changes_def)
  have cl: "\<forall>x \<in> set_tree l. key x < key a" and cr: "\<forall>x \<in> set_tree r. key a < key x"
    using s by (auto simp: sorted_wrt_append)
  consider (less) "key e < key a" | (eq) "key e = key a" | (greater) "key a < key e" by (rule linorder_cases)
  then show ?thesis
  proof cases
    case less
    let ?h = "h1\<lparr>spe_left := (spe_left h1)(Elem e := spe_left h1 (Elem a), Elem a := NULL),
      spe_right := (spe_right h1)(Elem e := Elem a), sph_root := Elem e\<rparr>"
    have below: "\<forall>x \<in> set (inorder l). key x < key e" and above: "\<forall>x \<in> set (a # inorder r). key e < key x"
      using h1(4) less cr by auto
    have "splay_tree key ?h (inorder l @ e # a # inorder r)" by (rule new_root_before [OF h1(2) new [unfolded h1(3)] below above])
    moreover have "insort_key key e xs = inorder l @ e # a # inorder r"
      unfolding h1(3) by (rule insort_between [OF below above])
    moreover have "found key e xs = NULL" using below above by (intro found_none) (auto simp: h1(3))
    moreover have "SPLAY_INSERT cmp e h = ret (NULL, ?h)"
      using o less d by (simp add: SPLAY_INSERT_def ne h1(1) root orders_def set_left_def set_right_def SPLAY_LEFT_def fun_upd_twist)
    moreover have "only_changes (insert e (set xs)) h ?h"
      by (rule only_changes_trans [OF o1]) (auto simp: only_changes_def h1(3))
    ultimately show ?thesis by auto
  next
    case eq
    then have "found key e xs = Elem a" using found_at [OF s] by (simp add: h1(3))
    moreover have "SPLAY_INSERT cmp e h = ret (Elem a, h1)"
      using orders_zero [OF o, of e a] eq by (simp add: SPLAY_INSERT_def ne h1(1) root)
    ultimately show ?thesis using rooted_tree [OF h1(2)] o1 by (simp add: h1(3))
  next
    case greater
    let ?h = "h1\<lparr>spe_right := (spe_right h1)(Elem e := spe_right h1 (Elem a), Elem a := NULL),
      spe_left := (spe_left h1)(Elem e := Elem a), sph_root := Elem e\<rparr>"
    have below: "\<forall>x \<in> set (inorder l @ [a]). key x < key e" and above: "\<forall>x \<in> set (inorder r). key e < key x"
      using h1(4) greater cl by auto
    have "splay_tree key ?h (inorder l @ a # e # inorder r)" by (rule new_root_after [OF h1(2) new [unfolded h1(3)] below above])
    moreover have "insort_key key e xs = inorder l @ a # e # inorder r"
      using insort_between [OF below above] by (simp add: h1(3))
    moreover have "found key e xs = NULL" using below above by (intro found_none) (auto simp: h1(3))
    moreover have "SPLAY_INSERT cmp e h = ret (NULL, ?h)"
      using o greater less_not_sym [OF greater] d by (simp add: SPLAY_INSERT_def ne h1(1) root orders_def set_left_def set_right_def SPLAY_RIGHT_def fun_upd_twist)
    moreover have "only_changes (insert e (set xs)) h ?h"
      by (rule only_changes_trans [OF o1]) (auto simp: only_changes_def h1(3))
    ultimately show ?thesis by auto
  qed
qed

text \<open>Removal: the tree left of the removed root is splayed once more, so that its last element has no right
  child. The result is the argument, not the node that was removed.\<close>

text \<open>Splaying a tree for a key above all its keys leaves its last element at the root, without a right child.\<close>

lemma last_at_root:
  assumes o: "orders cmp key" and tr: "splay_tree key h xs" and ne: "xs \<noteq> []" and below: "\<forall>x \<in> set xs. key x < key e"
  obtains h' l m where "SPLAY (cmp e) h = ret h'" "sph_root h' = Elem m" "tree_at h' (spe_left h' (Elem m)) l" "xs = inorder l @ [m]"
    "only_changes (set xs) h h'"
proof -
  from SPLAY_splits [OF o tr ne, where e = e] obtain h' l m r
    where h': "SPLAY (cmp e) h = ret h'" "rooted key h' l m r" "xs = inorder l @ m # inorder r"
    "key m = key e \<or> (\<forall>x \<in> set_tree l. key x < key e) \<and> (\<forall>x \<in> set_tree r. key e < key x)" "only_changes (set xs) h h'" .
  have "r = Leaf"
  proof (cases r)
    case (Node p q u)
    then have "q \<in> set xs" "m \<in> set xs" unfolding h'(3) by simp_all
    then show ?thesis using below h'(4) Node by auto
  qed simp
  then show thesis by (intro that [of h' m l]) (use h' in \<open>simp_all add: rooted_def\<close>)
qed

text \<open>The right subtree of the removed root becomes the right child of that element.\<close>

lemma right_joined:
  assumes r: "tree_at h (spe_right h (Elem a)) r" and l: "tree_at h2 (spe_left h2 (Elem m)) l" and m: "sph_root h2 = Elem m"
    and s: "sorted_wrt (\<lambda>x y. key x < key y) (inorder l @ m # inorder r)"
    and o: "only_changes (set (inorder l @ [m])) (h\<lparr>sph_root := p\<rparr>) h2"
  shows "splay_tree key (h2\<lparr>spe_right := (spe_right h2)(Elem m := spe_right h (Elem a))\<rparr>) (inorder l @ m # inorder r)"
proof -
  let ?h = "h2\<lparr>spe_right := (spe_right h2)(Elem m := spe_right h (Elem a))\<rparr>"
  have d: "distinct (inorder l @ m # inorder r)" by (rule ascending_distinct [OF s])
  have "tree_at ?h p l = tree_at h2 p l" "tree_at ?h p r = tree_at h2 p r" for p by (rule tree_at_cong; use d in auto)+
  moreover have "tree_at h2 p r = tree_at h p r" for p
  proof (rule tree_at_cong)
    fix x assume "x \<in> set_tree r"
    then have "x \<notin> set (inorder l @ [m])" using d by auto
    then show "spe_left h2 (Elem x) = spe_left h (Elem x) \<and> spe_right h2 (Elem x) = spe_right h (Elem x)"
      using o by (auto simp: only_changes_def)
  qed
  ultimately have "tree_at ?h (sph_root ?h) (Node l m r)" using l r by (simp add: m)
  then show ?thesis using s unfolding splay_tree_def by fastforce
qed

lemma remove_returns:
  assumes o: "orders cmp key" and tr: "splay_tree key h xs"
  shows "\<exists>h'. SPLAY_REMOVE cmp e h = ret (if found key e xs = NULL then NULL else Elem e, h') \<and>
    splay_tree key h' (without key e xs) \<and> only_changes (set xs) h h'"
proof (cases "xs = []")
  case True
  then show ?thesis using splay_tree_empty [OF tr] tr by (auto simp: SPLAY_REMOVE_def found_def without_def)
next
  case False
  from SPLAY_splits [OF o tr False, where e = e] obtain h1 l a r
    where h1: "SPLAY (cmp e) h = ret h1" "rooted key h1 l a r" "xs = inorder l @ a # inorder r"
    "key a = key e \<or> (\<forall>x \<in> set_tree l. key x < key e) \<and> (\<forall>x \<in> set_tree r. key e < key x)" "only_changes (set xs) h h1" .
  have root: "sph_root h1 = Elem a" and l: "tree_at h1 (spe_left h1 (Elem a)) l" and r: "tree_at h1 (spe_right h1 (Elem a)) r"
    and s: "sorted_wrt (\<lambda>x y. key x < key y) (inorder l @ a # inorder r)" using h1(2) by (simp_all add: rooted_def)
  have ne: "\<not> SPLAY_EMPTY h" using splay_tree_empty [OF tr] False by simp
  show ?thesis
  proof (cases "key a = key e")
    case no: False
    then have k: "\<forall>x \<in> set xs. key x \<noteq> key e" using h1(3,4) by auto
    have "SPLAY_REMOVE cmp e h = ret (NULL, h1)"
      using orders_zero [OF o, of e a] no by (simp add: SPLAY_REMOVE_def ne h1(1) root)
    moreover have "without key e xs = xs" using k by (simp add: without_def)
    ultimately show ?thesis using found_none [OF k] rooted_tree [OF h1(2)] h1(5) by (simp add: h1(3))
  next
    case yes: True
    have z: "cmp e a = 0" using orders_zero [OF o, of e a] yes by simp
    have f: "found key e xs = Elem a" and w: "without key e xs = inorder l @ inorder r"
      unfolding h1(3) by (rule found_at [OF s yes], rule without_split [OF s yes])
    note s' = ascending_drop [OF s]
    show ?thesis
    proof (cases l)
      case Leaf
      let ?h = "h1\<lparr>sph_root := spe_right h1 (Elem a)\<rparr>"
      have "SPLAY_REMOVE cmp e h = ret (Elem e, ?h)"
        using l Leaf by (simp add: SPLAY_REMOVE_def ne h1(1) root z SPLAY_LEFT_def SPLAY_RIGHT_def)
      moreover have "splay_tree key ?h (inorder r)" using r s' Leaf by (auto simp: splay_tree_def)
      moreover have "only_changes (set xs) h ?h" using h1(5) by (simp add: only_changes_def)
      ultimately show ?thesis using Leaf by (auto simp: f w)
    next
      case lNode: (Node ll b lr)
      let ?h1 = "h1\<lparr>sph_root := spe_left h1 (Elem a)\<rparr>"
      have lt: "splay_tree key ?h1 (inorder l)" using l s' by (auto simp: splay_tree_def sorted_wrt_append)
      have ine: "inorder l \<noteq> []" using lNode by simp
      have below: "\<forall>x \<in> set (inorder l). key x < key e" using s yes by (auto simp: sorted_wrt_append)
      from last_at_root [OF o lt ine below] obtain h2 l2 m
        where h2: "SPLAY (cmp e) ?h1 = ret h2" "sph_root h2 = Elem m" "tree_at h2 (spe_left h2 (Elem m)) l2"
        "inorder l = inorder l2 @ [m]" "only_changes (set (inorder l)) ?h1 h2" .
      let ?h = "h2\<lparr>spe_right := (spe_right h2)(Elem m := spe_right h1 (Elem a))\<rparr>"
      have run: "SPLAY_REMOVE cmp e h = ret (Elem e, ?h)"
        using l lNode h2(1) by (simp add: SPLAY_REMOVE_def ne h1(1) root z SPLAY_LEFT_def SPLAY_RIGHT_def set_right_def h2(2))
      have "sorted_wrt (\<lambda>x y. key x < key y) (inorder l2 @ m # inorder r)" using s' by (simp add: h2(4))
      from right_joined [OF r h2(3,2) this h2(5) [unfolded h2(4)]]
      have t: "splay_tree key ?h (without key e xs)" by (simp add: w h2(4))
      have "only_changes (set xs) h1 h2" using h2(5) by (auto simp: only_changes_def h1(3))
      moreover have "only_changes (set xs) h2 ?h" using h2(4) by (auto simp: only_changes_def h1(3))
      ultimately have "only_changes (set xs) h ?h" using h1(5) by (blast intro: only_changes_trans)
      then show ?thesis using run t by (auto simp: f)
    qed
  qed
qed

section \<open>Minimum, maximum, iteration\<close>

lemma min_max_return:
  assumes tr: "splay_tree key h xs"
  shows "\<exists>h'. SPLAY_MIN h = ret (if xs = [] then NULL else Elem (hd xs), h') \<and> splay_tree key h' xs \<and> only_changes (set xs) h h'"
    and "\<exists>h'. SPLAY_MAX h = ret (if xs = [] then NULL else Elem (last xs), h') \<and> splay_tree key h' xs \<and> only_changes (set xs) h h'"
  using SPLAY_MINMAX_ends [OF tr] splay_tree_empty [OF tr] tr
  by (cases "xs = []"; force simp: SPLAY_MIN_def SPLAY_MAX_def SPLAY_MIN_MAX_def)+

lemma leftmost_returns: "tree_at h p t \<Longrightarrow> t \<noteq> Leaf \<Longrightarrow> leftmost h p = ret (Elem (hd (inorder t)))"
proof (induction t arbitrary: p)
  case (Node l a r)
  have p: "p = Elem a" and l: "tree_at h (spe_left h (Elem a)) l" using Node.prems(1) by simp_all
  show ?case
  proof (cases l)
    case Leaf
    then show ?thesis using l unfolding p by (subst leftmost.simps) (simp add: SPLAY_LEFT_def)
  next
    case (Node ll b lr)
    then have "leftmost h p = leftmost h (spe_left h (Elem a))"
      using l unfolding p by (subst leftmost.simps) (simp add: SPLAY_LEFT_def)
    then show ?thesis using Node.IH(1) [OF l] Node by (cases "inorder ll") simp_all
  qed
qed simp

lemma next_returns:
  assumes o: "orders cmp key" and tr: "splay_tree key h (xs @ e # ys)"
  shows "\<exists>h'. SPLAY_NEXT cmp e h = ret (first ys, h') \<and> splay_tree key h' (xs @ e # ys) \<and> only_changes (set (xs @ e # ys)) h h'"
proof -
  have ne: "xs @ e # ys \<noteq> []" by simp
  from SPLAY_splits [OF o tr ne, where e = e] obtain h1 l a r
    where h1: "SPLAY (cmp e) h = ret h1" "rooted key h1 l a r" "xs @ e # ys = inorder l @ a # inorder r"
    "key a = key e \<or> (\<forall>x \<in> set_tree l. key x < key e) \<and> (\<forall>x \<in> set_tree r. key e < key x)" "only_changes (set (xs @ e # ys)) h h1" .
  have s: "sorted_wrt (\<lambda>x y. key x < key y) (inorder l @ a # inorder r)" and r: "tree_at h1 (spe_right h1 (Elem a)) r"
    using h1(2) by (simp_all add: rooted_def)
  have "e \<in> set (inorder l @ a # inorder r)" unfolding h1(3) [symmetric] by simp
  then have a: "a = e" using s h1(4) by (auto simp: sorted_wrt_append)
  have d: "distinct (inorder l @ e # inorder r)" using ascending_distinct [OF s] by (simp add: a)
  then have "distinct (xs @ e # ys)" unfolding h1(3) a .
  then have "e \<notin> set xs" "e \<notin> set ys" by simp_all
  then have ys: "ys = inorder r" using h1(3) append_Cons_eq_iff [THEN iffD1, of e xs ys "inorder l" "inorder r"] unfolding a by blast
  have "SPLAY_NEXT cmp e h = ret (first ys, h1)"
    using r leftmost_returns [OF r] by (cases r) (auto simp: SPLAY_NEXT_def h1(1) SPLAY_RIGHT_def a ys first_def split: list.split)
  then show ?thesis using rooted_tree [OF h1(2)] h1(5) by (auto simp: h1(3))
qed

lemma foreach_visits:
  assumes o: "orders cmp key"
  shows "splay_tree key h (xs @ ys) \<Longrightarrow>
    \<exists>h'. foreach_from cmp (first ys) h seen = ret (seen @ map Elem ys, h') \<and> splay_tree key h' (xs @ ys) \<and> only_changes (set (xs @ ys)) h h'"
proof (induction ys arbitrary: h seen xs)
  case Nil
  then show ?case by (auto simp: foreach_from.simps first_def)
next
  case (Cons e ys)
  obtain h1 where h1: "SPLAY_NEXT cmp e h = ret (first ys, h1)" "splay_tree key h1 ((xs @ [e]) @ ys)"
    "only_changes (set (xs @ e # ys)) h h1" using next_returns [OF o Cons.prems] by auto
  obtain h2 where h2: "foreach_from cmp (first ys) h1 (seen @ [Elem e]) = ret ((seen @ [Elem e]) @ map Elem ys, h2)"
    "splay_tree key h2 ((xs @ [e]) @ ys)" "only_changes (set ((xs @ [e]) @ ys)) h1 h2" using Cons.IH [OF h1(2)] by blast
  have "foreach_from cmp (first (e # ys)) h seen = ret (seen @ map Elem (e # ys), h2)"
    using h2(1) by (subst foreach_from.simps) (simp add: first_def [of "e # ys"] h1(1) [unfolded ret_def])
  moreover have "only_changes (set (xs @ e # ys)) h h2"
    using only_changes_trans [OF h1(3), of h2] h2(3) by simp
  ultimately show ?case using h2(2) by auto
qed

section \<open>The contract\<close>

interpretation splay_map: ordered_tree "\<lambda>h xs. orders cmp key \<and> splay_tree key h xs" key "SPLAY_INSERT cmp" "SPLAY_FIND cmp" "SPLAY_REMOVE cmp"
  for cmp :: "nat \<Rightarrow> nat \<Rightarrow> int" and key :: "nat \<Rightarrow> 'k::linorder"
proof
  fix h xs e
  assume t: "orders cmp key \<and> splay_tree key h xs"
  then have s: "sorted_wrt (\<lambda>x y. key x < key y) xs" by (simp add: splay_tree_def)
  then show "sorted_wrt (\<lambda>x y. key x < key y) xs" .
  show "\<exists>h'. SPLAY_FIND cmp e h = ret (found key e xs, h') \<and> (orders cmp key \<and> splay_tree key h' xs)"
    using t find_returns [of cmp key h xs e] by blast
  show "\<exists>h'. SPLAY_INSERT cmp e h = ret (found key e xs, h') \<and>
    (orders cmp key \<and> splay_tree key h' (if found key e xs = NULL then insort_key key e xs else xs))" if "e \<notin> set xs"
    using t insert_returns [of cmp key h xs e] that by blast
  show "\<exists>h'. SPLAY_REMOVE cmp e h = ret (Elem e, h') \<and> (orders cmp key \<and> splay_tree key h' (without key e xs))" if el: "e \<in> set xs"
  proof -
    obtain ys zs where xs: "xs = ys @ e # zs" using split_list [OF el] by blast
    have "found key e xs \<noteq> NULL" using found_at [OF s [unfolded xs] refl] by (simp add: xs)
    then show ?thesis using t remove_returns [of cmp key h xs e] by auto
  qed
qed

section \<open>The properties\<close>

text \<open>C31. Splaying for an element returns on every nonempty ordered tree: the same elements are in the same
  order, no pointer outside the tree changes, and the root has the wanted key when the tree has it, else
  everything left of the root is smaller and everything right of it greater than that key.\<close>

theorem SPLAY_correct:
  assumes "orders cmp key" and "splay_tree key h xs" and "xs \<noteq> []"
  shows "\<exists>h' l a r. SPLAY (cmp e) h = ret h' \<and> sph_root h' = Elem a \<and> splay_tree key h' xs \<and> xs = l @ a # r \<and>
    (key a = key e \<or> (\<forall>x \<in> set l. key x < key e) \<and> (\<forall>x \<in> set r. key e < key x)) \<and> only_changes (set xs) h h'"
proof -
  from SPLAY_splits [OF assms, where e = e] obtain h' l a r
    where h': "SPLAY (cmp e) h = ret h'" "rooted key h' l a r" "xs = inorder l @ a # inorder r"
    "key a = key e \<or> (\<forall>x \<in> set_tree l. key x < key e) \<and> (\<forall>x \<in> set_tree r. key e < key x)" "only_changes (set xs) h h'" .
  have "sph_root h' = Elem a" using h'(2) by (simp add: rooted_def)
  moreover have "splay_tree key h' xs" using rooted_tree [OF h'(2)] by (simp add: h'(3))
  ultimately show ?thesis
    using h'(1,3-5) by (intro exI [of _ h'] exI [of _ "inorder l"] exI [of _ a] exI [of _ "inorder r"]) simp
qed

text \<open>The witnesses use the tree with root 3, its children 1 and 5, and the addresses as keys.\<close>

definition three_nodes :: splay_heap where
  "three_nodes = \<lparr>spe_left = (\<lambda>_. NULL)(Elem 3 := Elem 1), spe_right = (\<lambda>_. NULL)(Elem 3 := Elem 5), sph_root = Elem 3\<rparr>"

lemma three_nodes_tree: "splay_tree (\<lambda>a. a) three_nodes [1, 3, 5]"
proof -
  have "tree_at three_nodes (sph_root three_nodes) (Node (Node Leaf 1 Leaf) 3 (Node Leaf 5 Leaf))"
    by (simp add: three_nodes_def)
  then show ?thesis unfolding splay_tree_def by fastforce
qed

theorem SPLAY_correct_witness:
  "\<exists>h' l a r. SPLAY (address_cmp 4) three_nodes = ret h' \<and> sph_root h' = Elem a \<and> splay_tree (\<lambda>a. a) h' [1, 3, 5] \<and>
    [1, 3, 5] = l @ a # r \<and> (a = 4 \<or> (\<forall>x \<in> set l. x < 4) \<and> (\<forall>x \<in> set r. 4 < x)) \<and> only_changes (set [1, 3, 5]) three_nodes h'"
  by (rule SPLAY_correct [OF address_cmp_orders three_nodes_tree]) simp

text \<open>Finding returns a pointer to the element with the wanted key, or null exactly when there is none;
  the tree keeps its elements.\<close>

theorem SPLAY_FIND_correct:
  assumes "orders cmp key" and "splay_tree key h xs"
  shows "\<exists>p h'. SPLAY_FIND cmp e h = ret (p, h') \<and> splay_tree key h' xs \<and>
    (p = NULL \<and> (\<forall>x \<in> set xs. key x \<noteq> key e) \<or> (\<exists>x \<in> set xs. p = Elem x \<and> key x = key e))"
proof -
  obtain h' where h': "SPLAY_FIND cmp e h = ret (found key e xs, h')" "splay_tree key h' xs"
    using find_returns [OF assms] by blast
  have "found key e xs = NULL \<and> (\<forall>x \<in> set xs. key x \<noteq> key e) \<or> (\<exists>x \<in> set xs. found key e xs = Elem x \<and> key x = key e)"
  proof (cases "List.find (\<lambda>x. key x = key e) xs")
    case None
    then have "\<forall>x \<in> set xs. key x \<noteq> key e" by (auto simp: find_None_iff)
    then show ?thesis using found_none by blast
  next
    case (Some x)
    then have "x \<in> set xs" "key x = key e" by (auto simp: find_Some_iff)
    then show ?thesis using Some by (auto simp: found_def)
  qed
  with h' show ?thesis by blast
qed

theorem SPLAY_FIND_correct_witness:
  "\<exists>p h'. SPLAY_FIND address_cmp 5 three_nodes = ret (p, h') \<and> splay_tree (\<lambda>a. a) h' [1, 3, 5] \<and>
    (p = NULL \<and> (\<forall>x \<in> set [1, 3, 5 :: nat]. x \<noteq> 5) \<or> (\<exists>x \<in> set [1, 3, 5]. p = Elem x \<and> x = 5))"
  by (rule SPLAY_FIND_correct [OF address_cmp_orders three_nodes_tree])

text \<open>C32. Inserting a new element puts it at its place in the order and returns null; if its key is there
  already, the element that has it is returned and the elements stay the same. Nothing outside the tree
  and the new element changes.\<close>

theorem SPLAY_INSERT_correct:
  assumes "orders cmp key" and "splay_tree key h xs" and "e \<notin> set xs"
  shows "\<exists>h'. SPLAY_INSERT cmp e h = ret (found key e xs, h') \<and>
    splay_tree key h' (if found key e xs = NULL then insort_key key e xs else xs) \<and> only_changes (insert e (set xs)) h h'"
  by (rule insert_returns [OF assms])

theorem SPLAY_INSERT_correct_witness:
  "\<exists>h'. SPLAY_INSERT address_cmp 4 three_nodes = ret (NULL, h') \<and> splay_tree (\<lambda>a. a) h' [1, 3, 4, 5] \<and>
    only_changes {4, 1, 3, 5} three_nodes h'"
  using SPLAY_INSERT_correct [OF address_cmp_orders three_nodes_tree, of 4] by (simp add: found_def)

text \<open>C33. Removing takes the element with the key out of the tree and returns its argument, whichever element
  was removed; without such an element it returns null and removes nothing.\<close>

theorem SPLAY_REMOVE_correct:
  assumes "orders cmp key" and "splay_tree key h xs"
  shows "\<exists>h'. SPLAY_REMOVE cmp e h = ret (if found key e xs = NULL then NULL else Elem e, h') \<and>
    splay_tree key h' (without key e xs) \<and> only_changes (set xs) h h'"
  by (rule remove_returns [OF assms])

theorem SPLAY_REMOVE_correct_witness:
  "\<exists>h'. SPLAY_REMOVE address_cmp 3 three_nodes = ret (Elem 3, h') \<and> splay_tree (\<lambda>a. a) h' [1, 5] \<and>
    only_changes {1, 3, 5} three_nodes h'"
  using SPLAY_REMOVE_correct [OF address_cmp_orders three_nodes_tree, of 3] by (simp add: found_def without_def)

text \<open>C34. The iteration macro visits every element once, in the order of the keys, and ends, although each
  step splays the tree it walks over.\<close>

theorem SPLAY_FOREACH_visits_in_order:
  assumes "orders cmp key" and "splay_tree key h xs"
  shows "\<exists>h'. SPLAY_FOREACH cmp h = ret (map Elem xs, h') \<and> splay_tree key h' xs"
proof -
  obtain h1 where h1: "SPLAY_MIN h = ret (if xs = [] then NULL else Elem (hd xs), h1)" "splay_tree key h1 ([] @ xs)"
    using min_max_return(1) [OF assms(2)] by auto
  have "(if xs = [] then NULL else Elem (hd xs)) = first xs" by (cases xs) (simp_all add: first_def)
  then show ?thesis using h1(1) foreach_visits [OF assms(1) h1(2), of "[]"] by (auto simp: SPLAY_FOREACH_def)
qed

theorem SPLAY_FOREACH_visits_in_order_witness:
  "\<exists>h'. SPLAY_FOREACH address_cmp three_nodes = ret (map Elem [1, 3, 5], h') \<and> splay_tree (\<lambda>a. a) h' [1, 3, 5]"
  by (rule SPLAY_FOREACH_visits_in_order [OF address_cmp_orders three_nodes_tree])

text \<open>The loop of the minimum and maximum search never ends when its argument is zero, whatever the tree.\<close>

theorem SPLAY_MINMAX_zero_diverges: "SPLAY_MINMAX 0 h = None"
proof -
  have "cv \<noteq> 0" if "minmax_loop cv h lp rp = Some y" for cv h lp rp y
    by (rule minmax_loop.raw_induct [where P = "\<lambda>cv h lp rp y. cv \<noteq> 0", OF _ that], rule notI, simp, blast)
  then have "minmax_loop 0 h' Local Local = None" for h' by (cases "minmax_loop 0 h' Local Local") blast+
  then show ?thesis by (simp add: SPLAY_MINMAX_def set_left_def set_right_def)
qed

end
