(* ===== verification/Tree_RB.thy ===== *)
theory Tree_RB
  imports Heap_Loops
begin

text \<open>
  The red-black trees of \<open>include/tree.h\<close>, macro by macro, on a heap of left, right and parent pointers
  and colours. \<open>RB_AUGMENT\<close> is the empty macro the header defines.
\<close>

section \<open>Nodes and the head\<close>

record rb_heap =
  rbe_left :: "ptr \<Rightarrow> ptr"
  rbe_right :: "ptr \<Rightarrow> ptr"
  rbe_parent :: "ptr \<Rightarrow> ptr"
  rbe_color :: "ptr \<Rightarrow> int"
  rbh_root :: ptr

definition RB_BLACK :: int where "RB_BLACK = 0"
definition RB_RED :: int where "RB_RED = 1"

definition RB_INIT :: "rb_heap \<Rightarrow> rb_heap" where
  "RB_INIT h = h\<lparr>rbh_root := NULL\<rparr>"

definition RB_LEFT :: "rb_heap \<Rightarrow> ptr \<Rightarrow> ptr result" where
  "RB_LEFT h p = (if p = NULL then Inl Null_Pointer else Inr (rbe_left h p))"

definition RB_RIGHT :: "rb_heap \<Rightarrow> ptr \<Rightarrow> ptr result" where
  "RB_RIGHT h p = (if p = NULL then Inl Null_Pointer else Inr (rbe_right h p))"

definition RB_PARENT :: "rb_heap \<Rightarrow> ptr \<Rightarrow> ptr result" where
  "RB_PARENT h p = (if p = NULL then Inl Null_Pointer else Inr (rbe_parent h p))"

definition RB_COLOR :: "rb_heap \<Rightarrow> ptr \<Rightarrow> int result" where
  "RB_COLOR h p = (if p = NULL then Inl Null_Pointer else Inr (rbe_color h p))"

definition RB_ROOT :: "rb_heap \<Rightarrow> ptr" where
  "RB_ROOT h = rbh_root h"

definition RB_EMPTY :: "rb_heap \<Rightarrow> bool" where
  "RB_EMPTY h \<longleftrightarrow> RB_ROOT h = NULL"

text \<open>The same macros on the left of an assignment.\<close>

definition to_left :: "ptr \<Rightarrow> ptr \<Rightarrow> rb_heap \<Rightarrow> rb_heap result" where
  "to_left p v h = (if p = NULL then Inl Null_Pointer else Inr (h\<lparr>rbe_left := (rbe_left h)(p := v)\<rparr>))"

definition to_right :: "ptr \<Rightarrow> ptr \<Rightarrow> rb_heap \<Rightarrow> rb_heap result" where
  "to_right p v h = (if p = NULL then Inl Null_Pointer else Inr (h\<lparr>rbe_right := (rbe_right h)(p := v)\<rparr>))"

definition to_parent :: "ptr \<Rightarrow> ptr \<Rightarrow> rb_heap \<Rightarrow> rb_heap result" where
  "to_parent p v h = (if p = NULL then Inl Null_Pointer else Inr (h\<lparr>rbe_parent := (rbe_parent h)(p := v)\<rparr>))"

definition to_color :: "ptr \<Rightarrow> int \<Rightarrow> rb_heap \<Rightarrow> rb_heap result" where
  "to_color p v h = (if p = NULL then Inl Null_Pointer else Inr (h\<lparr>rbe_color := (rbe_color h)(p := v)\<rparr>))"

definition to_root :: "ptr \<Rightarrow> rb_heap \<Rightarrow> rb_heap result" where
  "to_root v h = Inr (h\<lparr>rbh_root := v\<rparr>)"

definition RB_SET :: "ptr \<Rightarrow> ptr \<Rightarrow> rb_heap \<Rightarrow> rb_heap result" where
  "RB_SET elm parent h =
     chain (to_parent elm parent h) (\<lambda>h1.
     chain (to_right elm NULL h1) (\<lambda>h2.
     chain (to_left elm NULL h2) (\<lambda>h3.
     to_color elm RB_RED h3)))"

definition RB_SET_BLACKRED :: "ptr \<Rightarrow> ptr \<Rightarrow> rb_heap \<Rightarrow> rb_heap result" where
  "RB_SET_BLACKRED black red h = chain (to_color black RB_BLACK h) (to_color red RB_RED)"

text \<open>The rotations return \<open>tmp\<close> too, which they set.\<close>

definition RB_ROTATE_LEFT :: "ptr \<Rightarrow> rb_heap \<Rightarrow> (ptr \<times> rb_heap) result" where
  "RB_ROTATE_LEFT elm h =
     chain (RB_RIGHT h elm) (\<lambda>tmp.
     chain (RB_LEFT h tmp) (\<lambda>b.
     chain (to_right elm b h) (\<lambda>h1.
     chain (if b \<noteq> NULL then chain (RB_LEFT h1 tmp) (\<lambda>c. to_parent c elm h1) else Inr h1) (\<lambda>h2.
     chain (RB_PARENT h2 elm) (\<lambda>q.
     chain (to_parent tmp q h2) (\<lambda>h3.
     chain (if q \<noteq> NULL
            then chain (RB_PARENT h3 elm) (\<lambda>par. chain (RB_LEFT h3 par) (\<lambda>l.
                   if elm = l then to_left par tmp h3 else to_right par tmp h3))
            else to_root tmp h3) (\<lambda>h4.
     chain (to_left tmp elm h4) (\<lambda>h5.
     chain (to_parent elm tmp h5) (\<lambda>h6.
     Inr (tmp, h6))))))))))"

definition RB_ROTATE_RIGHT :: "ptr \<Rightarrow> rb_heap \<Rightarrow> (ptr \<times> rb_heap) result" where
  "RB_ROTATE_RIGHT elm h =
     chain (RB_LEFT h elm) (\<lambda>tmp.
     chain (RB_RIGHT h tmp) (\<lambda>b.
     chain (to_left elm b h) (\<lambda>h1.
     chain (if b \<noteq> NULL then chain (RB_RIGHT h1 tmp) (\<lambda>c. to_parent c elm h1) else Inr h1) (\<lambda>h2.
     chain (RB_PARENT h2 elm) (\<lambda>q.
     chain (to_parent tmp q h2) (\<lambda>h3.
     chain (if q \<noteq> NULL
            then chain (RB_PARENT h3 elm) (\<lambda>par. chain (RB_LEFT h3 par) (\<lambda>l.
                   if elm = l then to_left par tmp h3 else to_right par tmp h3))
            else to_root tmp h3) (\<lambda>h4.
     chain (to_right tmp elm h4) (\<lambda>h5.
     chain (to_parent elm tmp h5) (\<lambda>h6.
     Inr (tmp, h6))))))))))"

section \<open>Recolouring after an insertion\<close>

text \<open>The test both recolouring loops make on a sibling: is there a node, and has it this colour.\<close>

definition is_red :: "rb_heap \<Rightarrow> ptr \<Rightarrow> bool" where
  "is_red h p \<longleftrightarrow> p \<noteq> NULL \<and> rbe_color h p = RB_RED"

definition none_or_black :: "rb_heap \<Rightarrow> ptr \<Rightarrow> bool" where
  "none_or_black h p \<longleftrightarrow> p = NULL \<or> rbe_color h p = RB_BLACK"

text \<open>One turn of the loop below a left parent, and below a right one; the result is the new \<open>elm\<close>.\<close>

definition insert_color_left :: "ptr \<Rightarrow> ptr \<Rightarrow> ptr \<Rightarrow> rb_heap \<Rightarrow> (ptr \<times> rb_heap) result" where
  "insert_color_left elm parent gparent h =
     chain (RB_RIGHT h gparent) (\<lambda>tmp.
     if is_red h tmp then
       chain (to_color tmp RB_BLACK h) (\<lambda>h1.
       chain (RB_SET_BLACKRED parent gparent h1) (\<lambda>h2.
       Inr (gparent, h2)))
     else
       chain (RB_RIGHT h parent) (\<lambda>r.
       chain (if r = elm then chain (RB_ROTATE_LEFT parent h) (\<lambda>(_, h1). Inr (parent, elm, h1))
              else Inr (elm, parent, h)) (\<lambda>(elm', parent', h1).
       chain (RB_SET_BLACKRED parent' gparent h1) (\<lambda>h2.
       chain (RB_ROTATE_RIGHT gparent h2) (\<lambda>(_, h3).
       Inr (elm', h3))))))"

definition insert_color_right :: "ptr \<Rightarrow> ptr \<Rightarrow> ptr \<Rightarrow> rb_heap \<Rightarrow> (ptr \<times> rb_heap) result" where
  "insert_color_right elm parent gparent h =
     chain (RB_LEFT h gparent) (\<lambda>tmp.
     if is_red h tmp then
       chain (to_color tmp RB_BLACK h) (\<lambda>h1.
       chain (RB_SET_BLACKRED parent gparent h1) (\<lambda>h2.
       Inr (gparent, h2)))
     else
       chain (RB_LEFT h parent) (\<lambda>l.
       chain (if l = elm then chain (RB_ROTATE_RIGHT parent h) (\<lambda>(_, h1). Inr (parent, elm, h1))
              else Inr (elm, parent, h)) (\<lambda>(elm', parent', h1).
       chain (RB_SET_BLACKRED parent' gparent h1) (\<lambda>h2.
       chain (RB_ROTATE_LEFT gparent h2) (\<lambda>(_, h3).
       Inr (elm', h3))))))"

partial_function (option) insert_color_loop :: "ptr \<Rightarrow> rb_heap \<Rightarrow> rb_heap run" where
  "insert_color_loop elm h =
     run (RB_PARENT h elm) (\<lambda>parent.
     if is_red h parent then
       run (RB_PARENT h parent) (\<lambda>gparent.
       run (RB_LEFT h gparent) (\<lambda>l.
       run (if parent = l then insert_color_left elm parent gparent h else insert_color_right elm parent gparent h) (\<lambda>nx.
       insert_color_loop (fst nx) (snd nx))))
     else ret h)"

definition RB_INSERT_COLOR :: "ptr \<Rightarrow> rb_heap \<Rightarrow> rb_heap run" where
  "RB_INSERT_COLOR elm h =
     run_then (insert_color_loop elm h) (\<lambda>h1. run (to_color (rbh_root h1) RB_BLACK h1) ret)"

section \<open>Recolouring after a removal\<close>

text \<open>The last steps, on the side of the sibling \<open>tmp\<close>: they end the loop with \<open>elm\<close> the root. The child
  of the sibling away from \<open>elm\<close> is red, or a rotation makes it so.\<close>

definition remove_color_left_last :: "ptr \<Rightarrow> ptr \<Rightarrow> rb_heap \<Rightarrow> rb_heap result" where
  "remove_color_left_last parent tmp h =
     chain (RB_COLOR h parent) (\<lambda>cp.
     chain (to_color tmp cp h) (\<lambda>h1.
     chain (to_color parent RB_BLACK h1) (\<lambda>h2.
     chain (RB_RIGHT h2 tmp) (\<lambda>r.
     chain (if r \<noteq> NULL then to_color r RB_BLACK h2 else Inr h2) (\<lambda>h3.
     chain (RB_ROTATE_LEFT parent h3) (\<lambda>(_, h4).
     Inr h4))))))"

definition remove_color_left_end :: "ptr \<Rightarrow> ptr \<Rightarrow> rb_heap \<Rightarrow> rb_heap result" where
  "remove_color_left_end parent tmp h =
     chain (RB_RIGHT h tmp) (\<lambda>r.
     if none_or_black h r then
       chain (RB_LEFT h tmp) (\<lambda>oleft.
       chain (if oleft \<noteq> NULL then to_color oleft RB_BLACK h else Inr h) (\<lambda>h1.
       chain (to_color tmp RB_RED h1) (\<lambda>h2.
       chain (RB_ROTATE_RIGHT tmp h2) (\<lambda>(_, h3).
       chain (RB_RIGHT h3 parent) (\<lambda>tmp'.
       remove_color_left_last parent tmp' h3)))))
     else remove_color_left_last parent tmp h)"

definition remove_color_right_last :: "ptr \<Rightarrow> ptr \<Rightarrow> rb_heap \<Rightarrow> rb_heap result" where
  "remove_color_right_last parent tmp h =
     chain (RB_COLOR h parent) (\<lambda>cp.
     chain (to_color tmp cp h) (\<lambda>h1.
     chain (to_color parent RB_BLACK h1) (\<lambda>h2.
     chain (RB_LEFT h2 tmp) (\<lambda>l.
     chain (if l \<noteq> NULL then to_color l RB_BLACK h2 else Inr h2) (\<lambda>h3.
     chain (RB_ROTATE_RIGHT parent h3) (\<lambda>(_, h4).
     Inr h4))))))"

definition remove_color_right_end :: "ptr \<Rightarrow> ptr \<Rightarrow> rb_heap \<Rightarrow> rb_heap result" where
  "remove_color_right_end parent tmp h =
     chain (RB_LEFT h tmp) (\<lambda>l.
     if none_or_black h l then
       chain (RB_RIGHT h tmp) (\<lambda>oright.
       chain (if oright \<noteq> NULL then to_color oright RB_BLACK h else Inr h) (\<lambda>h1.
       chain (to_color tmp RB_RED h1) (\<lambda>h2.
       chain (RB_ROTATE_LEFT tmp h2) (\<lambda>(_, h3).
       chain (RB_LEFT h3 parent) (\<lambda>tmp'.
       remove_color_right_last parent tmp' h3)))))
     else remove_color_right_last parent tmp h)"

text \<open>One turn: the sibling, made black, and either the loop goes on one level up with the new parent and
  \<open>elm\<close>, or it is over (\<open>None\<close>).\<close>

definition remove_color_left_black :: "ptr \<Rightarrow> ptr \<Rightarrow> rb_heap \<Rightarrow> ((ptr \<times> ptr) option \<times> rb_heap) result" where
  "remove_color_left_black parent tmp h =
     chain (RB_LEFT h tmp) (\<lambda>l.
     chain (RB_RIGHT h tmp) (\<lambda>r.
     if none_or_black h l \<and> none_or_black h r then
       chain (to_color tmp RB_RED h) (\<lambda>h1.
       chain (RB_PARENT h1 parent) (\<lambda>par.
       Inr (Some (par, parent), h1)))
     else chain (remove_color_left_end parent tmp h) (\<lambda>h1. Inr (None, h1))))"

definition remove_color_left :: "ptr \<Rightarrow> rb_heap \<Rightarrow> ((ptr \<times> ptr) option \<times> rb_heap) result" where
  "remove_color_left parent h =
     chain (RB_RIGHT h parent) (\<lambda>tmp.
     chain (RB_COLOR h tmp) (\<lambda>c.
     if c = RB_RED then
       chain (RB_SET_BLACKRED tmp parent h) (\<lambda>h1.
       chain (RB_ROTATE_LEFT parent h1) (\<lambda>(_, h2).
       chain (RB_RIGHT h2 parent) (\<lambda>tmp'.
       remove_color_left_black parent tmp' h2)))
     else remove_color_left_black parent tmp h))"

definition remove_color_right_black :: "ptr \<Rightarrow> ptr \<Rightarrow> rb_heap \<Rightarrow> ((ptr \<times> ptr) option \<times> rb_heap) result" where
  "remove_color_right_black parent tmp h =
     chain (RB_LEFT h tmp) (\<lambda>l.
     chain (RB_RIGHT h tmp) (\<lambda>r.
     if none_or_black h l \<and> none_or_black h r then
       chain (to_color tmp RB_RED h) (\<lambda>h1.
       chain (RB_PARENT h1 parent) (\<lambda>par.
       Inr (Some (par, parent), h1)))
     else chain (remove_color_right_end parent tmp h) (\<lambda>h1. Inr (None, h1))))"

definition remove_color_right :: "ptr \<Rightarrow> rb_heap \<Rightarrow> ((ptr \<times> ptr) option \<times> rb_heap) result" where
  "remove_color_right parent h =
     chain (RB_LEFT h parent) (\<lambda>tmp.
     chain (RB_COLOR h tmp) (\<lambda>c.
     if c = RB_RED then
       chain (RB_SET_BLACKRED tmp parent h) (\<lambda>h1.
       chain (RB_ROTATE_RIGHT parent h1) (\<lambda>(_, h2).
       chain (RB_LEFT h2 parent) (\<lambda>tmp'.
       remove_color_right_black parent tmp' h2)))
     else remove_color_right_black parent tmp h))"

partial_function (option) remove_color_loop :: "ptr \<Rightarrow> ptr \<Rightarrow> rb_heap \<Rightarrow> (ptr \<times> rb_heap) run" where
  "remove_color_loop parent elm h =
     (if none_or_black h elm \<and> elm \<noteq> RB_ROOT h then
       run (RB_LEFT h parent) (\<lambda>l.
       run (if l = elm then remove_color_left parent h else remove_color_right parent h) (\<lambda>nx.
       case fst nx of
         None \<Rightarrow> ret (RB_ROOT (snd nx), snd nx)
       | Some pe \<Rightarrow> remove_color_loop (fst pe) (snd pe) (snd nx)))
     else ret (elm, h))"

definition RB_REMOVE_COLOR :: "ptr \<Rightarrow> ptr \<Rightarrow> rb_heap \<Rightarrow> rb_heap run" where
  "RB_REMOVE_COLOR parent elm h =
     run_then (remove_color_loop parent elm h) (\<lambda>(e, h1).
     if e \<noteq> NULL then run (to_color e RB_BLACK h1) ret else ret h1)"

section \<open>Removing\<close>

text \<open>The subtree \<open>child\<close> takes the place of \<open>elm\<close> below \<open>parent\<close>.\<close>

definition unlink :: "ptr \<Rightarrow> ptr \<Rightarrow> ptr \<Rightarrow> rb_heap \<Rightarrow> rb_heap result" where
  "unlink elm parent child h =
     chain (if child \<noteq> NULL then to_parent child parent h else Inr h) (\<lambda>h1.
     if parent \<noteq> NULL then
       chain (RB_LEFT h1 parent) (\<lambda>l. if l = elm then to_left parent child h1 else to_right parent child h1)
     else to_root child h1)"

text \<open>\<open>elm\<close>, which has no left child any more, gets the links and the colour of \<open>old\<close>, and its neighbours
  point to it.\<close>

definition replace :: "ptr \<Rightarrow> ptr \<Rightarrow> rb_heap \<Rightarrow> rb_heap result" where
  "replace old elm h =
     chain (RB_LEFT h old) (\<lambda>l. chain (RB_RIGHT h old) (\<lambda>r. chain (RB_PARENT h old) (\<lambda>q. chain (RB_COLOR h old) (\<lambda>c.
     chain (to_left elm l h) (\<lambda>h1. chain (to_right elm r h1) (\<lambda>h2. chain (to_parent elm q h2) (\<lambda>h3. chain (to_color elm c h3) (\<lambda>h4.
     chain (RB_PARENT h4 old) (\<lambda>par.
     chain (if par \<noteq> NULL then
              chain (RB_LEFT h4 par) (\<lambda>l'. if l' = old then to_left par elm h4 else to_right par elm h4)
            else to_root elm h4) (\<lambda>h5.
     chain (RB_LEFT h5 old) (\<lambda>ol.
     chain (to_parent ol elm h5) (\<lambda>h6.
     chain (RB_RIGHT h6 old) (\<lambda>nr.
     if nr \<noteq> NULL then to_parent nr elm h6 else Inr h6)))))))))))))"

partial_function (option) down_left :: "rb_heap \<Rightarrow> ptr \<Rightarrow> ptr run" where
  "down_left h elm = run (RB_LEFT h elm) (\<lambda>l. if l = NULL then ret elm else down_left h l)"

text \<open>The successor of a node with two children takes its place. The walk up that only calls
  \<open>RB_AUGMENT\<close> is kept: it ends because parents do.\<close>

partial_function (option) augment_up :: "rb_heap \<Rightarrow> ptr \<Rightarrow> unit run" where
  "augment_up h p = run (RB_PARENT h p) (\<lambda>q. if q = NULL then ret () else augment_up h q)"

text \<open>\<open>parent\<close>, \<open>child\<close> and \<open>color\<close> as the label \<open>color:\<close> finds them.\<close>

definition take_out_successor :: "ptr \<Rightarrow> ptr \<Rightarrow> rb_heap \<Rightarrow> (ptr \<times> ptr \<times> int \<times> rb_heap) run" where
  "take_out_successor old elm h =
     run (RB_RIGHT h elm) (\<lambda>child.
     run (RB_PARENT h elm) (\<lambda>parent.
     run (RB_COLOR h elm) (\<lambda>color.
     run (unlink elm parent child h) (\<lambda>h1.
     run (RB_PARENT h1 elm) (\<lambda>q.
     let parent' = (if q = old then elm else parent) in
     run (replace old elm h1) (\<lambda>h2.
     if parent' \<noteq> NULL then run_then (augment_up h2 parent') (\<lambda>_. ret (parent', child, color, h2))
     else ret (parent', child, color, h2)))))))"

definition take_out :: "ptr \<Rightarrow> ptr \<Rightarrow> rb_heap \<Rightarrow> (ptr \<times> ptr \<times> int \<times> rb_heap) run" where
  "take_out elm child h =
     run (RB_PARENT h elm) (\<lambda>parent.
     run (RB_COLOR h elm) (\<lambda>color.
     run (unlink elm parent child h) (\<lambda>h1.
     ret (parent, child, color, h1))))"

definition RB_REMOVE :: "ptr \<Rightarrow> rb_heap \<Rightarrow> (ptr \<times> rb_heap) run" where
  "RB_REMOVE elm h =
     run (RB_LEFT h elm) (\<lambda>l.
     run (RB_RIGHT h elm) (\<lambda>r.
     run_then (if l = NULL then take_out elm r h
               else if r = NULL then take_out elm l h
               else run_then (down_left h r) (\<lambda>s. take_out_successor elm s h))
       (\<lambda>(parent, child, color, h1).
     if color = RB_BLACK then run_then (RB_REMOVE_COLOR parent child h1) (\<lambda>h2. ret (elm, h2))
     else ret (elm, h1))))"

section \<open>Inserting and finding\<close>

text \<open>The way down: the node that equals \<open>elm\<close>, or the parent a new node gets and the last comparison.\<close>

partial_function (option) rb_descend :: "(nat \<Rightarrow> int) \<Rightarrow> rb_heap \<Rightarrow> ptr \<Rightarrow> ptr \<Rightarrow> int \<Rightarrow> (ptr \<times> ptr \<times> int) run" where
  "rb_descend c h tmp parent lastc =
     (if tmp = NULL then ret (NULL, parent, lastc)
      else run (cmp_at c tmp) (\<lambda>cv.
        if cv < 0 then run (RB_LEFT h tmp) (\<lambda>l. rb_descend c h l tmp cv)
        else if 0 < cv then run (RB_RIGHT h tmp) (\<lambda>r. rb_descend c h r tmp cv)
        else ret (tmp, tmp, cv)))"

definition RB_INSERT :: "(nat \<Rightarrow> nat \<Rightarrow> int) \<Rightarrow> nat \<Rightarrow> rb_heap \<Rightarrow> (ptr \<times> rb_heap) run" where
  "RB_INSERT cmp elm h =
     run_then (rb_descend (cmp elm) h (RB_ROOT h) NULL 0) (\<lambda>(tmp, parent, cv).
     if tmp \<noteq> NULL then ret (tmp, h)
     else
       run (RB_SET (Elem elm) parent h) (\<lambda>h1.
       run (if parent \<noteq> NULL then
              if cv < 0 then to_left parent (Elem elm) h1 else to_right parent (Elem elm) h1
            else to_root (Elem elm) h1) (\<lambda>h2.
       run_then (RB_INSERT_COLOR (Elem elm) h2) (\<lambda>h3. ret (NULL, h3)))))"

partial_function (option) rb_find_loop :: "(nat \<Rightarrow> int) \<Rightarrow> rb_heap \<Rightarrow> ptr \<Rightarrow> ptr run" where
  "rb_find_loop c h tmp =
     (if tmp = NULL then ret NULL
      else run (cmp_at c tmp) (\<lambda>cv.
        if cv < 0 then run (RB_LEFT h tmp) (rb_find_loop c h)
        else if 0 < cv then run (RB_RIGHT h tmp) (rb_find_loop c h)
        else ret tmp))"

definition RB_FIND :: "(nat \<Rightarrow> nat \<Rightarrow> int) \<Rightarrow> nat \<Rightarrow> rb_heap \<Rightarrow> ptr run" where
  "RB_FIND cmp elm h = rb_find_loop (cmp elm) h (RB_ROOT h)"

section \<open>Walking\<close>

partial_function (option) up_right :: "rb_heap \<Rightarrow> ptr \<Rightarrow> ptr run" where
  "up_right h elm =
     run (RB_PARENT h elm) (\<lambda>q.
     if q = NULL then ret NULL
     else run (RB_RIGHT h q) (\<lambda>r. if elm = r then up_right h q else ret q))"

definition RB_NEXT :: "ptr \<Rightarrow> rb_heap \<Rightarrow> ptr run" where
  "RB_NEXT elm h =
     run (RB_RIGHT h elm) (\<lambda>r.
     if r \<noteq> NULL then down_left h r
     else
       run (RB_PARENT h elm) (\<lambda>q.
       if q = NULL then up_right h elm
       else run (RB_LEFT h q) (\<lambda>l. if elm = l then ret q else up_right h elm)))"

partial_function (option) rb_minmax_loop :: "int \<Rightarrow> rb_heap \<Rightarrow> ptr \<Rightarrow> ptr \<Rightarrow> ptr run" where
  "rb_minmax_loop val h tmp parent =
     (if tmp = NULL then ret parent
      else if val < 0 then run (RB_LEFT h tmp) (\<lambda>l. rb_minmax_loop val h l tmp)
      else run (RB_RIGHT h tmp) (\<lambda>r. rb_minmax_loop val h r tmp))"

definition RB_MINMAX :: "int \<Rightarrow> rb_heap \<Rightarrow> ptr run" where
  "RB_MINMAX val h = rb_minmax_loop val h (RB_ROOT h) NULL"

definition RB_NEGINF :: int where "RB_NEGINF = - 1"
definition RB_INF :: int where "RB_INF = 1"

definition RB_MIN :: "rb_heap \<Rightarrow> ptr run" where
  "RB_MIN h = RB_MINMAX RB_NEGINF h"

definition RB_MAX :: "rb_heap \<Rightarrow> ptr run" where
  "RB_MAX h = RB_MINMAX RB_INF h"

text \<open>\<open>RB_FOREACH\<close>: the elements its body sees, in order.\<close>

partial_function (option) rb_foreach_from :: "ptr \<Rightarrow> rb_heap \<Rightarrow> ptr list \<Rightarrow> ptr list run" where
  "rb_foreach_from x h seen =
     (if x = NULL then ret seen
      else case RB_NEXT x h of None \<Rightarrow> None | Some m \<Rightarrow> run m (\<lambda>nx. rb_foreach_from nx h (seen @ [x])))"

definition RB_FOREACH :: "rb_heap \<Rightarrow> ptr list run" where
  "RB_FOREACH h = run_then (RB_MIN h) (\<lambda>x. rb_foreach_from x h [])"

end
