(* ===== verification/RB_Zip.thy ===== *)
theory RB_Zip
  imports Tree_RB
begin

text \<open>
  Red-black trees in the heap. A tree in focus and the path from it to the root describe a heap; the macros
  that write into the heap (rotations, colours, the replacement of a node by another or by its subtree)
  become changes of the tree in focus, which is all the later proofs use.
\<close>

section \<open>Trees and paths\<close>

text \<open>A node carries its address and its colour.\<close>

type_synonym rbtree = "(nat \<times> int) tree"

fun ptr_of :: "rbtree \<Rightarrow> ptr" where
  "ptr_of Leaf = NULL"
| "ptr_of (Node l (a, c) r) = Elem a"

fun rb_at :: "rb_heap \<Rightarrow> ptr \<Rightarrow> rbtree \<Rightarrow> bool" where
  "rb_at h q Leaf = True"
| "rb_at h q (Node l (a, c) r) =
     (rbe_parent h (Elem a) = q \<and> rbe_color h (Elem a) = c \<and>
      rbe_left h (Elem a) = ptr_of l \<and> rbe_right h (Elem a) = ptr_of r \<and>
      rb_at h (Elem a) l \<and> rb_at h (Elem a) r)"

text \<open>The path, innermost step first: the focus is the left child of the node, or the right one.\<close>

datatype frame = In_Left "nat \<times> int" rbtree | In_Right rbtree "nat \<times> int"

fun plug :: "frame list \<Rightarrow> rbtree \<Rightarrow> rbtree" where
  "plug [] t = t"
| "plug (In_Left n r # k) t = plug k (Node t n r)"
| "plug (In_Right l n # k) t = plug k (Node l n t)"

fun up :: "frame list \<Rightarrow> ptr" where
  "up [] = NULL"
| "up (In_Left n r # k) = Elem (fst n)"
| "up (In_Right l n # k) = Elem (fst n)"

fun path_at :: "rb_heap \<Rightarrow> ptr \<Rightarrow> frame list \<Rightarrow> bool" where
  "path_at h p [] = (rbh_root h = p)"
| "path_at h p (In_Left (a, c) r # k) =
     (rbe_parent h (Elem a) = up k \<and> rbe_color h (Elem a) = c \<and>
      rbe_left h (Elem a) = p \<and> rbe_right h (Elem a) = ptr_of r \<and> rb_at h (Elem a) r \<and> path_at h (Elem a) k)"
| "path_at h p (In_Right l (a, c) # k) =
     (rbe_parent h (Elem a) = up k \<and> rbe_color h (Elem a) = c \<and>
      rbe_left h (Elem a) = ptr_of l \<and> rbe_right h (Elem a) = p \<and> rb_at h (Elem a) l \<and> path_at h (Elem a) k)"

lemma plug_at:
  "rbh_root h = ptr_of (plug k t) \<and> rb_at h NULL (plug k t) \<longleftrightarrow> path_at h (ptr_of t) k \<and> rb_at h (up k) t"
proof (induction k t rule: plug.induct)
  case (2 n r k t)
  then show ?case by (cases n) auto
next
  case (3 l n k t)
  then show ?case by (cases n) auto
qed simp

text \<open>The addresses of a tree in order, and those of a path left and right of the focus.\<close>

definition elems :: "rbtree \<Rightarrow> nat list" where
  "elems t = map fst (inorder t)"

lemma elems_simps [simp]: "elems Leaf = []" "elems (Node l n r) = elems l @ fst n # elems r"
  by (simp_all add: elems_def)

lemma elems_Nil [simp]: "elems t = [] \<longleftrightarrow> t = Leaf"
  by (cases t) simp_all

fun before :: "frame list \<Rightarrow> nat list" where
  "before [] = []"
| "before (In_Left n r # k) = before k"
| "before (In_Right l n # k) = before k @ elems l @ [fst n]"

fun after :: "frame list \<Rightarrow> nat list" where
  "after [] = []"
| "after (In_Left n r # k) = fst n # elems r @ after k"
| "after (In_Right l n # k) = after k"

lemma elems_plug [simp]: "elems (plug k t) = before k @ elems t @ after k"
  by (induction k t rule: plug.induct) simp_all

definition on_path :: "frame list \<Rightarrow> nat set" where
  "on_path k = set (before k) \<union> set (after k)"

lemma on_path_simps [simp]:
  "on_path [] = {}" "on_path (In_Left n r # k) = insert (fst n) (set (elems r) \<union> on_path k)"
  "on_path (In_Right l n # k) = insert (fst n) (set (elems l) \<union> on_path k)"
  by (auto simp: on_path_def)

lemma plug_append: "plug (k @ k') t = plug k' (plug k t)"
  by (induction k t rule: plug.induct) simp_all

lemma ptr_of_eq: "ptr_of t = (case t of Leaf \<Rightarrow> NULL | Node l n r \<Rightarrow> Elem (fst n))"
  by (cases t rule: ptr_of.cases) auto

lemma ptr_of_elem: "ptr_of t = Elem a \<Longrightarrow> a \<in> set (elems t)"
  by (cases t) (auto simp: ptr_of_eq)

lemma ptr_of_NULL [simp]: "ptr_of t = NULL \<longleftrightarrow> t = Leaf" "NULL = ptr_of t \<longleftrightarrow> t = Leaf"
  by (auto simp: ptr_of_eq split: tree.splits)

lemma up_NULL [simp]: "up k = NULL \<longleftrightarrow> k = []"
  by (cases k rule: up.cases) auto

section \<open>Frames\<close>

text \<open>Only the cells of its own nodes matter to a tree, and to a path.\<close>

definition cell :: "rb_heap \<Rightarrow> nat \<Rightarrow> ptr \<times> ptr \<times> ptr \<times> int" where
  "cell h a = (rbe_left h (Elem a), rbe_right h (Elem a), rbe_parent h (Elem a), rbe_color h (Elem a))"

lemma rb_at_cong: "(\<And>a. a \<in> set (elems t) \<Longrightarrow> cell h' a = cell h a) \<Longrightarrow> rb_at h' q t = rb_at h q t"
  by (induction h q t rule: rb_at.induct) (auto simp: cell_def)

lemma path_at_cong:
  "rbh_root h' = rbh_root h \<Longrightarrow> (\<And>a. a \<in> on_path k \<Longrightarrow> cell h' a = cell h a) \<Longrightarrow> path_at h' p k = path_at h p k"
proof (induction h p k rule: path_at.induct)
  case (2 h p a c r k)
  have "rb_at h' (Elem a) r = rb_at h (Elem a) r" by (rule rb_at_cong) (simp add: 2)
  moreover have "path_at h' (Elem a) k = path_at h (Elem a) k" by (rule 2) (simp_all add: 2)
  moreover have "cell h' a = cell h a" by (simp add: 2)
  ultimately show ?case by (auto simp: cell_def)
next
  case (3 h p l a c k)
  have "rb_at h' (Elem a) l = rb_at h (Elem a) l" by (rule rb_at_cong) (simp add: 3)
  moreover have "path_at h' (Elem a) k = path_at h (Elem a) k" by (rule 3) (simp_all add: 3)
  moreover have "cell h' a = cell h a" by (simp add: 3)
  ultimately show ?case by (auto simp: cell_def)
qed simp

text \<open>The root of a subtree gets another parent.\<close>

definition reparent :: "rbtree \<Rightarrow> ptr \<Rightarrow> rb_heap \<Rightarrow> rb_heap" where
  "reparent t q h = (if t = Leaf then h else h\<lparr>rbe_parent := (rbe_parent h)(ptr_of t := q)\<rparr>)"

lemma reparent_simps [simp]:
  "rbe_left (reparent t q h) = rbe_left h" "rbe_right (reparent t q h) = rbe_right h"
  "rbe_color (reparent t q h) = rbe_color h" "rbh_root (reparent t q h) = rbh_root h"
  "a \<notin> set (elems t) \<Longrightarrow> rbe_parent (reparent t q h) (Elem a) = rbe_parent h (Elem a)"
  by (auto simp: reparent_def dest: ptr_of_elem [OF sym])

lemma rb_at_reparent: "rb_at h q t \<Longrightarrow> distinct (elems t) \<Longrightarrow> rb_at (reparent t q' h) q' t"
proof (cases t rule: ptr_of.cases)
  case (2 l a c r)
  assume t: "rb_at h q t" "distinct (elems t)"
  have "rb_at (reparent t q' h) (Elem a) l = rb_at h (Elem a) l" "rb_at (reparent t q' h) (Elem a) r = rb_at h (Elem a) r"
    using t(2) by (auto intro!: rb_at_cong simp: 2 reparent_def cell_def)
  then show ?thesis using t(1) by (simp add: 2 reparent_def)
qed simp

text \<open>The pointer at the focus becomes another one.\<close>

fun relink :: "frame list \<Rightarrow> ptr \<Rightarrow> rb_heap \<Rightarrow> rb_heap" where
  "relink [] p h = h\<lparr>rbh_root := p\<rparr>"
| "relink (In_Left n r # k) p h = h\<lparr>rbe_left := (rbe_left h)(Elem (fst n) := p)\<rparr>"
| "relink (In_Right l n # k) p h = h\<lparr>rbe_right := (rbe_right h)(Elem (fst n) := p)\<rparr>"

lemma relink_simps [simp]:
  "rbe_parent (relink k p h) = rbe_parent h" "rbe_color (relink k p h) = rbe_color h"
  "a \<notin> on_path k \<Longrightarrow> rbe_left (relink k p h) (Elem a) = rbe_left h (Elem a)"
  "a \<notin> on_path k \<Longrightarrow> rbe_right (relink k p h) (Elem a) = rbe_right h (Elem a)"
  by (cases k rule: up.cases; auto)+

lemma path_at_relink: "path_at h q k \<Longrightarrow> distinct (before k @ after k) \<Longrightarrow> path_at (relink k p h) p k"
proof (cases k rule: up.cases)
  case (2 n r k')
  assume p: "path_at h q k" "distinct (before k @ after k)"
  obtain a c where n: "n = (a, c)" by (cases n)
  have "a \<notin> set (elems r)" "a \<notin> on_path k'" using p(2) by (auto simp: 2 n on_path_def)
  then have "rb_at (relink k p h) (Elem a) r = rb_at h (Elem a) r" "path_at (relink k p h) (Elem a) k' = path_at h (Elem a) k'"
    by (auto intro!: rb_at_cong path_at_cong simp: 2 n cell_def)
  then show ?thesis using p(1) by (simp add: 2 n)
next
  case (3 l n k')
  assume p: "path_at h q k" "distinct (before k @ after k)"
  obtain a c where n: "n = (a, c)" by (cases n)
  have "a \<notin> set (elems l)" "a \<notin> on_path k'" using p(2) by (auto simp: 3 n on_path_def)
  then have "rb_at (relink k p h) (Elem a) l = rb_at h (Elem a) l" "path_at (relink k p h) (Elem a) k' = path_at h (Elem a) k'"
    by (auto intro!: rb_at_cong path_at_cong simp: 3 n cell_def)
  then show ?thesis using p(1) by (simp add: 3 n)
qed simp

text \<open>How the macros write it: they ask the parent whether the focus is its left child.\<close>

lemma relink_code:
  assumes "path_at h (Elem a) k" and "a \<notin> on_path k"
  shows "(if up k = NULL then to_root v h
    else chain (RB_LEFT h (up k)) (\<lambda>l. if l = Elem a then to_left (up k) v h else to_right (up k) v h)) = Inr (relink k v h)"
proof (cases k rule: up.cases)
  case 1
  then show ?thesis by (simp add: to_root_def)
next
  case (2 n r k')
  then show ?thesis using assms by (cases n) (simp add: RB_LEFT_def to_left_def)
next
  case (3 l n k')
  have "ptr_of l \<noteq> Elem a" using assms(2) ptr_of_elem [of l a] by (auto simp: 3)
  then show ?thesis using assms(1) by (cases n) (simp add: 3 RB_LEFT_def to_right_def)
qed

section \<open>The heap holds a tree\<close>

text \<open>\<open>h0\<close> is the heap an operation started from: outside the set \<open>N\<close>, which has the nodes of the tree,
  nothing has changed since.\<close>

definition links :: "rb_heap \<Rightarrow> ptr \<Rightarrow> ptr \<times> ptr \<times> ptr \<times> int" where
  "links h p = (rbe_left h p, rbe_right h p, rbe_parent h p, rbe_color h p)"

definition holds :: "rb_heap \<Rightarrow> nat set \<Rightarrow> rb_heap \<Rightarrow> rbtree \<Rightarrow> bool" where
  "holds h0 N h t \<longleftrightarrow> rbh_root h = ptr_of t \<and> rb_at h NULL t \<and> distinct (elems t) \<and> set (elems t) \<subseteq> N \<and>
     (\<forall>p. p \<notin> Elem ` N \<longrightarrow> links h p = links h0 p)"

lemma holds_focus:
  "holds h0 N h (plug k t) \<longleftrightarrow> path_at h (ptr_of t) k \<and> rb_at h (up k) t \<and> distinct (before k @ elems t @ after k) \<and>
     on_path k \<union> set (elems t) \<subseteq> N \<and> (\<forall>p. p \<notin> Elem ` N \<longrightarrow> links h p = links h0 p)"
  using plug_at [of h k t] by (auto simp: holds_def on_path_def)

lemma holds_reads:
  assumes "holds h0 N h (plug k (Node l (a, c) r))"
  shows "RB_LEFT h (Elem a) = Inr (ptr_of l)" and "RB_RIGHT h (Elem a) = Inr (ptr_of r)"
    and "RB_PARENT h (Elem a) = Inr (up k)" and "RB_COLOR h (Elem a) = Inr c" and "rbe_color h (Elem a) = c"
  using assms by (simp_all add: holds_focus RB_LEFT_def RB_RIGHT_def RB_PARENT_def RB_COLOR_def)

lemma holds_root: "holds h0 N h t \<Longrightarrow> rbh_root h = ptr_of t"
  by (simp add: holds_def)

text \<open>The colour of a node in focus.\<close>

lemma to_color_focus:
  assumes "holds h0 N h (plug k (Node l (a, c) r))"
  shows "\<exists>h'. to_color (Elem a) v h = Inr h' \<and> holds h0 N h' (plug k (Node l (a, v) r))"
proof -
  let ?h = "h\<lparr>rbe_color := (rbe_color h)(Elem a := v)\<rparr>"
  have d: "distinct (before k @ (elems l @ a # elems r) @ after k)" and N: "a \<in> N"
    using assms by (simp_all add: holds_focus)
  have "path_at ?h (Elem a) k = path_at h (Elem a) k" by (rule path_at_cong) (use d in \<open>auto simp: cell_def on_path_def\<close>)
  moreover have "rb_at ?h (Elem a) l = rb_at h (Elem a) l" "rb_at ?h (Elem a) r = rb_at h (Elem a) r"
    by (rule rb_at_cong; use d in \<open>auto simp: cell_def\<close>)+
  ultimately have "holds h0 N ?h (plug k (Node l (a, v) r))"
    using assms N by (auto simp: holds_focus links_def)
  then show ?thesis by (simp add: to_color_def)
qed

lemma relink_outside:
  "p \<notin> Elem ` on_path k \<Longrightarrow> links (relink k q h) p = links h p"
  by (cases k rule: up.cases) (auto simp: links_def)

lemma reparent_outside: "p \<notin> Elem ` set (elems t) \<Longrightarrow> links (reparent t q h) p = links h p"
  by (cases t rule: ptr_of.cases) (auto simp: links_def reparent_def)

section \<open>Left and right exchanged\<close>

definition turned :: "rb_heap \<Rightarrow> rb_heap" where
  "turned h = h\<lparr>rbe_left := rbe_right h, rbe_right := rbe_left h\<rparr>"

fun turned_frame :: "frame \<Rightarrow> frame" where
  "turned_frame (In_Left n r) = In_Right (mirror r) n"
| "turned_frame (In_Right l n) = In_Left n (mirror l)"

lemma turned_simps [simp]:
  "rbe_left (turned h) = rbe_right h" "rbe_right (turned h) = rbe_left h" "rbe_parent (turned h) = rbe_parent h"
  "rbe_color (turned h) = rbe_color h" "rbh_root (turned h) = rbh_root h"
  by (simp_all add: turned_def)

lemma mirror_simps [simp]: "ptr_of (mirror t) = ptr_of t" "elems (mirror t) = rev (elems t)"
  by (simp add: ptr_of_eq split: tree.splits) (simp add: elems_def inorder_mirror rev_map)

lemma turned_path [simp]:
  "up (map turned_frame k) = up k" "before (map turned_frame k) = rev (after k)" "after (map turned_frame k) = rev (before k)"
  "on_path (map turned_frame k) = on_path k"
proof -
  show "up (map turned_frame k) = up k" by (cases k rule: up.cases) simp_all
  show ba: "before (map turned_frame k) = rev (after k)" "after (map turned_frame k) = rev (before k)"
    by (induction k rule: before.induct) simp_all
  show "on_path (map turned_frame k) = on_path k" by (auto simp: on_path_def ba)
qed

lemma rb_at_turned: "rb_at (turned h) q (mirror t) \<longleftrightarrow> rb_at h q t"
  by (induction h q t rule: rb_at.induct) auto

lemma path_at_turned: "path_at (turned h) p (map turned_frame k) \<longleftrightarrow> path_at h p k"
  by (induction h p k rule: path_at.induct) (auto simp: rb_at_turned)

lemma plug_turned: "plug (map turned_frame k) (mirror t) = mirror (plug k t)"
  by (induction k t rule: plug.induct) simp_all

lemma holds_turned: "holds (turned h0) N (turned h) (mirror t) \<longleftrightarrow> holds h0 N h t"
  by (auto simp: holds_def rb_at_turned links_def)

lemma turned_writes:
  "relink (map turned_frame k) p (turned h) = turned (relink k p h)" "reparent (mirror t) q (turned h) = turned (reparent t q h)"
  by (cases k rule: up.cases; simp add: turned_def) (cases t rule: ptr_of.cases; simp add: turned_def reparent_def)

section \<open>Rotations\<close>

text \<open>The heap after a rotation of \<open>a\<close> and its child \<open>b\<close>, whose inner subtree is \<open>y\<close>; first before the pointer from above
  is set.\<close>

definition rotating_left :: "frame list \<Rightarrow> nat \<Rightarrow> nat \<Rightarrow> rbtree \<Rightarrow> rb_heap \<Rightarrow> rb_heap" where
  "rotating_left k a b y h =
     (let h2 = reparent y (Elem a) (h\<lparr>rbe_right := (rbe_right h)(Elem a := ptr_of y)\<rparr>)
      in h2\<lparr>rbe_parent := (rbe_parent h2)(Elem b := up k)\<rparr>)"

definition rotated_left :: "frame list \<Rightarrow> nat \<Rightarrow> nat \<Rightarrow> rbtree \<Rightarrow> rb_heap \<Rightarrow> rb_heap" where
  "rotated_left k a b y h =
     (let h4 = relink k (Elem b) (rotating_left k a b y h)
      in h4\<lparr>rbe_left := (rbe_left h4)(Elem b := Elem a), rbe_parent := (rbe_parent h4)(Elem a := Elem b)\<rparr>)"

definition rotating_right :: "frame list \<Rightarrow> nat \<Rightarrow> nat \<Rightarrow> rbtree \<Rightarrow> rb_heap \<Rightarrow> rb_heap" where
  "rotating_right k a b y h =
     (let h2 = reparent y (Elem a) (h\<lparr>rbe_left := (rbe_left h)(Elem a := ptr_of y)\<rparr>)
      in h2\<lparr>rbe_parent := (rbe_parent h2)(Elem b := up k)\<rparr>)"

definition rotated_right :: "frame list \<Rightarrow> nat \<Rightarrow> nat \<Rightarrow> rbtree \<Rightarrow> rb_heap \<Rightarrow> rb_heap" where
  "rotated_right k a b y h =
     (let h4 = relink k (Elem b) (rotating_right k a b y h)
      in h4\<lparr>rbe_right := (rbe_right h4)(Elem b := Elem a), rbe_parent := (rbe_parent h4)(Elem a := Elem b)\<rparr>)"

lemma rotating_right_turned: "rotating_left (map turned_frame k) a b (mirror y) (turned h) = turned (rotating_right k a b y h)"
  by (cases y rule: ptr_of.cases; simp add: rotating_left_def rotating_right_def reparent_def turned_def Let_def)

lemma rotated_right_turned: "rotated_left (map turned_frame k) a b (mirror y) (turned h) = turned (rotated_right k a b y h)"
  by (simp add: rotated_left_def rotated_right_def rotating_right_turned turned_writes Let_def)

lemma cell_rotating:
  "e \<noteq> a \<Longrightarrow> e \<noteq> b \<Longrightarrow> e \<notin> set (elems y) \<Longrightarrow> cell (rotating_left k a b y h) e = cell h e"
  by (simp add: cell_def rotating_left_def Let_def)

lemma cell_rotated:
  "e \<noteq> a \<Longrightarrow> e \<noteq> b \<Longrightarrow> e \<notin> on_path k \<Longrightarrow> cell (rotated_left k a b y h) e = cell (rotating_left k a b y h) e"
  by (simp add: cell_def rotated_left_def Let_def)

text \<open>The path is still there when the code asks the parent which child \<open>a\<close> is.\<close>

lemma path_rotating_left:
  assumes "holds h0 N h (plug k (Node x (a, c) (Node y (b, d) z)))"
  shows "path_at (rotating_left k a b y h) (Elem a) k"
proof -
  have ds: "distinct (before k @ (elems x @ a # elems y @ b # elems z) @ after k)" and path: "path_at h (Elem a) k"
    using assms by (simp_all add: holds_focus)
  have "rbh_root (rotating_left k a b y h) = rbh_root h" by (simp add: rotating_left_def Let_def)
  then have "path_at (rotating_left k a b y h) (Elem a) k = path_at h (Elem a) k"
    by (rule path_at_cong, intro cell_rotating) (use ds in \<open>auto simp: on_path_def\<close>)
  then show ?thesis using path by simp
qed

lemma path_rotating_right:
  assumes "holds h0 N h (plug k (Node (Node z (b, d) y) (a, c) x))"
  shows "path_at (rotating_right k a b y h) (Elem a) k"
  using path_rotating_left [of "turned h0" N "turned h" "map turned_frame k" "mirror x" a c "mirror y" b d "mirror z"] assms
    plug_turned [of k "Node (Node z (b, d) y) (a, c) x"] holds_turned [of h0 N h "plug k (Node (Node z (b, d) y) (a, c) x)"]
  by (simp add: rotating_right_turned path_at_turned)

lemma relink_rotating:
  assumes "path_at h (Elem a) k" and "a \<notin> on_path k"
  shows "(if up k \<noteq> NULL then chain (RB_LEFT h (up k)) (\<lambda>l. if Elem a = l then to_left (up k) v h else to_right (up k) v h)
    else to_root v h) = Inr (relink k v h)"
  using relink_code [OF assms, of v] by (cases "k = []") (simp_all add: eq_commute [of "Elem a"] cong: if_cong)

lemma rotate_left_code:
  assumes H: "holds h0 N h (plug k (Node x (a, c) (Node y (b, d) z)))"
  shows "RB_ROTATE_LEFT (Elem a) h = Inr (Elem b, rotated_left k a b y h)"
proof -
  let ?h1 = "h\<lparr>rbe_right := (rbe_right h)(Elem a := ptr_of y)\<rparr>"
  let ?h2 = "reparent y (Elem a) ?h1" and ?h3 = "rotating_left k a b y h"
  have tr: "rb_at h (up k) (Node x (a, c) (Node y (b, d) z))" and a: "a \<notin> set (elems y)" "a \<notin> on_path k" "a \<noteq> b"
    using H by (auto simp: holds_focus on_path_def)
  have "RB_RIGHT h (Elem a) = Inr (Elem b)" "RB_LEFT h (Elem b) = Inr (ptr_of y)"
    using tr by (simp_all add: RB_RIGHT_def RB_LEFT_def)
  moreover have "to_right (Elem a) (ptr_of y) h = Inr ?h1" by (simp add: to_right_def)
  moreover have "(if ptr_of y \<noteq> NULL then chain (RB_LEFT ?h1 (Elem b)) (\<lambda>c. to_parent c (Elem a) ?h1) else Inr ?h1) = Inr ?h2"
    using tr by (simp add: reparent_def RB_LEFT_def to_parent_def)
  moreover have "RB_PARENT ?h2 (Elem a) = Inr (up k)" using tr a by (simp add: RB_PARENT_def)
  moreover have "to_parent (Elem b) (up k) ?h2 = Inr ?h3" by (simp add: to_parent_def rotating_left_def Let_def)
  moreover have "RB_PARENT ?h3 (Elem a) = Inr (up k)" using tr a by (simp add: RB_PARENT_def rotating_left_def Let_def)
  moreover note relink_rotating [OF path_rotating_left [OF H] a(2), of "Elem b"]
  moreover have "chain (to_left (Elem b) (Elem a) (relink k (Elem b) ?h3)) (\<lambda>h5. chain (to_parent (Elem a) (Elem b) h5) (\<lambda>h6. Inr (Elem b, h6)))
      = Inr (Elem b, rotated_left k a b y h)" by (simp add: to_left_def to_parent_def rotated_left_def Let_def)
  ultimately show ?thesis unfolding RB_ROTATE_LEFT_def by (simp only: chain_simps)
qed

lemma rotate_right_code:
  assumes H: "holds h0 N h (plug k (Node (Node z (b, d) y) (a, c) x))"
  shows "RB_ROTATE_RIGHT (Elem a) h = Inr (Elem b, rotated_right k a b y h)"
proof -
  let ?h1 = "h\<lparr>rbe_left := (rbe_left h)(Elem a := ptr_of y)\<rparr>"
  let ?h2 = "reparent y (Elem a) ?h1" and ?h3 = "rotating_right k a b y h"
  have tr: "rb_at h (up k) (Node (Node z (b, d) y) (a, c) x)" and a: "a \<notin> set (elems y)" "a \<notin> on_path k" "a \<noteq> b"
    using H by (auto simp: holds_focus on_path_def)
  have "RB_LEFT h (Elem a) = Inr (Elem b)" "RB_RIGHT h (Elem b) = Inr (ptr_of y)"
    using tr by (simp_all add: RB_RIGHT_def RB_LEFT_def)
  moreover have "to_left (Elem a) (ptr_of y) h = Inr ?h1" by (simp add: to_left_def)
  moreover have "(if ptr_of y \<noteq> NULL then chain (RB_RIGHT ?h1 (Elem b)) (\<lambda>c. to_parent c (Elem a) ?h1) else Inr ?h1) = Inr ?h2"
    using tr by (simp add: reparent_def RB_RIGHT_def to_parent_def)
  moreover have "RB_PARENT ?h2 (Elem a) = Inr (up k)" using tr a by (simp add: RB_PARENT_def)
  moreover have "to_parent (Elem b) (up k) ?h2 = Inr ?h3" by (simp add: to_parent_def rotating_right_def Let_def)
  moreover have "RB_PARENT ?h3 (Elem a) = Inr (up k)" using tr a by (simp add: RB_PARENT_def rotating_right_def Let_def)
  moreover note relink_rotating [OF path_rotating_right [OF H] a(2), of "Elem b"]
  moreover have "chain (to_right (Elem b) (Elem a) (relink k (Elem b) ?h3)) (\<lambda>h5. chain (to_parent (Elem a) (Elem b) h5) (\<lambda>h6. Inr (Elem b, h6)))
      = Inr (Elem b, rotated_right k a b y h)" by (simp add: to_right_def to_parent_def rotated_right_def Let_def)
  ultimately show ?thesis unfolding RB_ROTATE_RIGHT_def by (simp only: chain_simps)
qed

text \<open>The tree after a left rotation; the right one is the same with the sides exchanged.\<close>

lemma rotated_outside:
  assumes "p \<notin> Elem ` (insert a (insert b (on_path k \<union> set (elems y))))"
  shows "links (rotated_left k a b y h) p = links h p"
proof -
  have "links (rotated_left k a b y h) p = links (relink k (Elem b) (rotating_left k a b y h)) p"
    using assms by (auto simp: links_def rotated_left_def Let_def)
  also have "\<dots> = links (rotating_left k a b y h) p" by (rule relink_outside) (use assms in auto)
  also have "\<dots> = links (reparent y (Elem a) (h\<lparr>rbe_right := (rbe_right h)(Elem a := ptr_of y)\<rparr>)) p"
    using assms by (auto simp: links_def rotating_left_def Let_def)
  also have "\<dots> = links (h\<lparr>rbe_right := (rbe_right h)(Elem a := ptr_of y)\<rparr>) p" by (rule reparent_outside) (use assms in auto)
  finally show ?thesis using assms by (auto simp: links_def)
qed

lemma rotated_inner:
  assumes H: "holds h0 N h (plug k (Node x (a, c) (Node y (b, d) z)))"
  shows "rb_at (rotated_left k a b y h) (Elem a) y"
proof -
  let ?h1 = "h\<lparr>rbe_right := (rbe_right h)(Elem a := ptr_of y)\<rparr>"
  have ds: "distinct (before k @ (elems x @ a # elems y @ b # elems z) @ after k)" using H by (simp add: holds_focus)
  have "rb_at ?h1 (Elem b) y = rb_at h (Elem b) y" by (rule rb_at_cong) (use ds in \<open>auto simp: cell_def\<close>)
  then have "rb_at (reparent y (Elem a) ?h1) (Elem a) y" using H ds by (intro rb_at_reparent) (auto simp: holds_focus)
  moreover have "rb_at (rotated_left k a b y h) (Elem a) y = rb_at (reparent y (Elem a) ?h1) (Elem a) y"
  proof (rule rb_at_cong)
    fix e assume "e \<in> set (elems y)"
    then have "e \<noteq> a" "e \<noteq> b" "e \<notin> on_path k" using ds by (auto simp: on_path_def)
    then show "cell (rotated_left k a b y h) e = cell (reparent y (Elem a) ?h1) e"
      by (simp add: cell_rotated) (simp add: cell_def rotating_left_def Let_def)
  qed
  ultimately show ?thesis by simp
qed

lemma rotated_reads:
  assumes "a \<noteq> b" "a \<notin> set (elems y)" "b \<notin> set (elems y)" "a \<notin> on_path k" "b \<notin> on_path k"
  shows "cell (rotated_left k a b y h) a = (rbe_left h (Elem a), ptr_of y, Elem b, rbe_color h (Elem a))"
    and "cell (rotated_left k a b y h) b = (Elem a, rbe_right h (Elem b), up k, rbe_color h (Elem b))"
  using assms by (simp_all add: cell_def rotated_left_def rotating_left_def Let_def)

lemma rotated_left_holds:
  assumes H: "holds h0 N h (plug k (Node x (a, c) (Node y (b, d) z)))"
  shows "holds h0 N (rotated_left k a b y h) (plug k (Node (Node x (a, c) y) (b, d) z))"
proof -
  let ?h3 = "rotating_left k a b y h" and ?h6 = "rotated_left k a b y h"
  have tr: "rb_at h (up k) (Node x (a, c) (Node y (b, d) z))" and ds: "distinct (before k @ (elems x @ a # elems y @ b # elems z) @ after k)"
    and N: "on_path k \<union> set (elems x @ a # elems y @ b # elems z) \<subseteq> N"
    and out: "\<forall>p. p \<notin> Elem ` N \<longrightarrow> links h p = links h0 p" using H by (simp_all add: holds_focus)
  have ab: "a \<noteq> b" "a \<notin> set (elems y)" "b \<notin> set (elems y)" "a \<notin> on_path k" "b \<notin> on_path k"
    using ds by (auto simp: on_path_def)
  have path: "path_at ?h6 (Elem b) k"
    using path_at_relink [OF path_rotating_left [OF H], of "Elem b"] ds
    by (subst path_at_cong [of ?h6 "relink k (Elem b) ?h3"]) (auto simp: rotated_left_def Let_def on_path_def cell_def)
  have sub: "rb_at ?h6 q t = rb_at h q t" if "set (elems t) \<inter> ({a, b} \<union> set (elems y) \<union> on_path k) = {}" for q t
  proof (rule rb_at_cong)
    fix e assume "e \<in> set (elems t)"
    then have "e \<noteq> a" "e \<noteq> b" "e \<notin> set (elems y)" "e \<notin> on_path k" using that by auto
    then show "cell ?h6 e = cell h e" by (simp add: cell_rotated cell_rotating)
  qed
  have "rb_at ?h6 (Elem a) x = rb_at h (Elem a) x" "rb_at ?h6 (Elem b) z = rb_at h (Elem b) z"
    by (rule sub; use ds in \<open>auto simp: on_path_def\<close>)+
  moreover have "links ?h6 p = links h0 p" if "p \<notin> Elem ` N" for p
  proof -
    have "links ?h6 p = links h p" by (rule rotated_outside) (use that N in auto)
    then show ?thesis using out that by simp
  qed
  ultimately show ?thesis
    unfolding holds_focus using path tr ds N rotated_inner [OF H] rotated_reads [OF ab, of h] by (auto simp: cell_def)
qed

lemma rotated_right_holds:
  assumes H: "holds h0 N h (plug k (Node (Node z (b, d) y) (a, c) x))"
  shows "holds h0 N (rotated_right k a b y h) (plug k (Node z (b, d) (Node y (a, c) x)))"
proof -
  have "holds (turned h0) N (turned h) (plug (map turned_frame k) (mirror (Node (Node z (b, d) y) (a, c) x)))"
    using H unfolding plug_turned holds_turned .
  then have "holds (turned h0) N (turned (rotated_right k a b y h)) (plug (map turned_frame k) (mirror (Node z (b, d) (Node y (a, c) x))))"
    using rotated_left_holds [of "turned h0" N "turned h" "map turned_frame k" "mirror x" a c "mirror y" b d "mirror z"]
    unfolding rotated_right_turned by simp
  then show ?thesis unfolding plug_turned holds_turned .
qed

lemma rotate_left_focus:
  assumes "holds h0 N h (plug k (Node x (a, c) (Node y (b, d) z)))"
  shows "\<exists>h'. RB_ROTATE_LEFT (Elem a) h = Inr (Elem b, h') \<and> holds h0 N h' (plug k (Node (Node x (a, c) y) (b, d) z))"
  using rotate_left_code [OF assms] rotated_left_holds [OF assms] by blast

lemma rotate_right_focus:
  assumes "holds h0 N h (plug k (Node (Node z (b, d) y) (a, c) x))"
  shows "\<exists>h'. RB_ROTATE_RIGHT (Elem a) h = Inr (Elem b, h') \<and> holds h0 N h' (plug k (Node z (b, d) (Node y (a, c) x)))"
  using rotate_right_code [OF assms] rotated_right_holds [OF assms] by blast

section \<open>Nodes enter and leave\<close>

text \<open>A node enters at an empty focus.\<close>

definition as_leaf :: "nat \<Rightarrow> frame list \<Rightarrow> rb_heap \<Rightarrow> rb_heap" where
  "as_leaf e k h = h\<lparr>rbe_parent := (rbe_parent h)(Elem e := up k), rbe_right := (rbe_right h)(Elem e := NULL),
     rbe_left := (rbe_left h)(Elem e := NULL), rbe_color := (rbe_color h)(Elem e := RB_RED)\<rparr>"

lemma RB_SET_as_leaf: "RB_SET (Elem e) (up k) h = Inr (as_leaf e k h)"
  by (simp add: RB_SET_def to_parent_def to_left_def to_right_def to_color_def as_leaf_def)

lemma attach_focus:
  assumes H: "holds h0 N h (plug k Leaf)" and e: "e \<in> N" "e \<notin> on_path k"
  shows "holds h0 N (relink k (Elem e) (as_leaf e k h)) (plug k (Node Leaf (e, RB_RED) Leaf))"
proof -
  let ?h = "as_leaf e k h"
  have path: "path_at h NULL k" and ds: "distinct (before k @ after k)" using H by (simp_all add: holds_focus)
  have "path_at ?h NULL k = path_at h NULL k"
    by (rule path_at_cong) (use e in \<open>auto simp: as_leaf_def cell_def\<close>)
  then have "path_at (relink k (Elem e) ?h) (Elem e) k" using path ds by (auto intro: path_at_relink)
  moreover have "links (relink k (Elem e) ?h) p = links h0 p" if "p \<notin> Elem ` N" for p
  proof -
    have "links (relink k (Elem e) ?h) p = links ?h p" by (rule relink_outside) (use that H in \<open>auto simp: holds_focus\<close>)
    also have "\<dots> = links h p" using that e by (auto simp: links_def as_leaf_def)
    finally show ?thesis using H that by (simp add: holds_focus)
  qed
  ultimately show ?thesis
    using H e unfolding holds_focus by (auto simp: as_leaf_def on_path_def)
qed

text \<open>The node in focus, which has one child at most, leaves its place to that child. Its own cell stays.\<close>

lemma unlink_focus:
  assumes H: "holds h0 N h (plug k (Node l (a, c) r))" and one: "l = Leaf \<and> t = r \<or> r = Leaf \<and> t = l"
  shows "\<exists>h'. unlink (Elem a) (up k) (ptr_of t) h = Inr h' \<and> holds h0 N h' (plug k t) \<and> links h' (Elem a) = links h (Elem a)"
proof -
  have path: "path_at h (Elem a) k" and tr: "rb_at h (Elem a) t" and ds: "distinct (before k @ elems t @ after k)"
    and a: "a \<notin> set (elems t)" "a \<notin> on_path k"
    using H one by (auto simp: holds_focus on_path_def)
  define h1 where "h1 = reparent t (up k) h"
  define h2 where "h2 = relink k (ptr_of t) h1"
  have apart: "e \<notin> set (elems t)" if "e \<in> on_path k" for e using that ds by (auto simp: on_path_def)
  have "path_at h1 (Elem a) k = path_at h (Elem a) k"
    by (rule path_at_cong) (simp_all add: h1_def cell_def apart)
  then have path1: "path_at h1 (Elem a) k" using path by simp
  have "unlink (Elem a) (up k) (ptr_of t) h = Inr h2"
  proof -
    have "(if ptr_of t \<noteq> NULL then to_parent (ptr_of t) (up k) h else Inr h) = Inr h1"
      by (simp add: h1_def reparent_def to_parent_def)
    then show ?thesis
      using relink_code [OF path1 a(2), of "ptr_of t"] unfolding unlink_def h2_def
      by (cases "k = []") (simp_all cong: if_cong)
  qed
  moreover have "rb_at h2 (up k) t"
  proof -
    have "rb_at h1 (up k) t" unfolding h1_def using tr ds by (intro rb_at_reparent) auto
    moreover have "rb_at h2 (up k) t = rb_at h1 (up k) t"
    proof (rule rb_at_cong)
      fix e assume "e \<in> set (elems t)"
      then have "e \<notin> on_path k" using apart by blast
      then show "cell h2 e = cell h1 e" by (simp add: h2_def cell_def)
    qed
    ultimately show ?thesis by simp
  qed
  moreover have "path_at h2 (ptr_of t) k" unfolding h2_def by (rule path_at_relink [OF path1]) (use ds in auto)
  moreover have keep: "links h2 p = links h p" if "p \<notin> Elem ` (on_path k \<union> set (elems t))" for p
    unfolding h2_def h1_def using that by (subst relink_outside, force, subst reparent_outside) auto
  moreover have sub: "on_path k \<union> set (elems t) \<subseteq> N" using H one by (auto simp: holds_focus)
  moreover have "links h2 (Elem a) = links h (Elem a)" using a by (intro keep) auto
  moreover have "links h2 p = links h0 p" if "p \<notin> Elem ` N" for p
  proof -
    have "links h2 p = links h p" by (rule keep) (use sub that in blast)
    then show ?thesis using H that by (simp add: holds_focus)
  qed
  ultimately show ?thesis using ds by (intro exI [of _ h2]) (simp add: holds_focus)
qed

text \<open>A node outside the tree takes the place of the one in focus, which has a left child.\<close>

definition copied :: "frame list \<Rightarrow> nat \<Rightarrow> rbtree \<Rightarrow> rbtree \<Rightarrow> int \<Rightarrow> rb_heap \<Rightarrow> rb_heap" where
  "copied k s l r c h = h\<lparr>rbe_left := (rbe_left h)(Elem s := ptr_of l), rbe_right := (rbe_right h)(Elem s := ptr_of r),
    rbe_parent := (rbe_parent h)(Elem s := up k), rbe_color := (rbe_color h)(Elem s := c)\<rparr>"

definition replaced :: "frame list \<Rightarrow> nat \<Rightarrow> rbtree \<Rightarrow> rbtree \<Rightarrow> int \<Rightarrow> rb_heap \<Rightarrow> rb_heap" where
  "replaced k s l r c h = reparent r (Elem s) (reparent l (Elem s) (relink k (Elem s) (copied k s l r c h)))"

lemma path_copied:
  assumes "holds h0 N h (plug k (Node l (a, c) r))" and "s \<notin> on_path k"
  shows "path_at (copied k s l r c h) (Elem a) k"
proof -
  have "path_at (copied k s l r c h) (Elem a) k = path_at h (Elem a) k"
    by (rule path_at_cong) (use assms(2) in \<open>auto simp: copied_def cell_def\<close>)
  then show ?thesis using assms(1) by (simp add: holds_focus)
qed

lemma replace_code:
  assumes H: "holds h0 N h (plug k (Node l (a, c) r))" and s: "s \<noteq> a" "s \<notin> on_path k" and l: "l \<noteq> Leaf"
  shows "replace (Elem a) (Elem s) h = Inr (replaced k s l r c h)"
proof -
  let ?h4 = "copied k s l r c h"
  let ?h5 = "relink k (Elem s) ?h4"
  let ?h6 = "reparent l (Elem s) ?h5"
  have tr: "rb_at h (up k) (Node l (a, c) r)" and a: "a \<notin> set (elems l)" "a \<notin> set (elems r)" "a \<notin> on_path k"
    using H by (auto simp: holds_focus on_path_def)
  note path = path_copied [OF H s(2)]
  have "RB_LEFT h (Elem a) = Inr (ptr_of l)" "RB_RIGHT h (Elem a) = Inr (ptr_of r)" "RB_PARENT h (Elem a) = Inr (up k)"
    "RB_COLOR h (Elem a) = Inr c" using holds_reads [OF H] by simp_all
  moreover have "chain (to_left (Elem s) (ptr_of l) h) (\<lambda>h1. chain (to_right (Elem s) (ptr_of r) h1) (\<lambda>h2.
      chain (to_parent (Elem s) (up k) h2) (\<lambda>h3. chain (to_color (Elem s) c h3) K))) = K ?h4" for K :: "rb_heap \<Rightarrow> rb_heap result"
    by (simp add: to_left_def to_right_def to_parent_def to_color_def copied_def)
  moreover have "RB_PARENT ?h4 (Elem a) = Inr (up k)" using tr s by (simp add: RB_PARENT_def copied_def)
  moreover have "(if up k \<noteq> NULL then chain (RB_LEFT ?h4 (up k)) (\<lambda>l'. if l' = Elem a then to_left (up k) (Elem s) ?h4
      else to_right (up k) (Elem s) ?h4) else to_root (Elem s) ?h4) = Inr ?h5"
    using relink_code [OF path a(3), of "Elem s"] by (cases "k = []") (simp_all cong: if_cong)
  moreover have "RB_LEFT ?h5 (Elem a) = Inr (ptr_of l)" using tr s a by (simp add: RB_LEFT_def copied_def)
  moreover have "to_parent (ptr_of l) (Elem s) ?h5 = Inr ?h6" using l by (simp add: to_parent_def reparent_def)
  moreover have "RB_RIGHT ?h6 (Elem a) = Inr (ptr_of r)" using tr s a by (simp add: RB_RIGHT_def copied_def)
  moreover have "(if ptr_of r \<noteq> NULL then to_parent (ptr_of r) (Elem s) ?h6 else Inr ?h6) = Inr (replaced k s l r c h)"
    by (simp add: to_parent_def replaced_def reparent_def)
  ultimately show ?thesis unfolding replace_def by (simp only: chain_simps)
qed

lemma replaced_outside:
  assumes "p \<notin> Elem ` (insert s (on_path k \<union> set (elems l) \<union> set (elems r)))"
  shows "links (replaced k s l r c h) p = links h p"
proof -
  have "links (replaced k s l r c h) p = links (relink k (Elem s) (copied k s l r c h)) p"
    unfolding replaced_def using assms by (subst reparent_outside, force, subst reparent_outside) auto
  also have "\<dots> = links (copied k s l r c h) p" by (rule relink_outside) (use assms in auto)
  finally show ?thesis using assms by (auto simp: links_def copied_def)
qed

lemma replaced_subtrees:
  assumes tr: "rb_at h (Elem a) l" "rb_at h (Elem a) r" and ds: "distinct (elems l @ elems r)"
    and s: "s \<notin> set (elems l)" "s \<notin> set (elems r)" and k: "on_path k \<inter> (set (elems l) \<union> set (elems r)) = {}"
  shows "rb_at (replaced k s l r c h) (Elem s) l" and "rb_at (replaced k s l r c h) (Elem s) r"
proof -
  let ?h5 = "relink k (Elem s) (copied k s l r c h)"
  let ?h6 = "reparent l (Elem s) ?h5"
  have apart: "e \<notin> set (elems r)" if "e \<in> set (elems l)" for e using that ds by auto
  have apart': "e \<notin> set (elems l)" if "e \<in> set (elems r)" for e using that ds by auto
  have sub: "rb_at ?h5 (Elem a) t = rb_at h (Elem a) t" if "t = l \<or> t = r" for t
  proof (rule rb_at_cong)
    fix e assume "e \<in> set (elems t)"
    then have "e \<noteq> s" "e \<notin> on_path k" using that s k by auto
    then show "cell ?h5 e = cell h e" by (simp add: cell_def copied_def)
  qed
  have "rb_at ?h6 (Elem s) l" using sub [of l] tr ds by (intro rb_at_reparent) auto
  moreover have "rb_at (replaced k s l r c h) (Elem s) l = rb_at ?h6 (Elem s) l"
    unfolding replaced_def by (rule rb_at_cong) (simp add: cell_def apart)
  ultimately show "rb_at (replaced k s l r c h) (Elem s) l" by simp
  have "rb_at ?h6 (Elem a) r = rb_at ?h5 (Elem a) r" by (rule rb_at_cong) (simp add: cell_def apart')
  then have "rb_at ?h6 (Elem a) r" using sub [of r] tr by simp
  then show "rb_at (replaced k s l r c h) (Elem s) r" unfolding replaced_def using ds by (intro rb_at_reparent) auto
qed

lemma replace_focus:
  assumes H: "holds h0 N h (plug k (Node l (a, c) r))" and s: "s \<in> N" "s \<notin> set (elems (plug k (Node l (a, c) r)))" and l: "l \<noteq> Leaf"
  shows "\<exists>h'. replace (Elem a) (Elem s) h = Inr h' \<and> holds h0 N h' (plug k (Node l (s, c) r))"
proof -
  let ?h7 = "replaced k s l r c h" and ?h5 = "relink k (Elem s) (copied k s l r c h)"
  have tr: "rb_at h (Elem a) l" "rb_at h (Elem a) r" and ds: "distinct (before k @ (elems l @ a # elems r) @ after k)"
    and N: "on_path k \<union> set (elems l @ a # elems r) \<subseteq> N"
    and out: "\<forall>p. p \<notin> Elem ` N \<longrightarrow> links h p = links h0 p" using H by (simp_all add: holds_focus)
  have sn: "s \<noteq> a" "s \<notin> set (elems l)" "s \<notin> set (elems r)" "s \<notin> on_path k" using s(2) by (auto simp: on_path_def)
  have apart: "e \<notin> set (elems l)" "e \<notin> set (elems r)" if "e \<in> on_path k" for e using that ds by (auto simp: on_path_def)
  have "path_at ?h5 (Elem s) k" by (rule path_at_relink [OF path_copied [OF H sn(4)]]) (use ds in auto)
  moreover have "path_at ?h7 (Elem s) k = path_at ?h5 (Elem s) k"
    by (rule path_at_cong) (simp_all add: replaced_def cell_def apart)
  moreover have "links ?h7 p = links h0 p" if "p \<notin> Elem ` N" for p
  proof -
    have "links ?h7 p = links h p" by (rule replaced_outside) (use that N s(1) in auto)
    then show ?thesis using out that by simp
  qed
  moreover have "rb_at ?h7 (Elem s) l" "rb_at ?h7 (Elem s) r"
    using replaced_subtrees [OF tr, of s k c] ds sn apart by auto
  moreover have "cell ?h7 s = (ptr_of l, ptr_of r, up k, c)" using sn by (simp add: cell_def replaced_def copied_def)
  ultimately have "holds h0 N ?h7 (plug k (Node l (s, c) r))"
    unfolding holds_focus using sn ds N s(1) by (auto simp: cell_def on_path_def)
  then show ?thesis using replace_code [OF H sn(1,4) l] by blast
qed

end
