(* ===== verification/RB_Insert.thy ===== *)
theory RB_Insert
  imports RB_Zip
begin

text \<open>
  The balance of red-black trees, and the recolouring loop after an insertion: what each turn does to the
  tree in focus, and that the loop ends with a balanced tree of the same elements.
\<close>

section \<open>Balance\<close>

fun color_of :: "rbtree \<Rightarrow> int" where
  "color_of Leaf = RB_BLACK"
| "color_of (Node l (a, c) r) = c"

text \<open>No red node has a red child, and every way down meets the same number of black nodes.\<close>

fun no_two_reds :: "rbtree \<Rightarrow> bool" where
  "no_two_reds Leaf = True"
| "no_two_reds (Node l (a, c) r) =
     (no_two_reds l \<and> no_two_reds r \<and>
      (c = RB_BLACK \<or> c = RB_RED \<and> color_of l = RB_BLACK \<and> color_of r = RB_BLACK))"

fun blacks :: "rbtree \<Rightarrow> nat" where
  "blacks Leaf = 0"
| "blacks (Node l (a, c) r) = blacks l + (if c = RB_BLACK then 1 else 0)"

fun even :: "rbtree \<Rightarrow> bool" where
  "even Leaf = True"
| "even (Node l (a, c) r) = (even l \<and> even r \<and> blacks l = blacks r)"

definition balanced :: "rbtree \<Rightarrow> bool" where
  "balanced t \<longleftrightarrow> no_two_reds t \<and> even t \<and> color_of t = RB_BLACK"

lemma colors_differ [simp]: "RB_RED \<noteq> RB_BLACK" "RB_BLACK \<noteq> RB_RED"
  by (simp_all add: RB_RED_def RB_BLACK_def)

lemma no_two_reds_color: "no_two_reds t \<Longrightarrow> color_of t = RB_BLACK \<or> color_of t = RB_RED"
  by (cases t rule: ptr_of.cases) auto

text \<open>The same for a path: what it needs is a black focus with that many black nodes. The root is black.\<close>

fun frame_color :: "frame \<Rightarrow> int" where
  "frame_color (In_Left n r) = snd n"
| "frame_color (In_Right l n) = snd n"

fun black_above :: "frame list \<Rightarrow> bool" where
  "black_above [] = False"
| "black_above (f # k) = (frame_color f = RB_BLACK)"

fun sibling :: "frame \<Rightarrow> rbtree" where
  "sibling (In_Left n r) = r"
| "sibling (In_Right l n) = l"

fun path_colors :: "frame list \<Rightarrow> bool" where
  "path_colors [] = True"
| "path_colors (f # k) =
     (path_colors k \<and> no_two_reds (sibling f) \<and>
      (frame_color f = RB_BLACK \<or> frame_color f = RB_RED \<and> color_of (sibling f) = RB_BLACK \<and> black_above k))"

fun path_even :: "nat \<Rightarrow> frame list \<Rightarrow> bool" where
  "path_even n [] = True"
| "path_even n (f # k) =
     (even (sibling f) \<and> blacks (sibling f) = n \<and> path_even (n + (if frame_color f = RB_BLACK then 1 else 0)) k)"

lemma even_plug: "even (plug k t) \<longleftrightarrow> even t \<and> path_even (blacks t) k"
proof (induction k t rule: plug.induct)
  case (2 n r k t)
  then show ?case by (cases n) auto
next
  case (3 l n k t)
  then show ?case by (cases n) auto
qed simp

lemma no_two_reds_plug:
  "path_colors k \<Longrightarrow> no_two_reds t \<Longrightarrow> color_of t = RB_RED \<Longrightarrow> k = [] \<or> black_above k \<Longrightarrow> no_two_reds (plug k t)"
  "path_colors k \<Longrightarrow> no_two_reds t \<Longrightarrow> color_of t = RB_BLACK \<Longrightarrow> no_two_reds (plug k t)"
proof -
  have "no_two_reds (plug k t)" if "path_colors k" "no_two_reds t" "color_of t = RB_RED \<longrightarrow> k = [] \<or> black_above k"
    using that
  proof (induction k t rule: plug.induct)
    case (2 n r k t)
    then show ?case using no_two_reds_color [of t] by (cases n) auto
  next
    case (3 l n k t)
    then show ?case using no_two_reds_color [of t] by (cases n) auto
  qed simp
  then show "path_colors k \<Longrightarrow> no_two_reds t \<Longrightarrow> color_of t = RB_RED \<Longrightarrow> k = [] \<or> black_above k \<Longrightarrow> no_two_reds (plug k t)"
    and "path_colors k \<Longrightarrow> no_two_reds t \<Longrightarrow> color_of t = RB_BLACK \<Longrightarrow> no_two_reds (plug k t)" by simp_all
qed

lemma black_root: "path_colors k \<Longrightarrow> k \<noteq> [] \<Longrightarrow> color_of (plug k t) = RB_BLACK"
proof (induction k t rule: plug.induct)
  case (2 n r k t)
  then show ?case by (cases n; cases k) auto
next
  case (3 l n k t)
  then show ?case by (cases n; cases k) auto
qed simp

lemma balanced_plugD:
  "balanced (plug k t) \<Longrightarrow> path_colors k \<and> no_two_reds t \<and> (color_of t = RB_RED \<longrightarrow> black_above k)"
proof (induction k t rule: plug.induct)
  case (1 t)
  then show ?case by (auto simp: balanced_def)
next
  case (2 n r k t)
  then show ?case by (cases n; cases k rule: up.cases) auto
next
  case (3 l n k t)
  then show ?case by (cases n; cases k rule: up.cases) auto
qed

lemma balanced_plug:
  "path_colors k \<Longrightarrow> no_two_reds t \<Longrightarrow> color_of t = RB_RED \<longrightarrow> black_above k \<Longrightarrow> even t \<Longrightarrow> path_even (blacks t) k \<Longrightarrow> balanced (plug k t)"
  unfolding balanced_def even_plug
  using no_two_reds_plug [of k t] black_root [of k t] no_two_reds_color [of t] by (cases "k = []") auto

lemma balanced_blacken: "no_two_reds (Node l (a, c) r) \<Longrightarrow> even (Node l (a, c) r) \<Longrightarrow> balanced (Node l (a, RB_BLACK) r)"
  by (simp add: balanced_def)

text \<open>The tests of the code on a pointer that may be null.\<close>

lemma colors_read:
  assumes "holds h0 N h (plug k t)"
  shows "is_red h (ptr_of t) \<longleftrightarrow> color_of t = RB_RED" and "none_or_black h (ptr_of t) \<longleftrightarrow> color_of t = RB_BLACK"
  using assms by (cases t rule: ptr_of.cases; simp add: holds_focus is_red_def none_or_black_def)+

section \<open>One turn\<close>

lemma set_blackred_child:
  assumes "holds h0 N h (plug k (Node (Node x (p, c) y) (g, d) z))"
  shows "\<exists>h'. RB_SET_BLACKRED (Elem p) (Elem g) h = Inr h' \<and> holds h0 N h' (plug k (Node (Node x (p, RB_BLACK) y) (g, RB_RED) z))"
proof -
  obtain h1 where h1: "to_color (Elem p) RB_BLACK h = Inr h1" "holds h0 N h1 (plug k (Node (Node x (p, RB_BLACK) y) (g, d) z))"
    using to_color_focus [of h0 N h "In_Left (g, d) z # k"] assms by fastforce
  from to_color_focus [OF h1(2)] show ?thesis by (auto simp: RB_SET_BLACKRED_def h1(1))
qed

lemma set_blackred_child':
  assumes "holds h0 N h (plug k (Node z (g, d) (Node x (p, c) y)))"
  shows "\<exists>h'. RB_SET_BLACKRED (Elem p) (Elem g) h = Inr h' \<and> holds h0 N h' (plug k (Node z (g, RB_RED) (Node x (p, RB_BLACK) y)))"
proof -
  obtain h1 where h1: "to_color (Elem p) RB_BLACK h = Inr h1" "holds h0 N h1 (plug k (Node z (g, d) (Node x (p, RB_BLACK) y)))"
    using to_color_focus [of h0 N h "In_Right z (g, d) # k"] assms by fastforce
  from to_color_focus [OF h1(2)] show ?thesis by (auto simp: RB_SET_BLACKRED_def h1(1))
qed

text \<open>Below a left parent.\<close>

lemma left_uncle_red:
  assumes H: "holds h0 N h (plug k (Node (Node x (p, c) y) (g, d) (Node u1 (u, RB_RED) u2)))"
  shows "\<exists>h'. insert_color_left e (Elem p) (Elem g) h = Inr (Elem g, h') \<and>
    holds h0 N h' (plug k (Node (Node x (p, RB_BLACK) y) (g, RB_RED) (Node u1 (u, RB_BLACK) u2)))"
proof -
  have U: "holds h0 N h (plug (In_Right (Node x (p, c) y) (g, d) # k) (Node u1 (u, RB_RED) u2))" using H by simp
  obtain h1 where h1: "to_color (Elem u) RB_BLACK h = Inr h1"
    "holds h0 N h1 (plug k (Node (Node x (p, c) y) (g, d) (Node u1 (u, RB_BLACK) u2)))"
    using to_color_focus [OF U, of RB_BLACK] by auto
  from set_blackred_child [OF h1(2)] show ?thesis
    using holds_reads(2) [OF H] holds_reads(5) [OF U] by (auto simp: insert_color_left_def is_red_def h1(1))
qed

lemma left_outer:
  assumes H: "holds h0 N h (plug k (Node (Node (Node l (a, c) r) (p, cp) s) (g, d) u))" and u: "color_of u = RB_BLACK"
  shows "\<exists>h'. insert_color_left (Elem a) (Elem p) (Elem g) h = Inr (Elem a, h') \<and>
    holds h0 N h' (plug k (Node (Node l (a, c) r) (p, RB_BLACK) (Node s (g, RB_RED) u)))"
proof -
  have P: "holds h0 N h (plug (In_Left (g, d) u # k) (Node (Node l (a, c) r) (p, cp) s))" using H by simp
  have "ptr_of s \<noteq> Elem a" using H ptr_of_elem [of s a] by (auto simp: holds_focus)
  moreover have "\<not> is_red h (ptr_of u)"
    using colors_read(1) [of h0 N h "In_Right (Node (Node l (a, c) r) (p, cp) s) (g, d) # k" u] H u by simp
  moreover obtain h1 where h1: "RB_SET_BLACKRED (Elem p) (Elem g) h = Inr h1"
    "holds h0 N h1 (plug k (Node (Node (Node l (a, c) r) (p, RB_BLACK) s) (g, RB_RED) u))" using set_blackred_child [OF H] by blast
  ultimately show ?thesis
    using holds_reads(2) [OF H] holds_reads(2) [OF P] rotate_right_focus [OF h1(2)]
    by (auto simp: insert_color_left_def h1(1))
qed

lemma left_inner:
  assumes H: "holds h0 N h (plug k (Node (Node s (p, cp) (Node l (a, c) r)) (g, d) u))" and u: "color_of u = RB_BLACK"
  shows "\<exists>h'. insert_color_left (Elem a) (Elem p) (Elem g) h = Inr (Elem p, h') \<and>
    holds h0 N h' (plug k (Node (Node s (p, cp) l) (a, RB_BLACK) (Node r (g, RB_RED) u)))"
proof -
  have P: "holds h0 N h (plug (In_Left (g, d) u # k) (Node s (p, cp) (Node l (a, c) r)))" using H by simp
  have nr: "\<not> is_red h (ptr_of u)"
    using colors_read(1) [of h0 N h "In_Right (Node s (p, cp) (Node l (a, c) r)) (g, d) # k" u] H u by simp
  obtain h1 where h1: "RB_ROTATE_LEFT (Elem p) h = Inr (Elem a, h1)"
    "holds h0 N h1 (plug k (Node (Node (Node s (p, cp) l) (a, c) r) (g, d) u))" using rotate_left_focus [OF P] by auto
  obtain h2 where h2: "RB_SET_BLACKRED (Elem a) (Elem g) h1 = Inr h2"
    "holds h0 N h2 (plug k (Node (Node (Node s (p, cp) l) (a, RB_BLACK) r) (g, RB_RED) u))" using set_blackred_child [OF h1(2)] by blast
  show ?thesis
    using nr holds_reads(2) [OF H] holds_reads(2) [OF P] rotate_right_focus [OF h2(2)]
    by (auto simp: insert_color_left_def h1(1) h2(1))
qed

text \<open>Below a right parent.\<close>

lemma right_uncle_red:
  assumes H: "holds h0 N h (plug k (Node (Node u1 (u, RB_RED) u2) (g, d) (Node x (p, c) y)))"
  shows "\<exists>h'. insert_color_right e (Elem p) (Elem g) h = Inr (Elem g, h') \<and>
    holds h0 N h' (plug k (Node (Node u1 (u, RB_BLACK) u2) (g, RB_RED) (Node x (p, RB_BLACK) y)))"
proof -
  have U: "holds h0 N h (plug (In_Left (g, d) (Node x (p, c) y) # k) (Node u1 (u, RB_RED) u2))" using H by simp
  obtain h1 where h1: "to_color (Elem u) RB_BLACK h = Inr h1"
    "holds h0 N h1 (plug k (Node (Node u1 (u, RB_BLACK) u2) (g, d) (Node x (p, c) y)))"
    using to_color_focus [OF U, of RB_BLACK] by auto
  from set_blackred_child' [OF h1(2)] show ?thesis
    using holds_reads(1) [OF H] holds_reads(5) [OF U] by (auto simp: insert_color_right_def is_red_def h1(1))
qed

lemma right_outer:
  assumes H: "holds h0 N h (plug k (Node u (g, d) (Node s (p, cp) (Node l (a, c) r))))" and u: "color_of u = RB_BLACK"
  shows "\<exists>h'. insert_color_right (Elem a) (Elem p) (Elem g) h = Inr (Elem a, h') \<and>
    holds h0 N h' (plug k (Node (Node u (g, RB_RED) s) (p, RB_BLACK) (Node l (a, c) r)))"
proof -
  have P: "holds h0 N h (plug (In_Right u (g, d) # k) (Node s (p, cp) (Node l (a, c) r)))" using H by simp
  have "ptr_of s \<noteq> Elem a" using H ptr_of_elem [of s a] by (auto simp: holds_focus)
  moreover have "\<not> is_red h (ptr_of u)"
    using colors_read(1) [of h0 N h "In_Left (g, d) (Node s (p, cp) (Node l (a, c) r)) # k" u] H u by simp
  moreover obtain h1 where h1: "RB_SET_BLACKRED (Elem p) (Elem g) h = Inr h1"
    "holds h0 N h1 (plug k (Node u (g, RB_RED) (Node s (p, RB_BLACK) (Node l (a, c) r))))" using set_blackred_child' [OF H] by blast
  ultimately show ?thesis
    using holds_reads(1) [OF H] holds_reads(1) [OF P] rotate_left_focus [OF h1(2)]
    by (auto simp: insert_color_right_def h1(1))
qed

lemma right_inner:
  assumes H: "holds h0 N h (plug k (Node u (g, d) (Node (Node l (a, c) r) (p, cp) s)))" and u: "color_of u = RB_BLACK"
  shows "\<exists>h'. insert_color_right (Elem a) (Elem p) (Elem g) h = Inr (Elem p, h') \<and>
    holds h0 N h' (plug k (Node (Node u (g, RB_RED) l) (a, RB_BLACK) (Node r (p, cp) s)))"
proof -
  have P: "holds h0 N h (plug (In_Right u (g, d) # k) (Node (Node l (a, c) r) (p, cp) s))" using H by simp
  have nr: "\<not> is_red h (ptr_of u)"
    using colors_read(1) [of h0 N h "In_Left (g, d) (Node (Node l (a, c) r) (p, cp) s) # k" u] H u by simp
  obtain h1 where h1: "RB_ROTATE_RIGHT (Elem p) h = Inr (Elem a, h1)"
    "holds h0 N h1 (plug k (Node u (g, d) (Node l (a, c) (Node r (p, cp) s))))" using rotate_right_focus [OF P] by auto
  obtain h2 where h2: "RB_SET_BLACKRED (Elem a) (Elem g) h1 = Inr h2"
    "holds h0 N h2 (plug k (Node u (g, RB_RED) (Node l (a, RB_BLACK) (Node r (p, cp) s))))" using set_blackred_child' [OF h1(2)] by blast
  show ?thesis
    using nr holds_reads(1) [OF H] holds_reads(1) [OF P] rotate_left_focus [OF h2(2)]
    by (auto simp: insert_color_right_def h1(1) h2(1))
qed

section \<open>The loop\<close>

text \<open>A red node in focus, which may have a red parent; everything else is in balance.\<close>

definition red_focus :: "rb_heap \<Rightarrow> nat set \<Rightarrow> nat list \<Rightarrow> rb_heap \<Rightarrow> frame list \<Rightarrow> nat \<Rightarrow> bool" where
  "red_focus h0 N xs h k a \<longleftrightarrow> (\<exists>l r. holds h0 N h (plug k (Node l (a, RB_RED) r)) \<and> path_colors k \<and>
     no_two_reds (Node l (a, RB_RED) r) \<and> even (plug k (Node l (a, RB_RED) r)) \<and> elems (plug k (Node l (a, RB_RED) r)) = xs)"

lemma red_focusI:
  "holds h0 N h (plug k (Node l (a, RB_RED) r)) \<Longrightarrow> path_colors k \<Longrightarrow> no_two_reds (Node l (a, RB_RED) r) \<Longrightarrow>
   even (plug k (Node l (a, RB_RED) r)) \<Longrightarrow> elems (plug k (Node l (a, RB_RED) r)) = xs \<Longrightarrow> red_focus h0 N xs h k a"
  unfolding red_focus_def by blast

lemma insert_turn_left:
  assumes F: "red_focus h0 N xs h (f # In_Left (g, RB_BLACK) u # k) a" and red: "frame_color f = RB_RED"
  shows "\<exists>a' h' k'. insert_color_left (Elem a) (up (f # k)) (Elem g) h = Inr (Elem a', h') \<and>
    red_focus h0 N xs h' k' a' \<and> length k' < Suc (Suc (length k))"
proof -
  obtain l r where H: "holds h0 N h (plug (f # In_Left (g, RB_BLACK) u # k) (Node l (a, RB_RED) r))"
    and pc: "path_colors (f # In_Left (g, RB_BLACK) u # k)" and nr: "no_two_reds (Node l (a, RB_RED) r)"
    and ev: "even (plug (f # In_Left (g, RB_BLACK) u # k) (Node l (a, RB_RED) r))"
    and xs: "elems (plug (f # In_Left (g, RB_BLACK) u # k) (Node l (a, RB_RED) r)) = xs"
    using F unfolding red_focus_def by blast
  have u: "no_two_reds u" using pc by simp
  obtain p s where f: "f = In_Left (p, RB_RED) s \<or> f = In_Right s (p, RB_RED)"
    using red by (cases f rule: frame_color.cases; metis frame_color.simps prod.collapse)
  have s: "no_two_reds s" "color_of s = RB_BLACK" using pc f by auto
  consider (red) u1 e u2 where "u = Node u1 (e, RB_RED) u2" | (black) "color_of u = RB_BLACK"
    using no_two_reds_color [OF u] by (cases u rule: ptr_of.cases) auto
  then show ?thesis
  proof cases
    case red: red
    let ?t = "Node l (a, RB_RED) r"
    let ?q = "case f of In_Left n s \<Rightarrow> Node ?t (p, RB_BLACK) s | In_Right s n \<Rightarrow> Node s (p, RB_BLACK) ?t"
    obtain h' where h': "insert_color_left (Elem a) (Elem p) (Elem g) h = Inr (Elem g, h')"
      "holds h0 N h' (plug k (Node ?q (g, RB_RED) (Node u1 (e, RB_BLACK) u2)))"
      using f left_uncle_red [of h0 N h k _ p RB_RED _ g RB_BLACK u1 e u2] H unfolding red by fastforce
    have "red_focus h0 N xs h' k g"
      by (rule red_focusI [OF h'(2)]) (use f pc nr s u ev xs in \<open>auto simp: red even_plug\<close>)
    then show ?thesis using h'(1) f by (intro exI [of _ g] exI [of _ h'] exI [of _ k]) auto
  next
    case black
    show ?thesis
    proof (cases "f = In_Left (p, RB_RED) s")
      case True
      obtain h' where h': "insert_color_left (Elem a) (Elem p) (Elem g) h = Inr (Elem a, h')"
        "holds h0 N h' (plug k (Node (Node l (a, RB_RED) r) (p, RB_BLACK) (Node s (g, RB_RED) u)))"
        using left_outer [of h0 N h k l a RB_RED r p RB_RED s g RB_BLACK u] H black by (auto simp: True)
      have "red_focus h0 N xs h' (In_Left (p, RB_BLACK) (Node s (g, RB_RED) u) # k) a"
        by (rule red_focusI) (use h'(2) pc nr s u ev xs black in \<open>auto simp: True even_plug\<close>)
      then show ?thesis using h'(1) True
        by (intro exI [of _ a] exI [of _ h'] exI [of _ "In_Left (p, RB_BLACK) (Node s (g, RB_RED) u) # k"]) auto
    next
      case False
      then have f': "f = In_Right s (p, RB_RED)" using f by simp
      obtain h' where h': "insert_color_left (Elem a) (Elem p) (Elem g) h = Inr (Elem p, h')"
        "holds h0 N h' (plug k (Node (Node s (p, RB_RED) l) (a, RB_BLACK) (Node r (g, RB_RED) u)))"
        using left_inner [of h0 N h k s p RB_RED l a RB_RED r g RB_BLACK u] H black by (auto simp: f')
      have "red_focus h0 N xs h' (In_Left (a, RB_BLACK) (Node r (g, RB_RED) u) # k) p"
        by (rule red_focusI) (use h'(2) pc nr s u ev xs black in \<open>auto simp: f' even_plug\<close>)
      then show ?thesis using h'(1) f'
        by (intro exI [of _ p] exI [of _ h'] exI [of _ "In_Left (a, RB_BLACK) (Node r (g, RB_RED) u) # k"]) auto
    qed
  qed
qed

lemma insert_turn_right:
  assumes F: "red_focus h0 N xs h (f # In_Right u (g, RB_BLACK) # k) a" and red: "frame_color f = RB_RED"
  shows "\<exists>a' h' k'. insert_color_right (Elem a) (up (f # k)) (Elem g) h = Inr (Elem a', h') \<and>
    red_focus h0 N xs h' k' a' \<and> length k' < Suc (Suc (length k))"
proof -
  obtain l r where H: "holds h0 N h (plug (f # In_Right u (g, RB_BLACK) # k) (Node l (a, RB_RED) r))"
    and pc: "path_colors (f # In_Right u (g, RB_BLACK) # k)" and nr: "no_two_reds (Node l (a, RB_RED) r)"
    and ev: "even (plug (f # In_Right u (g, RB_BLACK) # k) (Node l (a, RB_RED) r))"
    and xs: "elems (plug (f # In_Right u (g, RB_BLACK) # k) (Node l (a, RB_RED) r)) = xs"
    using F unfolding red_focus_def by blast
  have u: "no_two_reds u" using pc by simp
  obtain p s where f: "f = In_Left (p, RB_RED) s \<or> f = In_Right s (p, RB_RED)"
    using red by (cases f rule: frame_color.cases; metis frame_color.simps prod.collapse)
  have s: "no_two_reds s" "color_of s = RB_BLACK" using pc f by auto
  consider (red) u1 e u2 where "u = Node u1 (e, RB_RED) u2" | (black) "color_of u = RB_BLACK"
    using no_two_reds_color [OF u] by (cases u rule: ptr_of.cases) auto
  then show ?thesis
  proof cases
    case red: red
    let ?t = "Node l (a, RB_RED) r"
    let ?q = "case f of In_Left n s \<Rightarrow> Node ?t (p, RB_BLACK) s | In_Right s n \<Rightarrow> Node s (p, RB_BLACK) ?t"
    obtain h' where h': "insert_color_right (Elem a) (Elem p) (Elem g) h = Inr (Elem g, h')"
      "holds h0 N h' (plug k (Node (Node u1 (e, RB_BLACK) u2) (g, RB_RED) ?q))"
      using f right_uncle_red [of h0 N h k u1 e u2 g RB_BLACK _ p RB_RED] H unfolding red by fastforce
    have "red_focus h0 N xs h' k g"
      by (rule red_focusI [OF h'(2)]) (use f pc nr s u ev xs in \<open>auto simp: red even_plug\<close>)
    then show ?thesis using h'(1) f by (intro exI [of _ g] exI [of _ h'] exI [of _ k]) auto
  next
    case black
    show ?thesis
    proof (cases "f = In_Right s (p, RB_RED)")
      case True
      obtain h' where h': "insert_color_right (Elem a) (Elem p) (Elem g) h = Inr (Elem a, h')"
        "holds h0 N h' (plug k (Node (Node u (g, RB_RED) s) (p, RB_BLACK) (Node l (a, RB_RED) r)))"
        using right_outer [of h0 N h k u g RB_BLACK s p RB_RED l a RB_RED r] H black by (auto simp: True)
      have "red_focus h0 N xs h' (In_Right (Node u (g, RB_RED) s) (p, RB_BLACK) # k) a"
        by (rule red_focusI) (use h'(2) pc nr s u ev xs black in \<open>auto simp: True even_plug\<close>)
      then show ?thesis using h'(1) True
        by (intro exI [of _ a] exI [of _ h'] exI [of _ "In_Right (Node u (g, RB_RED) s) (p, RB_BLACK) # k"]) auto
    next
      case False
      then have f': "f = In_Left (p, RB_RED) s" using f by simp
      obtain h' where h': "insert_color_right (Elem a) (Elem p) (Elem g) h = Inr (Elem p, h')"
        "holds h0 N h' (plug k (Node (Node u (g, RB_RED) l) (a, RB_BLACK) (Node r (p, RB_RED) s)))"
        using right_inner [of h0 N h k u g RB_BLACK l a RB_RED r p RB_RED s] H black by (auto simp: f')
      have "red_focus h0 N xs h' (In_Right (Node u (g, RB_RED) l) (a, RB_BLACK) # k) p"
        by (rule red_focusI) (use h'(2) pc nr s u ev xs black in \<open>auto simp: f' even_plug\<close>)
      then show ?thesis using h'(1) f'
        by (intro exI [of _ p] exI [of _ h'] exI [of _ "In_Right (Node u (g, RB_RED) l) (a, RB_BLACK) # k"]) auto
    qed
  qed
qed

lemma is_red_up: "path_at h q (f # k) \<Longrightarrow> is_red h (up (f # k)) \<longleftrightarrow> frame_color f = RB_RED"
  by (cases f rule: frame_color.cases; cases "case f of In_Left n _ \<Rightarrow> n | In_Right _ n \<Rightarrow> n") (auto simp: is_red_def)

lemma red_focus_path: "red_focus h0 N xs h k a \<Longrightarrow> path_at h (Elem a) k \<and> RB_PARENT h (Elem a) = Inr (up k) \<and> path_colors k \<and> a \<notin> on_path k"
  unfolding red_focus_def holds_focus by (auto simp: RB_PARENT_def on_path_def)

text \<open>What the loop ends with: a tree of the same elements, in balance but perhaps for a red root.\<close>

definition near_balance :: "rb_heap \<Rightarrow> nat set \<Rightarrow> nat list \<Rightarrow> rb_heap \<Rightarrow> bool" where
  "near_balance h0 N xs h \<longleftrightarrow> (\<exists>t. holds h0 N h t \<and> no_two_reds t \<and> even t \<and> elems t = xs)"

lemma red_focus_stops: "red_focus h0 N xs h k a \<Longrightarrow> k = [] \<or> black_above k \<Longrightarrow> near_balance h0 N xs h"
proof -
  assume F: "red_focus h0 N xs h k a" and k: "k = [] \<or> black_above k"
  then obtain l r where H: "holds h0 N h (plug k (Node l (a, RB_RED) r))" "path_colors k" "no_two_reds (Node l (a, RB_RED) r)"
    "even (plug k (Node l (a, RB_RED) r))" "elems (plug k (Node l (a, RB_RED) r)) = xs" unfolding red_focus_def by blast
  have "no_two_reds (plug k (Node l (a, RB_RED) r))" by (rule no_two_reds_plug(1) [OF H(2,3) _ k]) simp
  then show ?thesis using H(1,4,5) unfolding near_balance_def by blast
qed

lemma insert_color_loop_returns:
  "red_focus h0 N xs h k a \<Longrightarrow> \<exists>h'. insert_color_loop (Elem a) h = ret h' \<and> near_balance h0 N xs h'"
proof (induction "length k" arbitrary: k h a rule: less_induct)
  case less
  note F = red_focus_path [OF less.prems]
  show ?case
  proof (cases "k = [] \<or> black_above k")
    case True
    then have "\<not> is_red h (up k)" using F is_red_up [of h "Elem a"] by (cases k) (auto simp: is_red_def)
    then have "insert_color_loop (Elem a) h = ret h" using F by (subst insert_color_loop.simps) simp
    then show ?thesis using red_focus_stops [OF less.prems True] by blast
  next
    case False
    then obtain f k1 where k: "k = f # k1" by (cases k) auto
    then have f: "frame_color f = RB_RED" "black_above k1" using False F by auto
    then obtain f2 k2 where k1: "k1 = f2 # k2" by (cases k1) auto
    have red: "is_red h (up k)" using F is_red_up [of h "Elem a"] f(1) unfolding k by blast
    have par: "RB_PARENT h (up k) = Inr (up k1)"
      using F by (cases f) (auto simp: k RB_PARENT_def)
    have p1: "path_at h (up k) k1" using F by (cases f) (auto simp: k)
    have go: "\<exists>h'. insert_color_loop (Elem a) h = ret h' \<and> near_balance h0 N xs h'" if "red_focus h0 N xs h' k' a'" "length k' < Suc (Suc (length k2))"
      "insert_color_loop (Elem a) h = insert_color_loop (Elem a') h'" for h' k' a'
      using less.hyps [OF _ that(1)] that(2,3) by (simp add: k k1)
    show ?thesis
    proof (cases f2)
      case (In_Left n u)
      then obtain g where n: "f2 = In_Left (g, RB_BLACK) u" using f(2) by (cases n) (simp add: k1)
      obtain a' h' k' where t: "insert_color_left (Elem a) (up k) (Elem g) h = Inr (Elem a', h')"
        "red_focus h0 N xs h' k' a'" "length k' < Suc (Suc (length k2))"
        using insert_turn_left [of h0 N xs h f g u k2 a] less.prems f(1) by (cases f) (auto simp: k k1 n)
      have "RB_LEFT h (Elem g) = Inr (up k)" using p1 by (auto simp: k1 n RB_LEFT_def)
      then have "insert_color_loop (Elem a) h = insert_color_loop (Elem a') h'"
        using F red par t(1) by (subst insert_color_loop.simps) (simp add: k1 n)
      then show ?thesis by (rule go [OF t(2,3)])
    next
      case (In_Right u n)
      then obtain g where n: "f2 = In_Right u (g, RB_BLACK)" using f(2) by (cases n) (simp add: k1)
      obtain a' h' k' where t: "insert_color_right (Elem a) (up k) (Elem g) h = Inr (Elem a', h')"
        "red_focus h0 N xs h' k' a'" "length k' < Suc (Suc (length k2))"
        using insert_turn_right [of h0 N xs h f u g k2 a] less.prems f(1) by (cases f) (auto simp: k k1 n)
      obtain p where p: "up k = Elem p" by (cases f) (simp_all add: k)
      have "p \<notin> set (elems u)"
        using less.prems unfolding red_focus_def holds_focus by (cases f) (use p in \<open>auto simp: k k1 n\<close>)
      then have "ptr_of u \<noteq> up k" using ptr_of_elem [of u p] p by auto
      moreover have "RB_LEFT h (Elem g) = Inr (ptr_of u)" using p1 by (auto simp: k1 n RB_LEFT_def)
      ultimately have "insert_color_loop (Elem a) h = insert_color_loop (Elem a') h'"
        using F red par t(1) by (subst insert_color_loop.simps) (simp add: k1 n)
      then show ?thesis by (rule go [OF t(2,3)])
    qed
  qed
qed

text \<open>Painting the root black restores the balance.\<close>

definition in_balance :: "rb_heap \<Rightarrow> nat set \<Rightarrow> nat list \<Rightarrow> rb_heap \<Rightarrow> bool" where
  "in_balance h0 N xs h \<longleftrightarrow> (\<exists>t. holds h0 N h t \<and> balanced t \<and> elems t = xs)"

lemma near_balance_blacken:
  assumes "near_balance h0 N xs h" and "xs \<noteq> []"
  shows "\<exists>h'. to_color (rbh_root h) RB_BLACK h = Inr h' \<and> in_balance h0 N xs h'"
proof -
  obtain t where t: "holds h0 N h t" "no_two_reds t" "even t" "elems t = xs" using assms(1) unfolding near_balance_def by blast
  then obtain l a c r where n: "t = Node l (a, c) r" using assms(2) by (cases t rule: ptr_of.cases) auto
  obtain h' where "to_color (Elem a) RB_BLACK h = Inr h'" "holds h0 N h' (Node l (a, RB_BLACK) r)"
    using to_color_focus [of h0 N h "[]" l a c r RB_BLACK] t(1) by (auto simp: n)
  moreover have "balanced (Node l (a, RB_BLACK) r)" by (rule balanced_blacken [of l a c r]) (use t n in auto)
  ultimately show ?thesis using holds_root [OF t(1)] t(4) unfolding in_balance_def by (auto simp: n)
qed

lemma RB_INSERT_COLOR_returns:
  assumes "red_focus h0 N xs h k a"
  shows "\<exists>h'. RB_INSERT_COLOR (Elem a) h = ret h' \<and> in_balance h0 N xs h'"
proof -
  obtain h1 where h1: "insert_color_loop (Elem a) h = ret h1" "near_balance h0 N xs h1"
    using insert_color_loop_returns [OF assms] by blast
  have "xs \<noteq> []" using assms unfolding red_focus_def by auto
  with near_balance_blacken [OF h1(2)] obtain h' where "to_color (rbh_root h1) RB_BLACK h1 = Inr h'" "in_balance h0 N xs h'" by blast
  then show ?thesis by (auto simp: RB_INSERT_COLOR_def h1(1))
qed

end
