(* ===== verification/RB_Recolor.thy ===== *)
theory RB_Recolor
  imports RB_Insert
begin

text \<open>
  The recolouring loop after a removal: the tree in focus is one black node short; every turn either moves
  the shortage one level up or ends the loop with a balanced tree of the same elements.
\<close>

section \<open>A focus that is short of a black node\<close>

fun blacken :: "rbtree \<Rightarrow> rbtree" where
  "blacken Leaf = Leaf"
| "blacken (Node l (a, c) r) = Node l (a, RB_BLACK) r"

definition short_focus :: "rb_heap \<Rightarrow> nat set \<Rightarrow> nat list \<Rightarrow> rb_heap \<Rightarrow> frame list \<Rightarrow> rbtree \<Rightarrow> bool" where
  "short_focus h0 N xs h k t \<longleftrightarrow> holds h0 N h (plug k t) \<and> path_colors k \<and> no_two_reds (blacken t) \<and>
     (color_of t = RB_BLACK \<or> color_of t = RB_RED) \<and> even t \<and> path_even (Suc (blacks t)) k \<and> elems (plug k t) = xs"

lemma blacken_black: "color_of t = RB_BLACK \<Longrightarrow> blacken t = t"
  by (cases t rule: ptr_of.cases) auto

lemma blacken_simps [simp]: "ptr_of (blacken t) = ptr_of t" "elems (blacken t) = elems t" "even (blacken t) = even t"
  "color_of (blacken t) = RB_BLACK"
  by (cases t rule: ptr_of.cases; simp)+

lemma blacken_blacks: "color_of t = RB_RED \<Longrightarrow> blacks (blacken t) = Suc (blacks t)"
  by (cases t rule: ptr_of.cases) auto

lemma blacken_focus:
  assumes "holds h0 N h (plug k t)" and "t \<noteq> Leaf"
  shows "\<exists>h'. to_color (ptr_of t) RB_BLACK h = Inr h' \<and> holds h0 N h' (plug k (blacken t))"
  using assms to_color_focus by (cases t rule: ptr_of.cases) auto

text \<open>A node with children that are where its own path says, painted with one colour after another.\<close>

lemma to_color_left:
  assumes "holds h0 N h (plug k (Node (Node x (b, d) y) (a, c) z))"
  shows "\<exists>h'. to_color (Elem b) v h = Inr h' \<and> holds h0 N h' (plug k (Node (Node x (b, v) y) (a, c) z))"
  using to_color_focus [of h0 N h "In_Left (a, c) z # k" x b d y v] assms by simp

lemma to_color_right:
  assumes "holds h0 N h (plug k (Node z (a, c) (Node x (b, d) y)))"
  shows "\<exists>h'. to_color (Elem b) v h = Inr h' \<and> holds h0 N h' (plug k (Node z (a, c) (Node x (b, v) y)))"
  using to_color_focus [of h0 N h "In_Right z (a, c) # k" x b d y v] assms by simp

section \<open>The last steps\<close>

text \<open>In both cases the new top of the focus takes over the colour of the old one and has two black children.\<close>

lemma ends_balanced:
  assumes H: "holds h0 N h (plug k (Node l (b, c) r))" and k: "path_colors k" "c = RB_BLACK \<or> c = RB_RED \<and> black_above k"
    and l: "no_two_reds l" "even l" "color_of l = RB_BLACK" and r: "no_two_reds r" "even r" "color_of r = RB_BLACK"
    and e: "blacks l = blacks r" "path_even (blacks l + (if c = RB_BLACK then 1 else 0)) k" and xs: "elems (plug k (Node l (b, c) r)) = xs"
  shows "in_balance h0 N xs h"
proof -
  have "balanced (plug k (Node l (b, c) r))" by (rule balanced_plug) (use k l r e in auto)
  then show ?thesis using H xs unfolding in_balance_def by blast
qed

lemma left_last:
  assumes H: "holds h0 N h (plug k (Node t (p, c) (Node x (w, d) (Node y (z, e) u))))"
  shows "\<exists>h'. remove_color_left_last (Elem p) (Elem w) h = Inr h' \<and>
    holds h0 N h' (plug k (Node (Node t (p, RB_BLACK) x) (w, c) (Node y (z, RB_BLACK) u)))"
proof -
  obtain h1 where h1: "to_color (Elem w) c h = Inr h1" "holds h0 N h1 (plug k (Node t (p, c) (Node x (w, c) (Node y (z, e) u))))"
    using to_color_right [OF H] by blast
  obtain h2 where h2: "to_color (Elem p) RB_BLACK h1 = Inr h2" "holds h0 N h2 (plug k (Node t (p, RB_BLACK) (Node x (w, c) (Node y (z, e) u))))"
    using to_color_focus [OF h1(2)] by blast
  have h2': "holds h0 N h2 (plug (In_Right t (p, RB_BLACK) # k) (Node x (w, c) (Node y (z, e) u)))" using h2(2) by simp
  obtain h3 where h3: "to_color (Elem z) RB_BLACK h2 = Inr h3" "holds h0 N h3 (plug k (Node t (p, RB_BLACK) (Node x (w, c) (Node y (z, RB_BLACK) u))))"
    using to_color_right [OF h2'] by auto
  show ?thesis
    using holds_reads(4) [OF H] h1(1) h2(1) holds_reads(2) [OF h2'] h3(1) rotate_left_focus [OF h3(2)]
    by (auto simp: remove_color_left_last_def)
qed

lemma left_end:
  assumes F: "short_focus h0 N xs h (In_Left (p, c) (Node sl (w, RB_BLACK) sr) # k) t" and t: "color_of t = RB_BLACK"
    and red: "color_of sl \<noteq> RB_BLACK \<or> color_of sr \<noteq> RB_BLACK"
  shows "\<exists>h'. remove_color_left_end (Elem p) (Elem w) h = Inr h' \<and> in_balance h0 N xs h'"
proof -
  have H: "holds h0 N h (plug k (Node t (p, c) (Node sl (w, RB_BLACK) sr)))" and k: "path_colors k" "c = RB_BLACK \<or> c = RB_RED \<and> black_above k"
    and s: "no_two_reds sl" "no_two_reds sr" "even sl" "even sr" "blacks sl = blacks t" "blacks sr = blacks t"
    and e: "path_even (Suc (blacks t) + (if c = RB_BLACK then 1 else 0)) k"
    and xs: "elems (plug k (Node t (p, c) (Node sl (w, RB_BLACK) sr))) = xs" and nt: "no_two_reds t" "even t"
    using F t unfolding short_focus_def by (auto simp: blacken_black)
  have W: "holds h0 N h (plug (In_Right t (p, c) # k) (Node sl (w, RB_BLACK) sr))" using H by simp
  have FAR: "none_or_black h (ptr_of sr) \<longleftrightarrow> color_of sr = RB_BLACK"
    using colors_read(2) [of h0 N h "In_Right sl (w, RB_BLACK) # In_Right t (p, c) # k" sr] H by simp
  show ?thesis
  proof (cases "color_of sr = RB_BLACK")
    case False
    then obtain y z u where sr: "sr = Node y (z, RB_RED) u" using no_two_reds_color [OF s(2)] by (cases sr rule: ptr_of.cases) auto
    obtain h' where h': "remove_color_left_last (Elem p) (Elem w) h = Inr h'"
      "holds h0 N h' (plug k (Node (Node t (p, RB_BLACK) sl) (w, c) (Node y (z, RB_BLACK) u)))"
      using left_last [OF H [unfolded sr]] by blast
    have "in_balance h0 N xs h'"
      by (rule ends_balanced [OF h'(2) k]) (use s e nt t xs in \<open>auto simp: sr\<close>)
    then show ?thesis using holds_reads(2) [OF W] FAR False h'(1) by (simp add: remove_color_left_end_def)
  next
    case True
    then obtain y z u where sl: "sl = Node y (z, RB_RED) u"
      using red no_two_reds_color [OF s(1)] by (cases sl rule: ptr_of.cases) auto
    have Z: "holds h0 N h (plug (In_Right t (p, c) # k) (Node (Node y (z, RB_RED) u) (w, RB_BLACK) sr))" using W sl by simp
    obtain h1 where h1: "to_color (Elem z) RB_BLACK h = Inr h1"
      "holds h0 N h1 (plug (In_Right t (p, c) # k) (Node (Node y (z, RB_BLACK) u) (w, RB_BLACK) sr))"
      using to_color_left [OF Z] by blast
    obtain h2 where h2: "to_color (Elem w) RB_RED h1 = Inr h2"
      "holds h0 N h2 (plug (In_Right t (p, c) # k) (Node (Node y (z, RB_BLACK) u) (w, RB_RED) sr))"
      using to_color_focus [OF h1(2)] by blast
    obtain h3 where h3: "RB_ROTATE_RIGHT (Elem w) h2 = Inr (Elem z, h3)"
      "holds h0 N h3 (plug k (Node t (p, c) (Node y (z, RB_BLACK) (Node u (w, RB_RED) sr))))"
      using rotate_right_focus [OF h2(2)] by auto
    obtain h' where h': "remove_color_left_last (Elem p) (Elem z) h3 = Inr h'"
      "holds h0 N h' (plug k (Node (Node t (p, RB_BLACK) y) (z, c) (Node u (w, RB_BLACK) sr)))"
      using left_last [OF h3(2)] by blast
    have "in_balance h0 N xs h'"
      by (rule ends_balanced [OF h'(2) k]) (use s e nt t xs True in \<open>auto simp: sl\<close>)
    then show ?thesis
      using holds_reads(2,1) [OF W] FAR True h1(1) h2(1) h3(1) holds_reads(2) [OF h3(2)] h'(1)
      by (simp add: remove_color_left_end_def sl)
  qed
qed

lemma left_black:
  assumes F: "short_focus h0 N xs h (In_Left (p, c) (Node sl (w, RB_BLACK) sr) # k) t" and t: "color_of t = RB_BLACK"
  shows "\<exists>pe h'. remove_color_left_black (Elem p) (Elem w) h = Inr (pe, h') \<and>
    (pe = None \<and> in_balance h0 N xs h' \<or> pe = Some (up k, Elem p) \<and> short_focus h0 N xs h' k (Node t (p, c) (Node sl (w, RB_RED) sr)))"
proof -
  have H: "holds h0 N h (plug k (Node t (p, c) (Node sl (w, RB_BLACK) sr)))" using F unfolding short_focus_def by simp
  have W: "holds h0 N h (plug (In_Right t (p, c) # k) (Node sl (w, RB_BLACK) sr))" using H by simp
  have colors: "none_or_black h (ptr_of sl) \<longleftrightarrow> color_of sl = RB_BLACK" "none_or_black h (ptr_of sr) \<longleftrightarrow> color_of sr = RB_BLACK"
    using colors_read(2) [of h0 N h "In_Left (w, RB_BLACK) sr # In_Right t (p, c) # k" sl]
      colors_read(2) [of h0 N h "In_Right sl (w, RB_BLACK) # In_Right t (p, c) # k" sr] H by simp_all
  show ?thesis
  proof (cases "color_of sl = RB_BLACK \<and> color_of sr = RB_BLACK")
    case True
    obtain h1 where h1: "to_color (Elem w) RB_RED h = Inr h1" "holds h0 N h1 (plug k (Node t (p, c) (Node sl (w, RB_RED) sr)))"
      using to_color_right [OF H] by blast
    have "short_focus h0 N xs h1 k (Node t (p, c) (Node sl (w, RB_RED) sr))"
      using F t True h1(2) unfolding short_focus_def by (auto simp: blacken_black)
    then show ?thesis
      using holds_reads(1,2) [OF W] colors True h1(1) holds_reads(3) [OF h1(2)] by (simp add: remove_color_left_black_def)
  next
    case False
    then show ?thesis
      using holds_reads(1,2) [OF W] colors left_end [OF F t] by (auto simp: remove_color_left_black_def)
  qed
qed

lemma right_last:
  assumes H: "holds h0 N h (plug k (Node (Node (Node u (z, e) y) (w, d) x) (p, c) t))"
  shows "\<exists>h'. remove_color_right_last (Elem p) (Elem w) h = Inr h' \<and>
    holds h0 N h' (plug k (Node (Node u (z, RB_BLACK) y) (w, c) (Node x (p, RB_BLACK) t)))"
proof -
  obtain h1 where h1: "to_color (Elem w) c h = Inr h1" "holds h0 N h1 (plug k (Node (Node (Node u (z, e) y) (w, c) x) (p, c) t))"
    using to_color_left [OF H] by blast
  obtain h2 where h2: "to_color (Elem p) RB_BLACK h1 = Inr h2" "holds h0 N h2 (plug k (Node (Node (Node u (z, e) y) (w, c) x) (p, RB_BLACK) t))"
    using to_color_focus [OF h1(2)] by blast
  have h2': "holds h0 N h2 (plug (In_Left (p, RB_BLACK) t # k) (Node (Node u (z, e) y) (w, c) x))" using h2(2) by simp
  obtain h3 where h3: "to_color (Elem z) RB_BLACK h2 = Inr h3" "holds h0 N h3 (plug k (Node (Node (Node u (z, RB_BLACK) y) (w, c) x) (p, RB_BLACK) t))"
    using to_color_left [OF h2'] by auto
  show ?thesis
    using holds_reads(4) [OF H] h1(1) h2(1) holds_reads(1) [OF h2'] h3(1) rotate_right_focus [OF h3(2)]
    by (auto simp: remove_color_right_last_def)
qed

lemma right_end:
  assumes F: "short_focus h0 N xs h (In_Right (Node sr (w, RB_BLACK) sl) (p, c) # k) t" and t: "color_of t = RB_BLACK"
    and red: "color_of sl \<noteq> RB_BLACK \<or> color_of sr \<noteq> RB_BLACK"
  shows "\<exists>h'. remove_color_right_end (Elem p) (Elem w) h = Inr h' \<and> in_balance h0 N xs h'"
proof -
  have H: "holds h0 N h (plug k (Node (Node sr (w, RB_BLACK) sl) (p, c) t))" and k: "path_colors k" "c = RB_BLACK \<or> c = RB_RED \<and> black_above k"
    and s: "no_two_reds sl" "no_two_reds sr" "even sl" "even sr" "blacks sl = blacks t" "blacks sr = blacks t"
    and e: "path_even (Suc (blacks t) + (if c = RB_BLACK then 1 else 0)) k"
    and xs: "elems (plug k (Node (Node sr (w, RB_BLACK) sl) (p, c) t)) = xs" and nt: "no_two_reds t" "even t"
    using F t unfolding short_focus_def by (auto simp: blacken_black)
  have W: "holds h0 N h (plug (In_Left (p, c) t # k) (Node sr (w, RB_BLACK) sl))" using H by simp
  have FAR: "none_or_black h (ptr_of sr) \<longleftrightarrow> color_of sr = RB_BLACK"
    using colors_read(2) [of h0 N h "In_Left (w, RB_BLACK) sl # In_Left (p, c) t # k" sr] H by simp
  show ?thesis
  proof (cases "color_of sr = RB_BLACK")
    case False
    then obtain y z u where sr: "sr = Node u (z, RB_RED) y" using no_two_reds_color [OF s(2)] by (cases sr rule: ptr_of.cases) auto
    obtain h' where h': "remove_color_right_last (Elem p) (Elem w) h = Inr h'"
      "holds h0 N h' (plug k (Node (Node u (z, RB_BLACK) y) (w, c) (Node sl (p, RB_BLACK) t)))"
      using right_last [OF H [unfolded sr]] by blast
    have "in_balance h0 N xs h'"
      by (rule ends_balanced [OF h'(2) k]) (use s e nt t xs in \<open>auto simp: sr\<close>)
    then show ?thesis using holds_reads(1) [OF W] FAR False h'(1) by (simp add: remove_color_right_end_def)
  next
    case True
    then obtain y z u where sl: "sl = Node u (z, RB_RED) y"
      using red no_two_reds_color [OF s(1)] by (cases sl rule: ptr_of.cases) auto
    have Z: "holds h0 N h (plug (In_Left (p, c) t # k) (Node sr (w, RB_BLACK) (Node u (z, RB_RED) y)))" using W sl by simp
    obtain h1 where h1: "to_color (Elem z) RB_BLACK h = Inr h1"
      "holds h0 N h1 (plug (In_Left (p, c) t # k) (Node sr (w, RB_BLACK) (Node u (z, RB_BLACK) y)))"
      using to_color_right [OF Z] by blast
    obtain h2 where h2: "to_color (Elem w) RB_RED h1 = Inr h2"
      "holds h0 N h2 (plug (In_Left (p, c) t # k) (Node sr (w, RB_RED) (Node u (z, RB_BLACK) y)))"
      using to_color_focus [OF h1(2)] by blast
    obtain h3 where h3: "RB_ROTATE_LEFT (Elem w) h2 = Inr (Elem z, h3)"
      "holds h0 N h3 (plug k (Node (Node (Node sr (w, RB_RED) u) (z, RB_BLACK) y) (p, c) t))"
      using rotate_left_focus [OF h2(2)] by auto
    obtain h' where h': "remove_color_right_last (Elem p) (Elem z) h3 = Inr h'"
      "holds h0 N h' (plug k (Node (Node sr (w, RB_BLACK) u) (z, c) (Node y (p, RB_BLACK) t)))"
      using right_last [OF h3(2)] by blast
    have "in_balance h0 N xs h'"
      by (rule ends_balanced [OF h'(2) k]) (use s e nt t xs True in \<open>auto simp: sl\<close>)
    then show ?thesis
      using holds_reads(1,2) [OF W] FAR True h1(1) h2(1) h3(1) holds_reads(1) [OF h3(2)] h'(1)
      by (simp add: remove_color_right_end_def sl)
  qed
qed

lemma right_black:
  assumes F: "short_focus h0 N xs h (In_Right (Node sr (w, RB_BLACK) sl) (p, c) # k) t" and t: "color_of t = RB_BLACK"
  shows "\<exists>pe h'. remove_color_right_black (Elem p) (Elem w) h = Inr (pe, h') \<and>
    (pe = None \<and> in_balance h0 N xs h' \<or> pe = Some (up k, Elem p) \<and> short_focus h0 N xs h' k (Node (Node sr (w, RB_RED) sl) (p, c) t))"
proof -
  have H: "holds h0 N h (plug k (Node (Node sr (w, RB_BLACK) sl) (p, c) t))" using F unfolding short_focus_def by simp
  have W: "holds h0 N h (plug (In_Left (p, c) t # k) (Node sr (w, RB_BLACK) sl))" using H by simp
  have colors: "none_or_black h (ptr_of sl) \<longleftrightarrow> color_of sl = RB_BLACK" "none_or_black h (ptr_of sr) \<longleftrightarrow> color_of sr = RB_BLACK"
    using colors_read(2) [of h0 N h "In_Right sr (w, RB_BLACK) # In_Left (p, c) t # k" sl]
      colors_read(2) [of h0 N h "In_Left (w, RB_BLACK) sl # In_Left (p, c) t # k" sr] H by simp_all
  show ?thesis
  proof (cases "color_of sl = RB_BLACK \<and> color_of sr = RB_BLACK")
    case True
    obtain h1 where h1: "to_color (Elem w) RB_RED h = Inr h1" "holds h0 N h1 (plug k (Node (Node sr (w, RB_RED) sl) (p, c) t))"
      using to_color_left [OF H] by blast
    have "short_focus h0 N xs h1 k (Node (Node sr (w, RB_RED) sl) (p, c) t)"
      using F t True h1(2) unfolding short_focus_def by (auto simp: blacken_black)
    then show ?thesis
      using holds_reads(1,2) [OF W] colors True h1(1) holds_reads(3) [OF h1(2)] by (simp add: remove_color_right_black_def)
  next
    case False
    then show ?thesis
      using holds_reads(1,2) [OF W] colors right_end [OF F t] by (auto simp: remove_color_right_black_def)
  qed
qed

section \<open>The loop\<close>

text \<open>A red focus ends the loop; a black one is a level higher after each turn, or red.\<close>

definition shortage :: "frame list \<Rightarrow> rbtree \<Rightarrow> nat" where
  "shortage k t = 2 * length k + (if color_of t = RB_BLACK then 1 else 0)"

lemma left_turn_removed:
  assumes F: "short_focus h0 N xs h (In_Left (p, c) s # k) t" and t: "color_of t = RB_BLACK"
  shows "\<exists>pe h'. remove_color_left (Elem p) h = Inr (pe, h') \<and>
    (pe = None \<and> in_balance h0 N xs h' \<or>
     (\<exists>k' t'. pe = Some (up k', ptr_of t') \<and> short_focus h0 N xs h' k' t' \<and> shortage k' t' < shortage (In_Left (p, c) s # k) t))"
proof -
  have H: "holds h0 N h (plug k (Node t (p, c) s))" and s: "no_two_reds s" "blacks s = Suc (blacks t)" "even s"
    and c: "c = RB_BLACK \<or> c = RB_RED \<and> color_of s = RB_BLACK"
    using F unfolding short_focus_def by auto
  obtain sl w cw sr where n: "s = Node sl (w, cw) sr" using s(2) by (cases s rule: ptr_of.cases) auto
  have W: "holds h0 N h (plug (In_Right t (p, c) # k) s)" using H by simp
  note reads = holds_reads(2) [OF H] holds_reads(4) [OF W [unfolded n]]
  show ?thesis
  proof (cases "cw = RB_RED")
    case False
    then have cw: "cw = RB_BLACK" using s(1) by (simp add: n)
    obtain pe h' where h': "remove_color_left_black (Elem p) (Elem w) h = Inr (pe, h')"
      "pe = None \<and> in_balance h0 N xs h' \<or> pe = Some (up k, Elem p) \<and> short_focus h0 N xs h' k (Node t (p, c) (Node sl (w, RB_RED) sr))"
      using left_black [OF F [unfolded n cw] t] by blast
    have "remove_color_left (Elem p) h = Inr (pe, h')" using reads h'(1) by (simp add: remove_color_left_def n cw)
    moreover have "shortage k (Node t (p, c) (Node sl (w, RB_RED) sr)) < shortage (In_Left (p, c) s # k) t" using t by (simp add: shortage_def)
    ultimately show ?thesis using h'(2) by fastforce
  next
    case True
    have cb: "c = RB_BLACK" using c by (simp add: n True)
    obtain h1 where h1: "RB_SET_BLACKRED (Elem w) (Elem p) h = Inr h1" "holds h0 N h1 (plug k (Node t (p, RB_RED) (Node sl (w, RB_BLACK) sr)))"
      using set_blackred_child' [OF H [unfolded n]] by blast
    obtain h2 where h2: "RB_ROTATE_LEFT (Elem p) h1 = Inr (Elem w, h2)"
      "holds h0 N h2 (plug k (Node (Node t (p, RB_RED) sl) (w, RB_BLACK) sr))" using rotate_left_focus [OF h1(2)] by blast
    have F2: "short_focus h0 N xs h2 (In_Left (p, RB_RED) sl # In_Left (w, RB_BLACK) sr # k) t"
      using F h2(2) unfolding short_focus_def by (auto simp: n True cb)
    have "sl \<noteq> Leaf" "color_of sl = RB_BLACK" using s by (auto simp: n True)
    then obtain x v y where sl: "sl = Node x (v, RB_BLACK) y" by (cases sl rule: ptr_of.cases) auto
    have P: "holds h0 N h2 (plug (In_Left (w, RB_BLACK) sr # k) (Node t (p, RB_RED) sl))" using h2(2) by simp
    obtain pe h' where h': "remove_color_left_black (Elem p) (Elem v) h2 = Inr (pe, h')"
      "pe = None \<and> in_balance h0 N xs h' \<or> pe = Some (up (In_Left (w, RB_BLACK) sr # k), Elem p) \<and>
        short_focus h0 N xs h' (In_Left (w, RB_BLACK) sr # k) (Node t (p, RB_RED) (Node x (v, RB_RED) y))"
      using left_black [OF F2 [unfolded sl] t] by blast
    have "remove_color_left (Elem p) h = Inr (pe, h')"
      using reads holds_reads(2) [OF P] h1(1) h2(1) h'(1) by (simp add: remove_color_left_def n True sl)
    moreover have "shortage (In_Left (w, RB_BLACK) sr # k) (Node t (p, RB_RED) (Node x (v, RB_RED) y)) < shortage (In_Left (p, c) s # k) t"
      using t by (simp add: shortage_def)
    ultimately show ?thesis using h'(2) by fastforce
  qed
qed

lemma right_turn_removed:
  assumes F: "short_focus h0 N xs h (In_Right s (p, c) # k) t" and t: "color_of t = RB_BLACK"
  shows "\<exists>pe h'. remove_color_right (Elem p) h = Inr (pe, h') \<and>
    (pe = None \<and> in_balance h0 N xs h' \<or>
     (\<exists>k' t'. pe = Some (up k', ptr_of t') \<and> short_focus h0 N xs h' k' t' \<and> shortage k' t' < shortage (In_Right s (p, c) # k) t))"
proof -
  have H: "holds h0 N h (plug k (Node s (p, c) t))" and s: "no_two_reds s" "blacks s = Suc (blacks t)" "even s"
    and c: "c = RB_BLACK \<or> c = RB_RED \<and> color_of s = RB_BLACK"
    using F unfolding short_focus_def by auto
  obtain sl w cw sr where n: "s = Node sr (w, cw) sl" using s(2) by (cases s rule: ptr_of.cases) auto
  have W: "holds h0 N h (plug (In_Left (p, c) t # k) s)" using H by simp
  note reads = holds_reads(1) [OF H] holds_reads(4) [OF W [unfolded n]]
  show ?thesis
  proof (cases "cw = RB_RED")
    case False
    then have cw: "cw = RB_BLACK" using s(1) by (simp add: n)
    obtain pe h' where h': "remove_color_right_black (Elem p) (Elem w) h = Inr (pe, h')"
      "pe = None \<and> in_balance h0 N xs h' \<or> pe = Some (up k, Elem p) \<and> short_focus h0 N xs h' k (Node (Node sr (w, RB_RED) sl) (p, c) t)"
      using right_black [OF F [unfolded n cw] t] by blast
    have "remove_color_right (Elem p) h = Inr (pe, h')" using reads h'(1) by (simp add: remove_color_right_def n cw)
    moreover have "shortage k (Node (Node sr (w, RB_RED) sl) (p, c) t) < shortage (In_Right s (p, c) # k) t" using t by (simp add: shortage_def)
    ultimately show ?thesis using h'(2) by fastforce
  next
    case True
    have cb: "c = RB_BLACK" using c by (simp add: n True)
    obtain h1 where h1: "RB_SET_BLACKRED (Elem w) (Elem p) h = Inr h1" "holds h0 N h1 (plug k (Node (Node sr (w, RB_BLACK) sl) (p, RB_RED) t))"
      using set_blackred_child [OF H [unfolded n]] by blast
    obtain h2 where h2: "RB_ROTATE_RIGHT (Elem p) h1 = Inr (Elem w, h2)"
      "holds h0 N h2 (plug k (Node sr (w, RB_BLACK) (Node sl (p, RB_RED) t)))" using rotate_right_focus [OF h1(2)] by blast
    have F2: "short_focus h0 N xs h2 (In_Right sl (p, RB_RED) # In_Right sr (w, RB_BLACK) # k) t"
      using F h2(2) unfolding short_focus_def by (auto simp: n True cb)
    have "sl \<noteq> Leaf" "color_of sl = RB_BLACK" using s by (auto simp: n True)
    then obtain x v y where sl: "sl = Node y (v, RB_BLACK) x" by (cases sl rule: ptr_of.cases) auto
    have P: "holds h0 N h2 (plug (In_Right sr (w, RB_BLACK) # k) (Node sl (p, RB_RED) t))" using h2(2) by simp
    obtain pe h' where h': "remove_color_right_black (Elem p) (Elem v) h2 = Inr (pe, h')"
      "pe = None \<and> in_balance h0 N xs h' \<or> pe = Some (up (In_Right sr (w, RB_BLACK) # k), Elem p) \<and>
        short_focus h0 N xs h' (In_Right sr (w, RB_BLACK) # k) (Node (Node y (v, RB_RED) x) (p, RB_RED) t)"
      using right_black [OF F2 [unfolded sl] t] by blast
    have "remove_color_right (Elem p) h = Inr (pe, h')"
      using reads holds_reads(1) [OF P] h1(1) h2(1) h'(1) by (simp add: remove_color_right_def n True sl)
    moreover have "shortage (In_Right sr (w, RB_BLACK) # k) (Node (Node y (v, RB_RED) x) (p, RB_RED) t) < shortage (In_Right s (p, c) # k) t"
      using t by (simp add: shortage_def)
    ultimately show ?thesis using h'(2) by fastforce
  qed
qed

lemma in_balanceI: "holds h0 N h t \<Longrightarrow> balanced t \<Longrightarrow> elems t = xs \<Longrightarrow> in_balance h0 N xs h"
  unfolding in_balance_def by blast

lemma short_focus_stops:
  assumes F: "short_focus h0 N xs h k t" and stop: "color_of t = RB_RED \<or> k = []"
  shows "\<exists>h'. (if ptr_of t \<noteq> NULL then run (to_color (ptr_of t) RB_BLACK h) ret else ret h) = ret h' \<and> in_balance h0 N xs h'"
proof -
  have bal: "balanced (plug k (blacken t))"
  proof (rule balanced_plug)
    show "path_even (blacks (blacken t)) k"
      using F stop unfolding short_focus_def by (auto simp: blacken_blacks)
  qed (use F in \<open>auto simp: short_focus_def\<close>)
  have H: "holds h0 N h (plug k t)" "elems (plug k (blacken t)) = xs" using F unfolding short_focus_def by simp_all
  show ?thesis
  proof (cases "t = Leaf")
    case True
    then show ?thesis using bal H unfolding in_balance_def by auto
  next
    case False
    from blacken_focus [OF H(1) this] obtain h' where h': "to_color (ptr_of t) RB_BLACK h = Inr h'" "holds h0 N h' (plug k (blacken t))" by blast
    show ?thesis using in_balanceI [OF h'(2) bal H(2)] h'(1) False by simp
  qed
qed

lemma focus_is_root: "holds h0 N h (plug k t) \<Longrightarrow> ptr_of t = RB_ROOT h \<longleftrightarrow> k = []"
proof
  assume H: "holds h0 N h (plug k t)" and e: "ptr_of t = RB_ROOT h"
  have root: "RB_ROOT h = ptr_of (plug k t)" using H by (simp add: holds_def RB_ROOT_def)
  show "k = []"
  proof (rule ccontr)
    assume "k \<noteq> []"
    then obtain f k' where k: "k = k' @ [f]" by (metis rev_exhaust)
    have "ptr_of (plug k t) \<noteq> ptr_of t"
    proof (cases f)
      case (In_Left n r)
      then have "fst n \<notin> set (elems t)" using H by (auto simp: holds_def k plug_append)
      then show ?thesis using ptr_of_elem [of t "fst n"] In_Left by (cases n) (auto simp: k plug_append)
    next
      case (In_Right l n)
      then have "fst n \<notin> set (elems t)" using H by (auto simp: holds_def k plug_append)
      then show ?thesis using ptr_of_elem [of t "fst n"] In_Right by (cases n) (auto simp: k plug_append)
    qed
    then show False using e root by simp
  qed
qed (simp add: holds_def RB_ROOT_def)

lemma black_root_painted:
  assumes "in_balance h0 N xs h"
  shows "\<exists>h'. (if RB_ROOT h \<noteq> NULL then run (to_color (RB_ROOT h) RB_BLACK h) ret else ret h) = ret h' \<and> in_balance h0 N xs h'"
proof -
  obtain t where t: "holds h0 N h t" "balanced t" "elems t = xs" using assms unfolding in_balance_def by blast
  have "RB_ROOT h = ptr_of t" using t(1) by (simp add: holds_def RB_ROOT_def)
  moreover have "blacken t = t" using t(2) by (simp add: balanced_def blacken_black)
  ultimately show ?thesis
    using blacken_focus [of h0 N h "[]" t] in_balanceI [OF _ t(2,3), of h0 N] t(1) assms by (cases "t = Leaf") auto
qed

lemma RB_REMOVE_COLOR_returns:
  "short_focus h0 N xs h k t \<Longrightarrow> \<exists>h'. RB_REMOVE_COLOR (up k) (ptr_of t) h = ret h' \<and> in_balance h0 N xs h'"
proof (induction "shortage k t" arbitrary: k t h rule: less_induct)
  case less
  note F = less.prems
  have H: "holds h0 N h (plug k t)" using F unfolding short_focus_def by simp
  show ?case
  proof (cases "color_of t = RB_RED \<or> k = []")
    case True
    then have "remove_color_loop (up k) (ptr_of t) h = ret (ptr_of t, h)"
      using colors_read(2) [OF H] focus_is_root [OF H] by (subst remove_color_loop.simps) auto
    then show ?thesis using short_focus_stops [OF F True] by (simp add: RB_REMOVE_COLOR_def)
  next
    case False
    then obtain f k1 where k: "k = f # k1" by (cases k) auto
    have t: "color_of t = RB_BLACK" using F False unfolding short_focus_def by simp
    have on: "none_or_black h (ptr_of t) \<and> ptr_of t \<noteq> RB_ROOT h" using colors_read(2) [OF H] focus_is_root [OF H] t k by simp
    have go: "\<exists>h'. RB_REMOVE_COLOR (up k) (ptr_of t) h = ret h' \<and> in_balance h0 N xs h'"
      if side: "(if f_left then remove_color_left (up k) h else remove_color_right (up k) h) = Inr (pe, h1)"
        and f: "RB_LEFT h (up k) = Inr q" "q = ptr_of t \<longleftrightarrow> f_left"
        and r: "pe = None \<and> in_balance h0 N xs h1 \<or>
          (\<exists>k' t'. pe = Some (up k', ptr_of t') \<and> short_focus h0 N xs h1 k' t' \<and> shortage k' t' < shortage k t)" for f_left pe h1 q
    proof -
      have l: "remove_color_loop (up k) (ptr_of t) h =
        (case pe of None \<Rightarrow> ret (RB_ROOT h1, h1) | Some pe' \<Rightarrow> remove_color_loop (fst pe') (snd pe') h1)"
        using on side f by (subst remove_color_loop.simps) (auto split: option.split)
      show ?thesis
      proof (cases pe)
        case None
        then show ?thesis using l r black_root_painted [of h0 N xs h1] by (auto simp: RB_REMOVE_COLOR_def)
      next
        case (Some pe')
        then obtain k' t' where n: "pe = Some (up k', ptr_of t')" "short_focus h0 N xs h1 k' t'" "shortage k' t' < shortage k t"
          using r by auto
        then have "RB_REMOVE_COLOR (up k) (ptr_of t) h = RB_REMOVE_COLOR (up k') (ptr_of t') h1"
          using l by (simp add: RB_REMOVE_COLOR_def)
        then show ?thesis using less.hyps [OF n(3,2)] by simp
      qed
    qed
    show ?thesis
    proof (cases f)
      case (In_Left n s)
      obtain p c where n: "f = In_Left (p, c) s" using In_Left by (cases n) simp
      have "RB_LEFT h (up k) = Inr (ptr_of t)" using H by (simp add: k n holds_focus RB_LEFT_def)
      then show ?thesis using left_turn_removed [of h0 N xs h p c s k1 t] F t go [of True] unfolding k n by fastforce
    next
      case (In_Right s n)
      obtain p c where n: "f = In_Right s (p, c)" using In_Right by (cases n) simp
      have l: "RB_LEFT h (up k) = Inr (ptr_of s)" using H by (simp add: k n holds_focus RB_LEFT_def)
      have "s \<noteq> Leaf" using F unfolding short_focus_def by (auto simp: k n)
      then obtain a where a: "ptr_of s = Elem a" "a \<in> set (elems s)" by (cases s rule: ptr_of.cases) auto
      then have "a \<notin> set (elems t)" using H by (auto simp: k n holds_focus)
      then have "ptr_of s \<noteq> ptr_of t" using a ptr_of_elem [of t a] by auto
      then show ?thesis using right_turn_removed [of h0 N xs h s p c k1 t] F t l go [of False] unfolding k n by fastforce
    qed
  qed
qed

end
