(* ===== verification/RB_Ops.thy ===== *)
theory RB_Ops
  imports RB_Insert Key_Order
begin

text \<open>
  The operations of the red-black trees that look for an element, walk, or insert: on an ordered, balanced
  tree they return, and do what the same operation does on the list of the elements.
\<close>

section \<open>Ordered, balanced trees\<close>

text \<open>The abstraction: the head holds a balanced tree of these elements, in strictly increasing order of
  their keys.\<close>

definition rb_tree :: "(nat \<Rightarrow> 'k::linorder) \<Rightarrow> rb_heap \<Rightarrow> nat list \<Rightarrow> bool" where
  "rb_tree key h xs \<longleftrightarrow> sorted_wrt (\<lambda>x y. key x < key y) xs \<and> in_balance h (set xs) xs h"

definition rb_only_changes :: "nat set \<Rightarrow> rb_heap \<Rightarrow> rb_heap \<Rightarrow> bool" where
  "rb_only_changes S h h' \<longleftrightarrow> (\<forall>p. p \<notin> Elem ` S \<longrightarrow>
     rbe_left h' p = rbe_left h p \<and> rbe_right h' p = rbe_right h p \<and> rbe_parent h' p = rbe_parent h p \<and> rbe_color h' p = rbe_color h p)"

lemma rb_only_changes_refl [simp]: "rb_only_changes S h h"
  by (simp add: rb_only_changes_def)

lemma rb_treeD:
  assumes "rb_tree key h xs"
  obtains t where "holds h (set xs) h t" "balanced t" "elems t = xs" "sorted_wrt (\<lambda>x y. key x < key y) xs"
  using assms unfolding rb_tree_def in_balance_def by blast

lemma holds_set: "holds h0 N h t \<Longrightarrow> holds h (set (elems t)) h t"
  by (simp add: holds_def)

lemma holds_mono: "holds h0 N h t \<Longrightarrow> N \<subseteq> N' \<Longrightarrow> holds h0 N' h t"
  unfolding holds_def by (meson image_mono subset_iff)

lemma in_balance_rb_tree:
  assumes "in_balance h0 N xs h" and "sorted_wrt (\<lambda>x y. key x < key y) xs"
  shows "rb_tree key h xs" and "rb_only_changes N h0 h"
  using assms holds_set unfolding rb_tree_def in_balance_def by (blast, auto simp: rb_only_changes_def holds_def links_def)

lemma rb_tree_NULL: "rbh_root h = NULL \<Longrightarrow> rb_tree key h []"
  unfolding rb_tree_def in_balance_def holds_def by (auto intro!: exI [of _ Leaf] simp: balanced_def)

lemma rb_tree_empty: "rb_tree key h xs \<Longrightarrow> RB_EMPTY h \<longleftrightarrow> xs = []"
  by (erule rb_treeD, drule holds_root) (auto simp: RB_EMPTY_def RB_ROOT_def elems_def)

section \<open>Going down\<close>

text \<open>A focus for the search: what is left of it is smaller, what is right of it is greater, and the last
  comparison was made at its parent.\<close>

definition searched :: "(nat \<Rightarrow> int) \<Rightarrow> frame list \<Rightarrow> int \<Rightarrow> bool" where
  "searched c k v \<longleftrightarrow> (\<forall>x \<in> set (before k). 0 < c x) \<and> (\<forall>x \<in> set (after k). c x < 0) \<and>
     (case k of [] \<Rightarrow> True | In_Left n r # _ \<Rightarrow> v < 0 | In_Right l n # _ \<Rightarrow> 0 < v)"

lemma rb_descend_returns:
  assumes "falling c (elems (plug k t))" and "rb_at h (up k) t" and "searched c k v"
  shows "(\<exists>k' v'. plug k' Leaf = plug k t \<and> rb_descend c h (ptr_of t) (up k) v = ret (NULL, up k', v') \<and> searched c k' v') \<or>
    (\<exists>a v'. a \<in> set (elems t) \<and> c a = 0 \<and> rb_descend c h (ptr_of t) (up k) v = ret (Elem a, Elem a, v'))"
  using assms
proof (induction t arbitrary: k v)
  case Leaf
  then show ?case by (intro disjI1 exI [of _ k] exI [of _ v]) (simp add: rb_descend.simps)
next
  case (Node l n r)
  obtain a d where n: "n = (a, d)" by (cases n)
  have F: "falling c ((before k @ elems l) @ a # elems r @ after k)" using Node.prems(1) by (simp add: n)
  have L: "rbe_left h (Elem a) = ptr_of l" "rbe_right h (Elem a) = ptr_of r" "rb_at h (Elem a) l" "rb_at h (Elem a) r"
    using Node.prems(2) by (simp_all add: n)
  consider "c a < 0" | "0 < c a" | "c a = 0" by linarith
  then show ?case
  proof cases
    case 1
    then have "searched c (In_Left n r # k) (c a)"
      using Node.prems(3) falling_negative [OF F 1] by (auto simp: searched_def n)
    from Node.IH(1) [OF _ _ this] Node.prems(1) L 1 show ?thesis
      by (subst (1 2) rb_descend.simps) (auto simp: n RB_LEFT_def)
  next
    case 2
    then have "searched c (In_Right l n # k) (c a)"
      using Node.prems(3) falling_positive [OF F 2] by (auto simp: searched_def n)
    from Node.IH(2) [OF _ _ this] Node.prems(1) L 2 show ?thesis
      by (subst (1 2) rb_descend.simps) (auto simp: n RB_RIGHT_def)
  next
    case 3
    then show ?thesis by (intro disjI2 exI [of _ a] exI [of _ 0]) (subst rb_descend.simps, simp add: n)
  qed
qed

lemma rb_find_loop_returns:
  assumes "falling c (elems t)" and "rb_at h q t"
  shows "\<exists>p. rb_find_loop c h (ptr_of t) = ret p \<and>
    (p = NULL \<and> (\<forall>x \<in> set (elems t). c x \<noteq> 0) \<or> (\<exists>x \<in> set (elems t). p = Elem x \<and> c x = 0))"
  using assms
proof (induction t arbitrary: q)
  case Leaf
  then show ?case by (simp add: rb_find_loop.simps)
next
  case (Node l n r)
  obtain a d where n: "n = (a, d)" by (cases n)
  have F: "falling c (elems l @ a # elems r)" using Node.prems(1) by (simp add: n)
  have sub: "falling c (elems l)" "falling c (elems r)" using F by (simp_all add: falling_append falling_Cons)
  have L: "rbe_left h (Elem a) = ptr_of l" "rbe_right h (Elem a) = ptr_of r" "rb_at h (Elem a) l" "rb_at h (Elem a) r"
    using Node.prems(2) by (simp_all add: n)
  consider "c a < 0" | "0 < c a" | "c a = 0" by linarith
  then show ?case
  proof cases
    case 1
    then show ?thesis using Node.IH(1) [OF sub(1) L(3)] falling_negative [OF F 1] L(1)
      by (subst rb_find_loop.simps) (force simp: n RB_LEFT_def)
  next
    case 2
    then show ?thesis using Node.IH(2) [OF sub(2) L(4)] falling_positive [OF F 2] L(2)
      by (subst rb_find_loop.simps) (force simp: n RB_RIGHT_def)
  next
    case 3
    then show ?thesis by (subst rb_find_loop.simps) (simp add: n)
  qed
qed

text \<open>The element with a key is the one the list operation finds.\<close>

lemma found_comparison:
  assumes o: "orders cmp key" and s: "sorted_wrt (\<lambda>x y. key x < (key y :: 'k::linorder)) xs"
  shows "a \<in> set xs \<Longrightarrow> cmp e a = 0 \<Longrightarrow> found key e xs = Elem a" and "\<forall>x \<in> set xs. cmp e x \<noteq> 0 \<Longrightarrow> found key e xs = NULL"
proof -
  assume "a \<in> set xs" "cmp e a = 0"
  then obtain ys zs where "xs = ys @ a # zs" "key a = key e" using orders_zero [OF o, of e a] by (auto dest: split_list)
  then show "found key e xs = Elem a" using found_at s by metis
next
  assume "\<forall>x \<in> set xs. cmp e x \<noteq> 0"
  then show "found key e xs = NULL" using orders_zero [OF o] by (intro found_none) metis
qed

lemma rb_find_returns:
  assumes o: "orders cmp key" and tr: "rb_tree key h xs"
  shows "RB_FIND cmp e h = ret (found key e xs)"
proof -
  obtain t where t: "holds h (set xs) h t" "elems t = xs" and s: "sorted_wrt (\<lambda>x y. key x < key y) xs" using rb_treeD [OF tr] by metis
  have "falling (cmp e) (elems t)" unfolding t(2) by (rule falling_orders [OF o ascending_sorted [OF s]])
  from rb_find_loop_returns [OF this, of h NULL] show ?thesis
    using t found_comparison [OF o s] by (auto simp: RB_FIND_def RB_ROOT_def holds_def)
qed

section \<open>Inserting\<close>

lemma link_below:
  "searched c k v \<Longrightarrow> (if up k \<noteq> NULL then if v < 0 then to_left (up k) p h else to_right (up k) p h else to_root p h) = Inr (relink k p h)"
  by (cases k rule: up.cases) (auto simp: searched_def to_left_def to_right_def to_root_def)

lemma rb_insert_returns:
  assumes o: "orders cmp key" and tr: "rb_tree key h xs" and new: "e \<notin> set xs"
  shows "\<exists>h'. RB_INSERT cmp e h = ret (found key e xs, h') \<and>
    rb_tree key h' (if found key e xs = NULL then insort_key key e xs else xs) \<and> rb_only_changes (insert e (set xs)) h h'"
proof -
  obtain t where t: "holds h (set xs) h t" "balanced t" "elems t = xs" and s: "sorted_wrt (\<lambda>x y. key x < key y) xs"
    using rb_treeD [OF tr] by metis
  have F: "falling (cmp e) (elems (plug [] t))" using falling_orders [OF o ascending_sorted [OF s]] by (simp add: t(3))
  have root: "RB_ROOT h = ptr_of t" "rb_at h (up []) t" using t(1) by (simp_all add: holds_def RB_ROOT_def)
  consider (new) k v where "plug k Leaf = t" "rb_descend (cmp e) h (RB_ROOT h) NULL 0 = ret (NULL, up k, v)" "searched (cmp e) k v"
    | (old) a v where "a \<in> set xs" "cmp e a = 0" "rb_descend (cmp e) h (RB_ROOT h) NULL 0 = ret (Elem a, Elem a, v)"
    using rb_descend_returns [OF F root(2), of 0] unfolding root(1) t(3) [symmetric] by (auto simp: searched_def)
  then show ?thesis
  proof cases
    case new
    let ?N = "insert e (set xs)"
    have xs: "xs = before k @ after k" using new(1) t(3) by auto
    have "holds h ?N h (plug k Leaf)" using holds_mono [OF t(1), of ?N] by (auto simp: new(1))
    then have H: "holds h ?N (relink k (Elem e) (as_leaf e k h)) (plug k (Node Leaf (e, RB_RED) Leaf))"
      by (rule attach_focus) (use assms(3) in \<open>auto simp: on_path_def xs\<close>)
    have signs: "\<forall>x \<in> set (before k). key x < key e" "\<forall>x \<in> set (after k). key e < key x"
      using new(3) o by (simp_all add: searched_def orders_def)
    have ins: "insort_key key e xs = before k @ e # after k" unfolding xs by (rule insort_between [OF signs])
    have "red_focus h ?N (insort_key key e xs) (relink k (Elem e) (as_leaf e k h)) k e"
      by (rule red_focusI [OF H]) (use balanced_plugD [of k Leaf] t(2) in \<open>auto simp: new(1) [symmetric] ins even_plug balanced_def\<close>)
    from RB_INSERT_COLOR_returns [OF this] obtain h' where
      h': "RB_INSERT_COLOR (Elem e) (relink k (Elem e) (as_leaf e k h)) = ret h'" "in_balance h ?N (insort_key key e xs) h'" by blast
    have "RB_INSERT cmp e h = ret (NULL, h')"
      using link_below [OF new(3)] by (simp add: RB_INSERT_def new(2) RB_SET_as_leaf h'(1))
    moreover have "sorted_wrt (\<lambda>x y. key x < key y) (insort_key key e xs)"
      unfolding ins by (rule ascending_insert [OF _ signs]) (use s xs in simp)
    moreover have "found key e xs = NULL" using signs by (intro found_none) (auto simp: xs)
    ultimately show ?thesis using in_balance_rb_tree [OF h'(2), of key] by auto
  next
    case old
    then show ?thesis using found_comparison(1) [OF o s old(1,2)] tr by (auto simp: RB_INSERT_def)
  qed
qed

end
