(* ===== verification/RB_Walk.thy ===== *)
theory RB_Walk
  imports RB_Ops
begin

text \<open>
  Walking over a red-black tree: minimum, maximum, successor and iteration visit the elements in order, and
  every way down from the root is short.
\<close>

section \<open>Down and up\<close>

lemma down_left_returns: "rb_at h q t \<Longrightarrow> t \<noteq> Leaf \<Longrightarrow> down_left h (ptr_of t) = ret (Elem (hd (elems t)))"
proof (induction h q t rule: rb_at.induct)
  case (2 h q l a c r)
  then show ?case by (cases "l = Leaf"; subst down_left.simps) (simp_all add: RB_LEFT_def hd_append)
qed simp

lemma up_right_returns:
  "path_at h (Elem a) k \<Longrightarrow> rbe_parent h (Elem a) = up k \<Longrightarrow> a \<notin> on_path k \<Longrightarrow> distinct (before k @ after k) \<Longrightarrow> up_right h (Elem a) = ret (first (after k))"
proof (induction k arbitrary: a)
  case Nil
  then show ?case by (subst up_right.simps) (simp add: RB_PARENT_def first_def)
next
  case (Cons f k)
  show ?case
  proof (cases f)
    case (In_Left n r)
    then obtain b c where n: "f = In_Left (b, c) r" by (cases n) simp
    have "ptr_of r \<noteq> Elem a" using Cons.prems(3) ptr_of_elem [of r a] by (auto simp: n)
    then show ?thesis using Cons.prems by (subst up_right.simps) (auto simp: n RB_PARENT_def RB_RIGHT_def first_def)
  next
    case (In_Right l n)
    then obtain b c where n: "f = In_Right l (b, c)" by (cases n) simp
    have "b \<notin> on_path k" "distinct (before k @ after k)" using Cons.prems(4) by (auto simp: n on_path_def)
    then have "up_right h (Elem b) = ret (first (after k))" using Cons.prems(1) by (intro Cons.IH) (auto simp: n)
    then show ?thesis using Cons.prems by (subst up_right.simps) (auto simp: n RB_PARENT_def RB_RIGHT_def)
  qed
qed

text \<open>The successor of the node in focus: the first element of its right subtree, else of what follows.\<close>

lemma next_at_focus:
  assumes H: "holds h0 N h (plug k (Node l (a, c) r))"
  shows "RB_NEXT (Elem a) h = ret (first (elems r @ after k))"
proof (cases "r = Leaf")
  case False
  have "rb_at h (Elem a) r" using H by (simp add: holds_focus)
  from down_left_returns [OF this False] have "RB_NEXT (Elem a) h = ret (Elem (hd (elems r)))"
    using holds_reads(2) [OF H] False by (simp add: RB_NEXT_def)
  then show ?thesis using False by (cases "elems r") (simp_all add: first_def)
next
  case True
  have p: "path_at h (Elem a) k" "rbe_parent h (Elem a) = up k" "a \<notin> on_path k" "distinct (before k @ after k)"
    using H by (auto simp: holds_focus on_path_def)
  note u = up_right_returns [OF p]
  show ?thesis
  proof (cases k rule: up.cases)
    case 1
    then show ?thesis using True u holds_reads(2,3) [OF H] by (simp add: RB_NEXT_def)
  next
    case (2 n s k')
    then show ?thesis using True p(1) holds_reads(2,3) [OF H] by (cases n) (simp add: RB_NEXT_def RB_LEFT_def first_def)
  next
    case (3 s n k')
    then have "ptr_of s \<noteq> Elem a" using p(3) ptr_of_elem [of s a] by auto
    then show ?thesis using 3 True u p(1) holds_reads(2,3) [OF H] by (cases n) (auto simp: RB_NEXT_def RB_LEFT_def)
  qed
qed

lemma sides_append: "before (k @ k') = before k' @ before k" "after (k @ k') = after k @ after k'"
  by (induction k rule: before.induct) simp_all

lemma locate: "elems t = xs @ e # ys \<Longrightarrow> \<exists>k l c r. plug k (Node l (e, c) r) = t \<and> before k @ elems l = xs \<and> elems r @ after k = ys"
proof (induction t arbitrary: xs ys)
  case (Node l n r)
  obtain a c where n: "n = (a, c)" by (cases n)
  have "elems l @ a # elems r = xs @ e # ys" using Node.prems by (simp add: n)
  then consider (lft) us where "elems l = xs @ e # us" "ys = us @ a # elems r" | (here) "elems l = xs" "a = e" "elems r = ys"
    | (rgt) us where "xs = elems l @ a # us" "elems r = us @ e # ys"
    by (auto simp: append_eq_append_conv2 Cons_eq_append_conv append_eq_Cons_conv)
  then show ?case
  proof cases
    case lft
    from Node.IH(1) [OF lft(1)] obtain k l' c' r' where "plug k (Node l' (e, c') r') = l" "before k @ elems l' = xs" "elems r' @ after k = us" by blast
    then show ?thesis
      by (intro exI [of _ "k @ [In_Left n r]"] exI [of _ l'] exI [of _ c'] exI [of _ r']) (simp add: plug_append sides_append lft(2) n)
  next
    case here
    then show ?thesis by (intro exI [of _ "[]"] exI [of _ l] exI [of _ c] exI [of _ r]) (simp add: n)
  next
    case rgt
    from Node.IH(2) [OF rgt(2)] obtain k l' c' r' where "plug k (Node l' (e, c') r') = r" "before k @ elems l' = us" "elems r' @ after k = ys" by blast
    then show ?thesis
      by (intro exI [of _ "k @ [In_Right l n]"] exI [of _ l'] exI [of _ c'] exI [of _ r']) (simp add: plug_append sides_append rgt(1) n)
  qed
qed simp

lemma rb_next_returns:
  assumes "rb_tree key h (xs @ e # ys)"
  shows "RB_NEXT (Elem e) h = ret (first ys)"
proof -
  obtain t where t: "holds h (set (xs @ e # ys)) h t" "elems t = xs @ e # ys" using rb_treeD [OF assms] by metis
  obtain k l c r where f: "plug k (Node l (e, c) r) = t" "elems r @ after k = ys" using locate [OF t(2)] by blast
  show ?thesis using next_at_focus [of h _ h k l e c r] t(1) f by blast
qed

section \<open>Minimum and maximum\<close>

lemma rb_minmax_returns:
  "rb_at h q t \<Longrightarrow> v < 0 \<Longrightarrow> rb_minmax_loop v h (ptr_of t) p = ret (if t = Leaf then p else Elem (hd (elems t)))"
  "rb_at h q t \<Longrightarrow> \<not> v < 0 \<Longrightarrow> rb_minmax_loop v h (ptr_of t) p = ret (if t = Leaf then p else Elem (last (elems t)))"
proof (induction t arbitrary: q p)
  case Leaf
  { case 1 show ?case by (simp add: rb_minmax_loop.simps) }
  { case 2 show ?case by (simp add: rb_minmax_loop.simps) }
next
  case (Node l n r)
  obtain a c where n: "n = (a, c)" by (cases n)
  { case 1 then show ?case using Node.IH(1) [of "Elem a" "Elem a"]
      by (subst rb_minmax_loop.simps) (auto simp: n RB_LEFT_def) }
  { case 2 then show ?case using Node.IH(4) [of "Elem a" "Elem a"]
      by (subst rb_minmax_loop.simps) (auto simp: n RB_RIGHT_def) }
qed

lemma rb_ends:
  assumes "rb_tree key h xs"
  shows "RB_MINMAX v h = ret (if v < 0 then first xs else if xs = [] then NULL else Elem (last xs))"
proof -
  obtain t where t: "holds h (set xs) h t" "elems t = xs" using rb_treeD [OF assms] by metis
  have "rb_at h NULL t" "rbh_root h = ptr_of t" using t(1) by (simp_all add: holds_def)
  with rb_minmax_returns [of h NULL t v NULL] have "RB_MINMAX v h = ret (if t = Leaf then NULL else Elem (if v < 0 then hd xs else last xs))"
    by (cases "v < 0") (auto simp: RB_MINMAX_def RB_ROOT_def t(2))
  then show ?thesis using elems_Nil [of t] t(2) by (cases xs) (simp_all add: first_def)
qed

lemma rb_min_returns: "rb_tree key h xs \<Longrightarrow> RB_MIN h = ret (first xs)"
  using rb_ends [of key h xs RB_NEGINF] by (simp add: RB_MIN_def RB_NEGINF_def)

lemma rb_max_returns: "rb_tree key h xs \<Longrightarrow> RB_MAX h = ret (if xs = [] then NULL else Elem (last xs))"
  using rb_ends [of key h xs RB_INF] by (simp add: RB_MAX_def RB_INF_def)

section \<open>Iteration\<close>

lemma rb_foreach_visits: "rb_tree key h (xs @ ys) \<Longrightarrow> rb_foreach_from (first ys) h seen = ret (seen @ map Elem ys)"
proof (induction ys arbitrary: xs seen)
  case Nil
  then show ?case by (simp add: rb_foreach_from.simps first_def)
next
  case (Cons e ys)
  have "RB_NEXT (Elem e) h = ret (first ys)" by (rule rb_next_returns [OF Cons.prems])
  then have "rb_foreach_from (first (e # ys)) h seen = rb_foreach_from (first ys) h (seen @ [Elem e])"
    by (subst rb_foreach_from.simps) (simp add: first_def [of "e # ys"] ret_def)
  then show ?case using Cons.IH [of "xs @ [e]" "seen @ [Elem e]"] Cons.prems by simp
qed

section \<open>Depth\<close>

lemma blacks_size: "even t \<Longrightarrow> 2 ^ blacks t \<le> length (elems t) + 1"
proof (induction t rule: even.induct)
  case (2 l a c r)
  then show ?case by (cases "c = RB_BLACK") auto
qed simp

lemma height_blacks: "no_two_reds t \<Longrightarrow> even t \<Longrightarrow> height t \<le> 2 * blacks t + (if color_of t = RB_BLACK then 0 else 1)"
proof (induction t rule: even.induct)
  case (2 l a c r)
  then show ?case by (auto split: if_splits)
qed simp

text \<open>The pointer a list of turns leads to from \<open>p\<close>, left for true.\<close>

fun turns :: "rb_heap \<Rightarrow> ptr \<Rightarrow> bool list \<Rightarrow> ptr result" where
  "turns h p [] = Inr p"
| "turns h p (b # bs) = chain (if b then RB_LEFT h p else RB_RIGHT h p) (\<lambda>q. turns h q bs)"

lemma turns_short: "rb_at h q t \<Longrightarrow> turns h (ptr_of t) bs = Inr p \<Longrightarrow> p \<noteq> NULL \<Longrightarrow> length bs < height t"
proof (induction t arbitrary: q bs)
  case Leaf
  then show ?case by (cases bs) (auto simp: RB_LEFT_def RB_RIGHT_def split: if_splits)
next
  case (Node l n r)
  obtain a c where n: "n = (a, c)" by (cases n)
  show ?case
  proof (cases bs)
    case (Cons b cs)
    have "length cs < height (if b then l else r)"
      using Node.IH(1) [of "Elem a" cs] Node.IH(2) [of "Elem a" cs] Node.prems by (auto simp: n Cons RB_LEFT_def RB_RIGHT_def split: if_splits)
    then show ?thesis by (auto simp: Cons split: if_splits)
  qed simp
qed

lemma depth_bound:
  assumes "rb_tree key h xs" and "turns h (RB_ROOT h) bs = Inr p" and "p \<noteq> NULL"
  shows "2 ^ Suc (length bs) \<le> (length xs + 1)\<^sup>2"
proof -
  obtain t where t: "holds h (set xs) h t" "balanced t" "elems t = xs" using rb_treeD [OF assms(1)] by metis
  have "rb_at h NULL t" "RB_ROOT h = ptr_of t" using t(1) by (simp_all add: holds_def RB_ROOT_def)
  then have "Suc (length bs) \<le> height t" using turns_short assms(2,3) by fastforce
  also have "height t \<le> 2 * blacks t" using height_blacks [of t] t(2) by (simp add: balanced_def)
  finally have "(2 :: nat) ^ Suc (length bs) \<le> 2 ^ (2 * blacks t)" by (rule power_increasing) simp
  also have "\<dots> = (2 ^ blacks t)\<^sup>2" by (simp add: power_mult mult.commute)
  also have "\<dots> \<le> (length xs + 1)\<^sup>2" using blacks_size [of t] t(2,3) by (intro power_mono) (auto simp: balanced_def)
  finally show ?thesis .
qed

end
