(* ===== verification/RB_Remove.thy ===== *)
theory RB_Remove
  imports RB_Recolor RB_Walk
begin

text \<open>
  Removal from a red-black tree: a node with at most one child is unlinked, one with two children is replaced
  by its successor; then the loop of \<open>RB_Recolor\<close> makes up for a black node that is gone.
\<close>

section \<open>After the unlinking\<close>

text \<open>The colour of the node that is gone decides whether the focus is short of a black node.\<close>

lemma finish_removal:
  assumes H: "holds h0 N h (plug k t)" and k: "path_colors k" and t: "no_two_reds t" "even t"
    and cs: "cs = RB_BLACK \<or> color_of t = RB_BLACK" and e: "path_even (blacks t + (if cs = RB_BLACK then 1 else 0)) k"
    and xs: "elems (plug k t) = xs"
  shows "\<exists>h'. (if cs = RB_BLACK then run_then (RB_REMOVE_COLOR (up k) (ptr_of t) h) (\<lambda>h2. ret (elm, h2)) else ret (elm, h)) = ret (elm, h') \<and>
    in_balance h0 N xs h'"
proof (cases "cs = RB_BLACK")
  case True
  have "no_two_reds (blacken t)" using t(1) by (cases t rule: ptr_of.cases) auto
  then have "short_focus h0 N xs h k t"
    using H k t e xs True no_two_reds_color [OF t(1)] unfolding short_focus_def by simp
  from RB_REMOVE_COLOR_returns [OF this] show ?thesis using True by auto
next
  case False
  then have "balanced (plug k t)" using k t cs e by (intro balanced_plug) auto
  then show ?thesis using in_balanceI [OF H _ xs] False by simp
qed

text \<open>What a balanced tree says of a node without two children and of its path.\<close>

lemma one_child:
  assumes b: "balanced (plug k (Node l (a, c) r))" and one: "l = Leaf \<and> t = r \<or> r = Leaf \<and> t = l"
  shows "path_colors k" and "no_two_reds t" and "even t" and "c = RB_BLACK \<or> color_of t = RB_BLACK"
    and "path_even (blacks t + (if c = RB_BLACK then 1 else 0)) k"
  using balanced_plugD [OF b] b one unfolding balanced_def even_plug by auto

lemma one_child_removed:
  assumes H: "holds h0 N h (plug k (Node l (a, c) r))" and b: "balanced (plug k (Node l (a, c) r))"
    and one: "l = Leaf \<and> t = r \<or> r = Leaf \<and> t = l" and xs: "elems (plug k t) = xs"
  shows "\<exists>h'. run_then (take_out (Elem a) (ptr_of t) h) (\<lambda>(parent, child, color, h1).
      if color = RB_BLACK then run_then (RB_REMOVE_COLOR parent child h1) (\<lambda>h2. ret (elm, h2)) else ret (elm, h1)) = ret (elm, h') \<and>
    in_balance h0 N xs h'"
proof -
  obtain h1 where h1: "unlink (Elem a) (up k) (ptr_of t) h = Inr h1" "holds h0 N h1 (plug k t)"
    using unlink_focus [OF H one] by blast
  show ?thesis
    using finish_removal [OF h1(2) one_child [OF b one] xs, of elm] holds_reads(3,4) [OF H] h1(1) by (simp add: take_out_def)
qed

section \<open>A node with two children\<close>

lemma path_renamed:
  "path_colors (ks @ In_Right l (a, c) # k) = path_colors (ks @ In_Right l (s, c) # k)"
  "path_even n (ks @ In_Right l (a, c) # k) = path_even n (ks @ In_Right l (s, c) # k)"
proof -
  have "black_above (ks @ In_Right l (a, c) # k) = black_above (ks @ In_Right l (s, c) # k)" for ks by (cases ks) simp_all
  then show "path_colors (ks @ In_Right l (a, c) # k) = path_colors (ks @ In_Right l (s, c) # k)" by (induction ks) simp_all
  show "path_even n (ks @ In_Right l (a, c) # k) = path_even n (ks @ In_Right l (s, c) # k)" by (induction ks arbitrary: n) simp_all
qed

lemma augment_up_returns: "path_at h p (f # k) \<Longrightarrow> augment_up h (up (f # k)) = ret ()"
proof (induction k arbitrary: p f)
  case Nil
  then show ?case by (cases f; subst augment_up.simps) (auto simp: RB_PARENT_def)
next
  case (Cons f' k)
  obtain a where a: "up (f # f' # k) = Elem a" by (cases f) simp_all
  have "path_at h (Elem a) (f' # k)" "rbe_parent h (Elem a) = up (f' # k)" using Cons.prems a by (cases f; auto)+
  then show ?case using Cons.IH unfolding a by (subst augment_up.simps) (simp add: RB_PARENT_def)
qed

lemma successor_removed:
  assumes H: "holds h0 N h (plug k (Node l (a, c) r))" and b: "balanced (plug k (Node l (a, c) r))"
    and two: "l \<noteq> Leaf" "r \<noteq> Leaf" and xs: "before k @ elems l @ elems r @ after k = xs"
  shows "\<exists>s h'. down_left h (ptr_of r) = ret s \<and>
    run_then (take_out_successor (Elem a) s h) (\<lambda>(parent, child, color, h1).
      if color = RB_BLACK then run_then (RB_REMOVE_COLOR parent child h1) (\<lambda>h2. ret (elm, h2)) else ret (elm, h1)) = ret (elm, h') \<and>
    in_balance h0 N xs h'"
proof -
  obtain s ys where "elems r = s # ys" using two(2) by (cases "elems r") auto
  then obtain ks cs l' rs where r: "plug ks (Node l' (s, cs) rs) = r" "before ks @ elems l' = []" using locate [of r "[]" s ys] by auto
  then have l': "l' = Leaf" "before ks = []" by simp_all
  let ?K = "ks @ In_Right l (a, c) # k" and ?K' = "ks @ In_Right l (s, c) # k"
  have D: "down_left h (ptr_of r) = ret (Elem s)"
    using down_left_returns [of h "Elem a" r] H two(2) r l' by (auto simp: holds_focus)
  have HS: "holds h0 N h (plug ?K (Node Leaf (s, cs) rs))" using H r(1) by (simp add: plug_append l')
  have bS: "balanced (plug ?K (Node Leaf (s, cs) rs))" using b r(1) by (simp add: plug_append l')
  have dist: "distinct (before k @ elems l @ a # elems r @ after k)" using H by (simp add: holds_focus)
  have sr: "s \<in> set (elems r)" unfolding r(1) [symmetric] by simp
  obtain h1 where h1: "unlink (Elem s) (up ?K) (ptr_of rs) h = Inr h1" "holds h0 N h1 (plug ?K rs)" "links h1 (Elem s) = links h (Elem s)"
    using unlink_focus [OF HS, of rs] by blast
  have q: "RB_PARENT h1 (Elem s) = Inr (up ?K)" using h1(3) holds_reads(3) [OF HS] by (auto simp: links_def RB_PARENT_def)
  have "holds h0 N h1 (plug k (Node l (a, c) (plug ks rs)))" using h1(2) by (simp add: plug_append)
  moreover have "s \<in> N" using HS by (simp add: holds_def)
  moreover have "s \<notin> set (elems (plug k (Node l (a, c) (plug ks rs))))"
    using HS by (auto simp: holds_def plug_append l')
  ultimately obtain h2 where h2: "replace (Elem a) (Elem s) h1 = Inr h2" "holds h0 N h2 (plug ?K' rs)"
    using replace_focus [of h0 N h1 k l a c "plug ks rs" s] two(1) by (auto simp: plug_append)
  have par: "(if up ?K = Elem a then Elem s else up ?K) = up ?K'"
  proof (cases ks rule: up.cases)
    case (2 n r' ks')
    then have "fst n \<in> set (elems r)" unfolding r(1) [symmetric] by simp
    then show ?thesis using 2 dist by auto
  next
    case (3 l' n ks')
    then show ?thesis using l'(2) by simp
  qed simp
  have up: "up ?K' \<noteq> NULL" "augment_up h2 (up ?K') = ret ()"
  proof -
    obtain f k' where k': "?K' = f # k'" by (cases ks) auto
    have "path_at h2 (ptr_of rs) (f # k')" using h2(2) unfolding holds_focus k' by blast
    then show "augment_up h2 (up ?K') = ret ()" unfolding k' by (rule augment_up_returns)
  qed simp
  have take: "take_out_successor (Elem a) (Elem s) h = ret (up ?K', ptr_of rs, cs, h2)"
    using holds_reads(2,3,4) [OF HS] h1(1) q par h2(1) up by (simp add: take_out_successor_def Let_def)
  note f = one_child [OF bS disjI1 [OF conjI [OF refl refl]]]
  have "\<exists>h'. (if cs = RB_BLACK then run_then (RB_REMOVE_COLOR (up ?K') (ptr_of rs) h2) (\<lambda>h3. ret (elm, h3)) else ret (elm, h2)) = ret (elm, h') \<and>
    in_balance h0 N xs h'"
  proof (rule finish_removal [OF h2(2) _ f(2,3,4)])
    show "path_colors ?K'" using f(1) path_renamed(1) by blast
    show "path_even (blacks rs + (if cs = RB_BLACK then 1 else 0)) ?K'" using f(5) path_renamed(2) by blast
    show "elems (plug ?K' rs) = xs"
      unfolding xs [symmetric] r(1) [symmetric] by (simp add: plug_append l')
  qed
  then show ?thesis using D take by auto
qed

section \<open>Removing\<close>

lemma rb_remove_returns:
  assumes tr: "rb_tree key h (xs @ e # ys)"
  shows "\<exists>h'. RB_REMOVE (Elem e) h = ret (Elem e, h') \<and> rb_tree key h' (xs @ ys) \<and> rb_only_changes (set (xs @ e # ys)) h h'"
proof -
  let ?N = "set (xs @ e # ys)"
  obtain T where T: "holds h ?N h T" "balanced T" "elems T = xs @ e # ys" and s: "sorted_wrt (\<lambda>x y. key x < key y) (xs @ e # ys)"
    using rb_treeD [OF tr] by metis
  obtain k l c r where f: "plug k (Node l (e, c) r) = T" "before k @ elems l = xs" "elems r @ after k = ys" using locate [OF T(3)] by blast
  have H: "holds h ?N h (plug k (Node l (e, c) r))" and b: "balanced (plug k (Node l (e, c) r))" using T f(1) by simp_all
  note reads = holds_reads(1,2) [OF H]
  have "\<exists>h'. RB_REMOVE (Elem e) h = ret (Elem e, h') \<and> in_balance h ?N (xs @ ys) h'"
  proof (cases "l = Leaf \<or> r = Leaf")
    case True
    define t where "t = (if l = Leaf then r else l)"
    have one: "l = Leaf \<and> t = r \<or> r = Leaf \<and> t = l" using True by (auto simp: t_def)
    have "elems (plug k t) = xs @ ys" using one f(2,3) by auto
    from one_child_removed [OF H b one this, of "Elem e"] show ?thesis using reads one by (auto simp: RB_REMOVE_def)
  next
    case False
    have "before k @ elems l @ elems r @ after k = xs @ ys" using f(2,3) by auto
    from successor_removed [OF H b _ _ this, of "Elem e"] show ?thesis using reads False by (auto simp: RB_REMOVE_def)
  qed
  then show ?thesis using in_balance_rb_tree [OF _ ascending_drop [OF s]] by blast
qed

end
