(* ===== verification/RB_Correct.thy ===== *)
theory RB_Correct
  imports RB_Remove Splay_Ops
begin

text \<open>
  What the red-black trees promise, on the heap: every operation returns on every ordered, balanced tree, does
  what the list or map of its elements says, leaves an ordered, balanced tree and changes nothing outside it.
  Both kinds of trees keep the contract of \<open>Key_Order\<close>, so they answer the same calls alike.
\<close>

section \<open>The contract\<close>

definition rb_find :: "(nat \<Rightarrow> nat \<Rightarrow> int) \<Rightarrow> rb_heap operation" where
  "rb_find cmp e h = run_then (RB_FIND cmp e h) (\<lambda>p. ret (p, h))"

definition rb_remove :: "rb_heap operation" where
  "rb_remove e h = RB_REMOVE (Elem e) h"

interpretation rb_map: ordered_tree "\<lambda>h xs. orders cmp key \<and> rb_tree key h xs" key "RB_INSERT cmp" "rb_find cmp" rb_remove
  for cmp :: "nat \<Rightarrow> nat \<Rightarrow> int" and key :: "nat \<Rightarrow> 'k::linorder"
proof
  fix h xs e
  assume t: "orders cmp key \<and> rb_tree key h xs"
  then have s: "sorted_wrt (\<lambda>x y. key x < key y) xs" by (simp add: rb_tree_def)
  then show "sorted_wrt (\<lambda>x y. key x < key y) xs" .
  show "\<exists>h'. rb_find cmp e h = ret (found key e xs, h') \<and> (orders cmp key \<and> rb_tree key h' xs)"
    using t rb_find_returns [of cmp key h xs e] by (auto simp: rb_find_def)
  show "\<exists>h'. RB_INSERT cmp e h = ret (found key e xs, h') \<and>
    (orders cmp key \<and> rb_tree key h' (if found key e xs = NULL then insort_key key e xs else xs))" if "e \<notin> set xs"
    using t rb_insert_returns [of cmp key h xs e] that by blast
  show "\<exists>h'. rb_remove e h = ret (Elem e, h') \<and> (orders cmp key \<and> rb_tree key h' (without key e xs))" if el: "e \<in> set xs"
  proof -
    obtain ys zs where xs: "xs = ys @ e # zs" using split_list [OF el] by blast
    have "without key e xs = ys @ zs" using without_split [OF s [unfolded xs] refl] by (simp add: xs)
    then show ?thesis using t rb_remove_returns [of key h ys e zs] by (auto simp: rb_remove_def xs)
  qed
qed

section \<open>The properties\<close>

text \<open>The witnesses use the tree with the black root 3 and its red children 1 and 5.\<close>

definition three_colored :: rb_heap where
  "three_colored = \<lparr>rbe_left = (\<lambda>_. NULL)(Elem 3 := Elem 1), rbe_right = (\<lambda>_. NULL)(Elem 3 := Elem 5),
     rbe_parent = (\<lambda>_. NULL)(Elem 1 := Elem 3, Elem 5 := Elem 3),
     rbe_color = (\<lambda>_. RB_RED)(Elem 3 := RB_BLACK), rbh_root = Elem 3\<rparr>"

lemma three_colored_tree: "rb_tree (\<lambda>a. a) three_colored [1, 3, 5]"
proof -
  let ?t = "Node (Node Leaf (1, RB_RED) Leaf) (3, RB_BLACK) (Node Leaf (5, RB_RED) Leaf) :: rbtree"
  have "holds three_colored (set [1, 3, 5]) three_colored ?t" by (simp add: holds_def three_colored_def)
  moreover have "balanced ?t" by (simp add: balanced_def)
  moreover have "elems ?t = [1, 3, 5]" by simp
  ultimately show ?thesis unfolding rb_tree_def in_balance_def by (intro conjI exI [of _ ?t]) simp_all
qed

text \<open>C35. Inserting an element that is not in the tree returns. A new key puts the element at its place in the
  order and the result is null; else the element that has the key is returned and the elements stay the
  same. The tree is ordered and in balance again (black root, no red node with a red child, the same number
  of black nodes on every way down), and nothing outside the tree and the new element changes.\<close>

theorem RB_INSERT_correct:
  assumes "orders cmp key" and "rb_tree key h xs" and "e \<notin> set xs"
  shows "\<exists>h'. RB_INSERT cmp e h = ret (found key e xs, h') \<and>
    rb_tree key h' (if found key e xs = NULL then insort_key key e xs else xs) \<and> rb_only_changes (insert e (set xs)) h h'"
  by (rule rb_insert_returns [OF assms])

theorem RB_INSERT_correct_witness:
  "\<exists>h'. RB_INSERT address_cmp 4 three_colored = ret (NULL, h') \<and> rb_tree (\<lambda>a. a) h' [1, 3, 4, 5] \<and>
    rb_only_changes {4, 1, 3, 5} three_colored h'"
  using RB_INSERT_correct [OF address_cmp_orders three_colored_tree, of 4] by (simp add: found_def)

text \<open>C36. Removing an element of the tree returns a pointer to it and leaves an ordered tree in balance of the
  other elements; nothing outside the tree changes.\<close>

theorem RB_REMOVE_correct:
  assumes "rb_tree key h (xs @ e # ys)"
  shows "\<exists>h'. RB_REMOVE (Elem e) h = ret (Elem e, h') \<and> rb_tree key h' (xs @ ys) \<and> rb_only_changes (set (xs @ e # ys)) h h'"
  by (rule rb_remove_returns [OF assms])

theorem RB_REMOVE_correct_witness:
  "\<exists>h'. RB_REMOVE (Elem 3) three_colored = ret (Elem 3, h') \<and> rb_tree (\<lambda>a. a) h' [1, 5] \<and>
    rb_only_changes {1, 3, 5} three_colored h'"
  using RB_REMOVE_correct [of "\<lambda>a. a" three_colored "[1]" 3 "[5]"] three_colored_tree by simp

text \<open>On every ordered tree the search returns the element with the wanted key or null, the minimum and the
  maximum are the first and the last element or null, and the successor of an element is the next one or null.\<close>

theorem RB_lookups_correct:
  assumes "orders cmp key" and "rb_tree key h xs"
  shows "RB_FIND cmp e h = ret (found key e xs) \<and> RB_MIN h = ret (first xs) \<and>
    RB_MAX h = ret (if xs = [] then NULL else Elem (last xs)) \<and>
    (\<forall>ys x zs. xs = ys @ x # zs \<longrightarrow> RB_NEXT (Elem x) h = ret (first zs))"
  using rb_find_returns [OF assms] rb_min_returns [OF assms(2)] rb_max_returns [OF assms(2)] rb_next_returns [of key h] assms(2)
  by blast

theorem RB_lookups_correct_witness:
  "RB_FIND address_cmp 4 three_colored = ret NULL \<and> RB_MIN three_colored = ret (Elem 1) \<and> RB_MAX three_colored = ret (Elem 5) \<and>
    RB_NEXT (Elem 3) three_colored = ret (Elem 5)"
proof -
  note all = RB_lookups_correct [OF address_cmp_orders three_colored_tree, of 4]
  then have "[1, 3, 5] = [1] @ 3 # [5 :: nat] \<longrightarrow> RB_NEXT (Elem 3) three_colored = ret (first [5])" by blast
  then show ?thesis using all by (simp add: found_def first_def)
qed

text \<open>The iteration macro visits every element once, in the order of the keys, and ends.\<close>

theorem RB_FOREACH_visits_in_order:
  assumes "rb_tree key h xs"
  shows "RB_FOREACH h = ret (map Elem xs)"
  using rb_min_returns [OF assms] rb_foreach_visits [of key h "[]" xs "[]"] assms by (simp add: RB_FOREACH_def)

theorem RB_FOREACH_visits_in_order_witness: "RB_FOREACH three_colored = ret [Elem 1, Elem 3, Elem 5]"
  using RB_FOREACH_visits_in_order [OF three_colored_tree] by simp

text \<open>C39. Ways down are short: a node reached from the root by \<open>n\<close> turns to the left or right lies in a tree of
  so many elements \<open>m\<close> that \<open>2 ^ (n + 1)\<close> is at most \<open>(m + 1) ^ 2\<close>; so a search makes at most twice as many
  comparisons as the binary logarithm of \<open>m + 1\<close>. It holds after every insertion.\<close>

theorem RB_depth_bound:
  assumes "orders cmp key" and "rb_tree key h xs" and "e \<notin> set xs" and "RB_INSERT cmp e h = ret (q, h')"
    and "turns h' (RB_ROOT h') bs = Inr p" and "p \<noteq> NULL"
  shows "2 ^ Suc (length bs) \<le> (length xs + 2)\<^sup>2"
proof -
  obtain ys where "rb_tree key h' ys" and "length ys \<le> length xs + 1"
    using rb_insert_returns [OF assms(1-3)] assms(4) by (auto split: if_splits)
  then have "2 ^ Suc (length bs) \<le> (length ys + 1)\<^sup>2" using depth_bound assms(5,6) by blast
  also have "\<dots> \<le> (length xs + 2)\<^sup>2" using \<open>length ys \<le> length xs + 1\<close> by (intro power_mono) auto
  finally show ?thesis .
qed

theorem RB_depth_bound_witness:
  "\<exists>q h' p. RB_INSERT address_cmp 4 three_colored = ret (q, h') \<and> turns h' (RB_ROOT h') [] = Inr p \<and> p \<noteq> NULL \<and>
    2 ^ Suc (length ([] :: bool list)) \<le> (length [1, 3, 5 :: nat] + 2)\<^sup>2"
proof -
  obtain h' where h': "RB_INSERT address_cmp 4 three_colored = ret (NULL, h')" "rb_tree (\<lambda>a. a) h' [1, 3, 4, 5]"
    using rb_insert_returns [OF address_cmp_orders three_colored_tree, of 4] by (auto simp: found_def)
  have r: "RB_ROOT h' \<noteq> NULL" using rb_tree_empty [OF h'(2)] by (simp add: RB_EMPTY_def)
  have "2 ^ Suc (length ([] :: bool list)) \<le> (length [1, 3, 5 :: nat] + 2)\<^sup>2"
    by (rule RB_depth_bound [OF address_cmp_orders three_colored_tree _ h'(1) _ r]) simp_all
  then show ?thesis using h'(1) r by auto
qed

text \<open>C37. Any number of calls that insert elements not linked in, look up, and remove elements that are linked in
  returns, on a red-black tree, with the answers of a finite map from keys to elements under the same calls;
  the tree that is left has exactly the elements of the map that is left.\<close>

theorem RB_calls_refine_map:
  assumes "orders cmp key" and "rb_tree key h xs" and "all_allowed key cs (contents key xs)"
  shows "\<exists>h' xs'. perform_all (RB_INSERT cmp) (rb_find cmp) rb_remove cs h = ret (fst (map_calls key cs (contents key xs)), h') \<and>
    rb_tree key h' xs' \<and> contents key xs' = snd (map_calls key cs (contents key xs))"
  using rb_map.calls_refine_map [of cmp key h xs cs] assms by blast

theorem RB_calls_refine_map_witness:
  "\<exists>h' xs'. perform_all (RB_INSERT address_cmp) (rb_find address_cmp) rb_remove [Insert 4, Remove 3, Find 3] three_colored =
      ret ([NULL, Elem 3, NULL], h') \<and>
    rb_tree (\<lambda>a. a) h' xs' \<and> contents (\<lambda>a. a) xs' = [1 \<mapsto> 1, 4 \<mapsto> 4, 5 \<mapsto> 5 :: nat]"
proof -
  have c: "contents (\<lambda>a. a) [1, 3, 5] = [1 \<mapsto> 1, 3 \<mapsto> 3, 5 \<mapsto> 5 :: nat]" by (rule ext) (simp add: contents_def)
  have m: "map_calls (\<lambda>a. a) [Insert 4, Remove 3, Find 3] [1 \<mapsto> 1, 3 \<mapsto> 3, 5 \<mapsto> 5 :: nat] =
      ([NULL, Elem 3, NULL], [1 \<mapsto> 1, 4 \<mapsto> 4, 5 \<mapsto> 5])"
    by (auto simp: pointer_to_def fun_eq_iff)
  have "all_allowed (\<lambda>a. a) [Insert 4, Remove 3, Find 3] [1 \<mapsto> 1, 3 \<mapsto> 3, 5 \<mapsto> 5 :: nat]" by simp
  then show ?thesis
    using RB_calls_refine_map [OF address_cmp_orders three_colored_tree, of "[Insert 4, Remove 3, Find 3]"] unfolding c m by simp
qed

text \<open>C38. Splay trees and red-black trees are interchangeable: from trees of the same elements, the same allowed
  calls return the same pointers and leave trees of the same elements.\<close>

theorem trees_agree:
  assumes "orders cmp key" and "splay_tree key hs xs" and "rb_tree key hr xs" and "all_allowed key cs (contents key xs)"
  shows "\<exists>ps' hs' hr' ys zs. perform_all (SPLAY_INSERT cmp) (SPLAY_FIND cmp) (SPLAY_REMOVE cmp) cs hs = ret (ps', hs') \<and>
    perform_all (RB_INSERT cmp) (rb_find cmp) rb_remove cs hr = ret (ps', hr') \<and>
    splay_tree key hs' ys \<and> rb_tree key hr' zs \<and> contents key ys = contents key zs"
proof -
  obtain hs' ys where "perform_all (SPLAY_INSERT cmp) (SPLAY_FIND cmp) (SPLAY_REMOVE cmp) cs hs = ret (fst (map_calls key cs (contents key xs)), hs')"
    "splay_tree key hs' ys" "contents key ys = snd (map_calls key cs (contents key xs))"
    using splay_map.calls_refine_map [of cmp key hs xs cs] assms by blast
  moreover obtain hr' zs where "perform_all (RB_INSERT cmp) (rb_find cmp) rb_remove cs hr = ret (fst (map_calls key cs (contents key xs)), hr')"
    "rb_tree key hr' zs" "contents key zs = snd (map_calls key cs (contents key xs))"
    using rb_map.calls_refine_map [of cmp key hr xs cs] assms by blast
  ultimately show ?thesis by metis
qed

theorem trees_agree_witness:
  "\<exists>ps' hs' hr' ys zs.
    perform_all (SPLAY_INSERT address_cmp) (SPLAY_FIND address_cmp) (SPLAY_REMOVE address_cmp) [Insert 4, Remove 3, Find 3] three_nodes = ret (ps', hs') \<and>
    perform_all (RB_INSERT address_cmp) (rb_find address_cmp) rb_remove [Insert 4, Remove 3, Find 3] three_colored = ret (ps', hr') \<and>
    splay_tree (\<lambda>a. a) hs' ys \<and> rb_tree (\<lambda>a. a) hr' zs \<and> contents (\<lambda>a. a) ys = contents (\<lambda>a. a) zs"
  by (rule trees_agree [OF address_cmp_orders three_nodes_tree three_colored_tree]) (simp add: contents_def)

end
